(* ===== verification/Prelude.thy ===== *)
theory Prelude
  imports Main "HOL-Library.Word"
begin

text \<open>
  The C vocabulary the components share.  A C string is the Isabelle \<open>string\<close> of its
  characters up to, and without, the terminating NUL; a buffer \<open>char b[n]\<close> that holds one is the
  same \<open>string\<close> with the bound \<open>length s < n\<close> (predicate \<open>fits\<close>).  \<open>cstr\<close> is the C string at
  the start of a byte block, \<open>bcopy n\<close> the bounded copy of \<open>strncpy\<close> plus NUL and of
  \<open>snprintf ("%s")\<close> into \<open>char[n]\<close>, \<open>strstr\<close> returns the suffix its result points at, \<open>atoi\<close> is
  the C library's with 32-bit \<open>long\<close> (the camera is a 32-bit ARM uClibc target, where
  \<open>strtol\<close> saturates at the bounds of \<open>int\<close>), and \<open>show_int\<close> is \<open>%d\<close>.
\<close>

named_theorems bound_simps \<open>how long the result of a bounded copy can be\<close>

subsection \<open>Buffers and bounded copies\<close>

definition fits :: "nat \<Rightarrow> string \<Rightarrow> bool" where
  "fits n s \<longleftrightarrow> length s < n \<and> CHR 0x00 \<notin> set s"

definition cstr :: "string \<Rightarrow> string" where
  "cstr s = takeWhile (\<lambda>c. c \<noteq> CHR 0x00) s"

definition bcopy :: "nat \<Rightarrow> string \<Rightarrow> string" where
  "bcopy n s = take (n - 1) s"

lemma length_bcopy [bound_simps]: "0 < n \<Longrightarrow> length (bcopy n s) < n"
  by (simp add: bcopy_def)

lemma bcopy_idem_fits: "fits n s \<Longrightarrow> bcopy n s = s"
  by (auto simp: bcopy_def fits_def)

lemma bcopy_short: "length s < n \<Longrightarrow> bcopy n s = s"
  by (simp add: bcopy_def)

lemma set_bcopy: "set (bcopy n s) \<subseteq> set s"
  by (simp add: bcopy_def set_take_subset)

lemma fits_bcopy [intro]: "0 < n \<Longrightarrow> CHR 0x00 \<notin> set s \<Longrightarrow> fits n (bcopy n s)"
  using set_bcopy [of n s] by (auto simp: fits_def bound_simps)

lemma fits_Nil [simp]: "fits n [] \<longleftrightarrow> 0 < n"
  by (simp add: fits_def)

lemma cstr_no_nul [simp]: "CHR 0x00 \<notin> set (cstr s)"
  by (auto simp: cstr_def dest: set_takeWhileD)

lemma cstr_id: "CHR 0x00 \<notin> set s \<Longrightarrow> cstr s = s"
  by (simp add: cstr_def takeWhile_eq_all_conv) metis

subsection \<open>Character classes and searching\<close>

definition isspace :: "char \<Rightarrow> bool" where
  "isspace c \<longleftrightarrow> c \<in> {CHR '' '', CHR 0x09, CHR 0x0A, CHR 0x0B, CHR 0x0C, CHR 0x0D}"

definition isdigit :: "char \<Rightarrow> bool" where
  "isdigit c \<longleftrightarrow> 48 \<le> (of_char c :: nat) \<and> (of_char c :: nat) \<le> 57"

definition tolower :: "char \<Rightarrow> char" where
  "tolower c = (let n = (of_char c :: nat) in if 65 \<le> n \<and> n \<le> 90 then char_of (n + 32) else c)"

definition strcaseeq :: "string \<Rightarrow> string \<Rightarrow> bool" where
  "strcaseeq a b \<longleftrightarrow> map tolower a = map tolower b"

definition starts_with :: "string \<Rightarrow> string \<Rightarrow> bool" where
  "starts_with p s \<longleftrightarrow> take (length p) s = p"

lemma starts_with_Nil [simp]: "starts_with [] s"
  by (simp add: starts_with_def)

lemma starts_with_append [simp]: "starts_with p (p @ s)"
  by (simp add: starts_with_def)

lemma starts_with_iff: "starts_with p s \<longleftrightarrow> (\<exists>t. s = p @ t)"
  by (metis append_eq_conv_conj append_take_drop_id starts_with_def)

text \<open>The suffix of \<open>h\<close> that starts with the first occurrence of \<open>n\<close>, as \<open>strstr\<close> points at it.\<close>

fun strstr :: "string \<Rightarrow> string \<Rightarrow> string option" where
  "strstr [] n = (if n = [] then Some [] else None)"
| "strstr (c # h) n = (if starts_with n (c # h) then Some (c # h) else strstr h n)"

lemma strstr_SomeD: "strstr h n = Some s \<Longrightarrow> \<exists>pre. h = pre @ s \<and> starts_with n s"
proof (induction h n rule: strstr.induct)
  case (2 c h n)
  then show ?case
    by (cases "starts_with n (c # h)") (force intro: exI [of _ "[]"] exI [of _ "c # _"])+
qed (auto split: if_splits)

lemma strstr_length: "strstr h n = Some s \<Longrightarrow> length s \<le> length h"
  by (auto dest: strstr_SomeD)

lemma strstr_None_iff: "strstr h n = None \<longleftrightarrow> (\<forall>pre post. h \<noteq> pre @ n @ post)"
proof (induction h n rule: strstr.induct)
  case (2 c h n)
  show ?case
  proof (cases "starts_with n (c # h)")
    case True
    then have "\<exists>pre post. c # h = pre @ n @ post"
      by (metis append_Nil starts_with_iff)
    then show ?thesis using True by simp
  next
    case False
    then have "(\<forall>pre post. c # h \<noteq> pre @ n @ post) \<longleftrightarrow> (\<forall>pre post. h \<noteq> pre @ n @ post)"
      by (metis append_Cons append_Nil list.inject neq_Nil_conv starts_with_append)
    then show ?thesis using False "2.IH" by simp
  qed
qed auto

lemma strstr_first:
  "strstr h n = Some p \<Longrightarrow> i < length h - length p \<Longrightarrow> \<not> starts_with n (drop i h)"
proof (induction h n arbitrary: i rule: strstr.induct)
  case (2 c h n)
  show ?case
  proof (cases "starts_with n (c # h)")
    case False
    then have s: "strstr h n = Some p" using "2.prems"(1) by simp
    then have "length p \<le> length h" by (rule strstr_length)
    then show ?thesis using "2.IH" [OF False s, of "i - 1"] "2.prems"(2) False by (cases i) auto
  qed (use "2.prems" in auto)
qed (auto split: if_splits)

lemma strstr_skip:
  "\<forall>i < length x. \<not> starts_with n (drop i (x @ r)) \<Longrightarrow> strstr (x @ r) n = strstr r n"
proof (induction x)
  case (Cons c x)
  then have "\<not> starts_with n (c # x @ r)" by (metis append_Cons drop0 length_greater_0_conv list.discI)
  moreover have "\<forall>i < length x. \<not> starts_with n (drop i (x @ r))"
    using Cons.prems by (metis Suc_less_eq append_Cons drop_Suc_Cons length_Cons)
  ultimately show ?case using Cons.IH by simp
qed simp

lemma strstr_None_starts: "strstr h n = None \<Longrightarrow> \<not> starts_with n (drop i h)"
  unfolding strstr_None_iff starts_with_iff by (metis append_take_drop_id)

text \<open>The text before and after the first \<open>c\<close>: what \<open>strchr\<close> and overwriting it with NUL give.\<close>

definition before :: "char \<Rightarrow> string \<Rightarrow> string" where
  "before c s = takeWhile (\<lambda>x. x \<noteq> c) s"

definition after :: "char \<Rightarrow> string \<Rightarrow> string option" where
  "after c s = (case dropWhile (\<lambda>x. x \<noteq> c) s of [] \<Rightarrow> None | _ # t \<Rightarrow> Some t)"

lemma before_append: "c \<notin> set s \<Longrightarrow> before c (s @ c # t) = s"
  unfolding before_def by (subst takeWhile_append2) auto

lemma after_append: "c \<notin> set s \<Longrightarrow> after c (s @ c # t) = Some t"
  unfolding after_def by (subst dropWhile_append2) auto

lemma before_no: "c \<notin> set s \<Longrightarrow> before c s = s"
  by (simp add: before_def takeWhile_eq_all_conv) metis

lemma before_simps [simp]:
  "before c [] = []"
  "before c (x # s) = (if x = c then [] else x # before c s)"
  by (simp_all add: before_def)

lemma after_simps [simp]:
  "after c [] = None"
  "after c (x # s) = (if x = c then Some s else after c s)"
  by (simp_all add: after_def)

lemma after_None [simp]: "after c s = None \<longleftrightarrow> c \<notin> set s"
  by (induction s) auto

lemma set_before: "set (before c s) \<subseteq> set s"
  by (auto simp: before_def dest: set_takeWhileD)

lemma length_before: "length (before c s) \<le> length s"
  by (simp add: before_def length_takeWhile_le)

lemma set_after: "after c s = Some t \<Longrightarrow> set t \<subseteq> set s"
  using set_dropWhileD [of _ "\<lambda>x. x \<noteq> c" s] by (auto simp: after_def split: list.splits)

text \<open>\<open>fgets\<close> into a buffer of \<open>n\<close> bytes: a line with its newline, or its first \<open>n - 1\<close> characters.\<close>

primrec fgets_loop :: "nat \<Rightarrow> string \<Rightarrow> string \<times> string" where
  "fgets_loop 0 s = ([], s)"
| "fgets_loop (Suc k) s =
     (case s of
        [] \<Rightarrow> ([], [])
      | c # t \<Rightarrow> if c = CHR 0x0A then ([c], t)
                 else let (l, r) = fgets_loop k t in (c # l, r))"

lemma fgets_loop_numeral [simp]:
  "fgets_loop (numeral n) s =
     (case s of
        [] \<Rightarrow> ([], [])
      | c # t \<Rightarrow> if c = CHR 0x0A then ([c], t)
                 else let (l, r) = fgets_loop (pred_numeral n) t in (c # l, r))"
  by (simp add: numeral_eq_Suc)

definition fgets :: "nat \<Rightarrow> string \<Rightarrow> (string \<times> string) option" where
  "fgets n s = (if s = [] then None else Some (fgets_loop (n - 1) s))"

lemma fgets_loop_append: "fgets_loop k s = (l, r) \<Longrightarrow> s = l @ r \<and> length l \<le> k"
  by (induction k arbitrary: s l r) (auto split: list.splits if_splits prod.splits)

lemma fgets_loop_line: "CHR 0x0A \<notin> set l \<Longrightarrow> length l < k \<Longrightarrow> fgets_loop k (l @ CHR 0x0A # r) = (l @ [CHR 0x0A], r)"
proof (induction l arbitrary: k)
  case Nil
  then show ?case by (cases k) auto
next
  case (Cons c l)
  then show ?case by (cases k) auto
qed

lemma fgets_progress: "fgets n s = Some (l, r) \<Longrightarrow> 1 < n \<Longrightarrow> length r < length s"
proof -
  assume a: "fgets n s = Some (l, r)" "1 < n"
  then obtain k c t where "n - 1 = Suc k" "s = c # t"
    by (cases "n - 1"; cases s) (auto simp: fgets_def)
  then show ?thesis
    using a fgets_loop_append [of k t] by (auto simp: fgets_def split: if_splits prod.splits)
qed

subsection \<open>Decimal numbers\<close>

definition digit_val :: "char \<Rightarrow> int" where
  "digit_val c = int (of_char c :: nat) - 48"

fun dec_acc :: "int \<Rightarrow> string \<Rightarrow> int" where
  "dec_acc a [] = a"
| "dec_acc a (c # cs) = (if isdigit c then dec_acc (a * 10 + digit_val c) cs else a)"

definition int_min :: int where "int_min = - (2 ^ 31)"
definition int_max :: int where "int_max = 2 ^ 31 - 1"

definition clamp :: "int \<Rightarrow> int" where
  "clamp v = max int_min (min int_max v)"

definition atoi :: "string \<Rightarrow> int" where
  "atoi s = (let t = dropWhile isspace s in
     case t of
       [] \<Rightarrow> 0
     | c # cs \<Rightarrow>
         if c = CHR ''-'' then clamp (- dec_acc 0 cs)
         else if c = CHR ''+'' then clamp (dec_acc 0 cs)
         else clamp (dec_acc 0 t))"

fun show_nat :: "nat \<Rightarrow> string" where
  "show_nat n = (if n < 10 then [char_of (48 + n)]
                 else show_nat (n div 10) @ [char_of (48 + n mod 10)])"

declare show_nat.simps [simp del]

lemma digit_chars [simp]:
  "char_of (48 :: nat) = CHR ''0''" "char_of (49 :: nat) = CHR ''1''" "char_of (50 :: nat) = CHR ''2''"
  "char_of (51 :: nat) = CHR ''3''" "char_of (52 :: nat) = CHR ''4''" "char_of (53 :: nat) = CHR ''5''"
  "char_of (54 :: nat) = CHR ''6''" "char_of (55 :: nat) = CHR ''7''" "char_of (56 :: nat) = CHR ''8''"
  "char_of (57 :: nat) = CHR ''9''"
  by (simp_all add: char_of_def bit_Suc_0_iff)

definition show_int :: "int \<Rightarrow> string" where
  "show_int i = (if i < 0 then CHR ''-'' # show_nat (nat (- i)) else show_nat (nat i))"

lemma of_char_digit: "n < 10 \<Longrightarrow> (of_char (char_of (48 + n :: nat) :: char) :: nat) = 48 + n"
  by (simp add: of_char_of)

lemma isdigit_char_of [simp]: "n < 10 \<Longrightarrow> isdigit (char_of (48 + n :: nat))"
  by (simp add: isdigit_def of_char_digit)

lemma digit_val_char_of [simp]: "n < 10 \<Longrightarrow> digit_val (char_of (48 + n :: nat)) = int n"
  by (simp add: digit_val_def of_char_digit)

lemma dec_acc_append:
  "(\<forall>c \<in> set s. isdigit c) \<Longrightarrow> dec_acc a (s @ t) = dec_acc (dec_acc a s) t"
  by (induction s arbitrary: a) auto

lemma show_nat_digits: "c \<in> set (show_nat n) \<Longrightarrow> isdigit c"
proof (induction n rule: show_nat.induct)
  case (1 n)
  then show ?case
    by (subst (asm) (2) show_nat.simps) (auto split: if_splits)
qed

lemma show_nat_not_Nil [simp]: "show_nat n \<noteq> []"
  by (subst show_nat.simps) simp

lemma dec_acc_show_nat: "dec_acc 0 (show_nat n) = int n"
proof (induction n rule: show_nat.induct)
  case (1 n)
  show ?case
  proof (cases "n < 10")
    case True
    then show ?thesis by (subst show_nat.simps) simp
  next
    case False
    then have "dec_acc 0 (show_nat n) = int (n div 10) * 10 + int (n mod 10)"
      using "1.IH" by (subst show_nat.simps) (simp add: dec_acc_append show_nat_digits)
    then show ?thesis by (simp add: zdiv_int zmod_int)
  qed
qed

lemma isdigit_not_special:
  "isdigit c \<Longrightarrow> \<not> isspace c \<and> c \<noteq> CHR ''-'' \<and> c \<noteq> CHR ''+'' \<and> c \<noteq> CHR ''#'' \<and> c \<noteq> CHR ''=''
     \<and> c \<noteq> CHR 0x00 \<and> c \<noteq> CHR 0x0A \<and> c \<noteq> CHR 0x0D \<and> c \<noteq> CHR ''.''"
  by (auto simp: isdigit_def isspace_def)

lemma atoi_show_nat: "int n \<le> int_max \<Longrightarrow> atoi (show_nat n) = int n"
proof -
  assume le: "int n \<le> int_max"
  obtain c cs where s: "show_nat n = c # cs"
    using show_nat_not_Nil by (cases "show_nat n") auto
  then have "isdigit c" using show_nat_digits [of c n] by simp
  then show ?thesis
    using s le dec_acc_show_nat [of n] isdigit_not_special [of c]
    by (simp add: atoi_def Let_def clamp_def int_min_def int_max_def)
qed

theorem atoi_show_int:
  assumes "int_min \<le> i" "i \<le> int_max"
  shows "atoi (show_int i) = i"
proof (cases "i < 0")
  case True
  then show ?thesis
    using assms by (simp add: show_int_def atoi_def Let_def isspace_def dec_acc_show_nat clamp_def
        int_min_def int_max_def)
next
  case False
  then show ?thesis using assms by (simp add: show_int_def atoi_show_nat)
qed

lemma show_int_chars: "c \<in> set (show_int i) \<Longrightarrow> isdigit c \<or> c = CHR ''-''"
  by (auto simp: show_int_def show_nat_digits split: if_splits)

lemma show_int_clean:
  "c \<in> set (show_int i) \<Longrightarrow> \<not> isspace c \<and> c \<noteq> CHR ''#'' \<and> c \<noteq> CHR 0x00 \<and> c \<noteq> CHR 0x0A \<and> c \<noteq> CHR 0x0D"
  using show_int_chars [of c i] isdigit_not_special [of c] by (auto simp: isspace_def)

lemma show_int_not_Nil [simp]: "show_int i \<noteq> []"
  by (simp add: show_int_def)

lemma atoi_Nil [simp]: "atoi [] = 0"
  by (simp add: atoi_def)

lemma atoi_bounds: "int_min \<le> atoi s \<and> atoi s \<le> int_max"
  by (simp add: atoi_def Let_def clamp_def int_min_def int_max_def split: list.splits)

lemma length_show_nat_le: "n < 10 ^ k \<Longrightarrow> 0 < k \<Longrightarrow> length (show_nat n) \<le> k"
proof (induction n arbitrary: k rule: show_nat.induct)
  case (1 n)
  show ?case
  proof (cases "n < 10")
    case True
    then show ?thesis using "1.prems" by (subst show_nat.simps) simp
  next
    case False
    then have "k \<noteq> Suc 0" using "1.prems" by auto
    then obtain k' where k: "k = Suc k'" "0 < k'"
      using "1.prems" by (cases k) auto
    then have "n div 10 < 10 ^ k'" using "1.prems" by (simp add: less_mult_imp_div_less mult.commute)
    then show ?thesis using "1.IH" False k by (subst show_nat.simps) simp
  qed
qed

subsection \<open>Texts that are read back\<close>

text \<open>
  The contract of a printer and the parser that reads its texts: a text is taken whole, and nothing of
  what follows, when that does not continue it.
\<close>

locale codec =
  fixes print_text :: "'a \<Rightarrow> 't list"
    and parse :: "'t list \<Rightarrow> ('a \<times> 't list) option"
    and ok :: "'a \<Rightarrow> bool"
    and ends :: "'t list \<Rightarrow> bool"
  assumes reads: "ok x \<Longrightarrow> ends r \<Longrightarrow> parse (print_text x @ r) = Some (x, r)"
begin

lemma injective:
  assumes "ok x" "ok y" "ends r" "ends r'" "print_text x @ r = print_text y @ r'"
  shows "x = y \<and> r = r'"
  using reads [OF assms(1,3)] unfolding assms(5) reads [OF assms(2,4)] by simp

lemma reads_all: "ok x \<Longrightarrow> ends [] \<Longrightarrow> parse (print_text x) = Some (x, [])"
  using reads [of x "[]"] by simp

end

end
