(* ===== verification/Timing.thy ===== *)
theory Timing
  imports Complex_Main Prelude
begin

text \<open>
  The two instrumentation modules of the daemon: \<open>boot_timing.c\<close> (milestones of one boot, in
  seconds of kernel uptime, \<open>0\<close> meaning not reached) and \<open>stream_timing.c\<close> (milestones of the
  current viewer session, as \<open>CLOCK_MONOTONIC\<close> timespecs).  Each is a record of the file's static
  variables and one function per operation.  What the code reads from \<open>/proc/uptime\<close>,
  \<open>/tmp/boot_t0\<close> and the clock is an argument.  The JSON text of the summaries is an argument of
  the publishing functions: its \<open>%.3f\<close> and \<open>%.6f\<close> fields are C \<open>double\<close>s.
\<close>

subsection \<open>boot\_timing.c\<close>

datatype bt_milestone = BT_AP2P_MAIN | BT_CONFIG_LOADED | BT_MQTT_CONNECTING | BT_MQTT_CONNECTED
  | BT_SUBSCRIBED | BT_CASE81_RX | BT_STATE_READY | BT_SRT_STARTED | BT_EDGE_SRFLX
  | BT_CTRL_REGISTERED

record boot_timing =
  bt_marks :: "bt_milestone \<Rightarrow> rat"
  g_ambicam_t0 :: rat
  bt_published :: bool

definition bt_init :: boot_timing where
  "bt_init = \<lparr>bt_marks = (\<lambda>_. 0), g_ambicam_t0 = -1, bt_published = False\<rparr>"

text \<open>The launcher's start time, read once: \<open>None\<close> is a file that is missing or does not parse.\<close>

definition load_ambicam_t0 :: "rat option \<Rightarrow> boot_timing \<Rightarrow> boot_timing" where
  "load_ambicam_t0 boot_t0 b =
     (if g_ambicam_t0 b \<ge> 0 then b
      else b\<lparr>g_ambicam_t0 := (case boot_t0 of None \<Rightarrow> 0 | Some v \<Rightarrow> v)\<rparr>)"

definition bt_mark :: "rat option \<Rightarrow> rat \<Rightarrow> bt_milestone \<Rightarrow> boot_timing \<Rightarrow> boot_timing" where
  "bt_mark boot_t0 uptime m b =
     (let b' = load_ambicam_t0 boot_t0 b in
      if bt_marks b' m = 0 then b'\<lparr>bt_marks := (bt_marks b')(m := uptime)\<rparr> else b')"

text \<open>What a publish hands to the MQTT library.\<close>

record mqtt_message =
  msg_topic :: string
  msg_payload :: string
  msg_qos :: nat
  msg_retained :: bool

text \<open>
  \<open>bt_publish_summary\<close>: the one-shot guard is set before anything that can fail, so a call without
  a client or a node id uses the one shot up.
\<close>

definition bt_publish_summary ::
    "string \<Rightarrow> bool \<Rightarrow> string \<Rightarrow> boot_timing \<Rightarrow> mqtt_message option \<times> boot_timing" where
  "bt_publish_summary json have_client node_id b =
     (if bt_published b then (None, b)
      else let b' = b\<lparr>bt_published := True\<rparr> in
        if \<not> have_client \<or> node_id = [] \<or> json = [] then (None, b')
        else (Some \<lparr>msg_topic = bcopy 160 (''torque/tx/'' @ node_id @ ''/boot''),
                    msg_payload = json, msg_qos = 1, msg_retained = True\<rparr>, b'))"

lemma load_ambicam_t0_frame [simp]:
  "bt_marks (load_ambicam_t0 t b) = bt_marks b"
  "bt_published (load_ambicam_t0 t b) = bt_published b"
  by (simp_all add: load_ambicam_t0_def)

lemma bt_mark_marks:
  "bt_marks (bt_mark t u m b) k = (if k = m \<and> bt_marks b m = 0 then u else bt_marks b k)"
  by (simp add: bt_mark_def Let_def)

text \<open>A run of marks from several call sites: each is the launcher file, the uptime and a milestone.\<close>

definition bt_run :: "(rat option \<times> rat \<times> bt_milestone) list \<Rightarrow> boot_timing \<Rightarrow> boot_timing" where
  "bt_run ms b = fold (\<lambda>(t, u, m). bt_mark t u m) ms b"

fun first_uptime :: "(rat option \<times> rat \<times> bt_milestone) list \<Rightarrow> bt_milestone \<Rightarrow> rat" where
  "first_uptime [] k = 0"
| "first_uptime ((t, u, m) # ms) k = (if m = k \<and> u \<noteq> 0 then u else first_uptime ms k)"

lemma bt_run_marks:
  "bt_marks (bt_run ms b) k = (if bt_marks b k \<noteq> 0 then bt_marks b k else first_uptime ms k)"
proof (induction ms arbitrary: b)
  case Nil
  then show ?case by (simp add: bt_run_def)
next
  case (Cons x ms)
  obtain t u m where x: "x = (t, u, m)" by (cases x) auto
  have "bt_run (x # ms) b = bt_run ms (bt_mark t u m b)"
    by (simp add: bt_run_def x)
  then show ?case
    by (auto simp: Cons.IH x bt_mark_marks)
qed

subsection \<open>stream\_timing.c\<close>

datatype st_milestone = ST_PEER_REQUESTED | ST_SRT_HANDSHAKE_BEGIN | ST_SRT_HANDSHAKE_DONE
  | ST_HTTP_GET_OPEN | ST_HTTP_FIRST_BYTE | ST_FIRST_FLV_PUSHED

type_synonym timespec = "nat \<times> nat"

record stream_timing =
  st_marks :: "st_milestone \<Rightarrow> timespec"
  g_peer_id :: string
  g_active :: bool
  st_published :: bool
  g_session_id :: nat

definition st_init :: stream_timing where
  "st_init = \<lparr>st_marks = (\<lambda>_. (0, 0)), g_peer_id = [], g_active = False, st_published = False,
              g_session_id = 0\<rparr>"

text \<open>\<open>unsigned\<close> session counter: wraps at \<open>2\<^sup>32\<close>.  A NULL peer is \<open>None\<close>.\<close>

definition st_session_begin :: "string option \<Rightarrow> timespec \<Rightarrow> stream_timing \<Rightarrow> stream_timing" where
  "st_session_begin peer now s =
     s\<lparr>st_marks := (\<lambda>_. (0, 0))(ST_PEER_REQUESTED := now), g_active := True, st_published := False,
       g_session_id := (g_session_id s + 1) mod 2 ^ 32,
       g_peer_id := (case peer of Some p \<Rightarrow> bcopy 64 p | None \<Rightarrow> [])\<rparr>"

definition st_mark :: "timespec \<Rightarrow> st_milestone \<Rightarrow> stream_timing \<Rightarrow> stream_timing" where
  "st_mark now m s =
     (if g_active s \<and> fst (st_marks s m) = 0 \<and> snd (st_marks s m) = 0
      then s\<lparr>st_marks := (st_marks s)(m := now)\<rparr> else s)"

definition st_publish_summary ::
    "string \<Rightarrow> bool \<Rightarrow> string \<Rightarrow> stream_timing \<Rightarrow> mqtt_message option \<times> stream_timing" where
  "st_publish_summary json have_client node_id s =
     (if \<not> g_active s \<or> st_published s then (None, s)
      else let s' = s\<lparr>st_published := True\<rparr> in
        if \<not> have_client \<or> node_id = [] \<or> json = [] then (None, s')
        else (Some \<lparr>msg_topic = bcopy 160 (''torque/tx/'' @ node_id @ ''/stream''),
                    msg_payload = json, msg_qos = 1, msg_retained = True\<rparr>, s'))"

datatype st_call = Begin "string option" timespec | Mark timespec st_milestone
  | Publish string bool string

fun st_exec :: "st_call \<Rightarrow> stream_timing \<Rightarrow> mqtt_message list \<times> stream_timing" where
  "st_exec (Begin p t) s = ([], st_session_begin p t s)"
| "st_exec (Mark t m) s = ([], st_mark t m s)"
| "st_exec (Publish j c n) s =
     (case st_publish_summary j c n s of (None, s') \<Rightarrow> ([], s') | (Some m, s') \<Rightarrow> ([m], s'))"

fun st_calls :: "st_call list \<Rightarrow> stream_timing \<Rightarrow> mqtt_message list \<times> stream_timing" where
  "st_calls [] s = ([], s)"
| "st_calls (c # cs) s =
     (let (m, s1) = st_exec c s; (ms, s2) = st_calls cs s1 in (m @ ms, s2))"

definition begins :: "st_call list \<Rightarrow> nat" where
  "begins cs = length (filter (\<lambda>c. case c of Begin _ _ \<Rightarrow> True | _ \<Rightarrow> False) cs)"

lemma begins_simps [simp]:
  "begins [] = 0" "begins (Begin p t # cs) = Suc (begins cs)" "begins (Mark t m # cs) = begins cs"
  "begins (Publish j c n # cs) = begins cs"
  by (simp_all add: begins_def)

text \<open>
  At most one summary per session: what can still be published is one for every session to come and
  one more if the current session is active and unpublished.
\<close>

lemma st_calls_bound:
  "length (fst (st_calls cs s)) \<le> begins cs + (if g_active s \<and> \<not> st_published s then 1 else 0)"
proof (induction cs arbitrary: s)
  case (Cons c cs)
  show ?case
  proof (cases c)
    case (Begin p t)
    then show ?thesis using Cons.IH [of "st_session_begin p t s"]
      by (simp add: st_session_begin_def split_def)
  next
    case (Mark t m)
    then show ?thesis using Cons.IH [of "st_mark t m s"]
      by (auto simp: st_mark_def split_def split: if_splits)
  next
    case (Publish j c' n)
    then show ?thesis using Cons.IH [of "snd (st_publish_summary j c' n s)"]
      by (auto simp: st_publish_summary_def Let_def split_def split: if_splits)
  qed
qed simp

subsection \<open>Properties\<close>

text \<open>A run of boot-summary requests, each with the JSON text, whether there is a client, and the node id.\<close>

fun bt_publish_all :: "(string \<times> bool \<times> string) list \<Rightarrow> boot_timing \<Rightarrow> mqtt_message list" where
  "bt_publish_all [] b = []"
| "bt_publish_all ((j, c, n) # cs) b =
     (case bt_publish_summary j c n b of
        (None, b') \<Rightarrow> bt_publish_all cs b'
      | (Some m, b') \<Rightarrow> m # bt_publish_all cs b')"

lemma bt_publish_all_done: "bt_published b \<Longrightarrow> bt_publish_all cs b = []"
  by (induction cs) (auto simp: bt_publish_summary_def)

text \<open>
  Every boot milestone keeps the uptime of the first call that marked it, whatever the other marks
  and however often it is marked again.
\<close>

theorem boot_marks_first_wins:
  "bt_marks (bt_run ms bt_init) k = first_uptime ms k"
  by (simp add: bt_run_marks bt_init_def)

text \<open>
  Publishing is bounded: the boot summary goes out at most once per process, and only on the first
  request; and whatever the calls, at most one stream summary goes out per session begun.
\<close>

theorem summaries_published_once:
  "length (bt_publish_all reqs bt_init) \<le> 1
    \<and> (bt_publish_all reqs bt_init = (case reqs of [] \<Rightarrow> [] | r # _ \<Rightarrow> bt_publish_all [r] bt_init))
    \<and> length (fst (st_calls cs st_init)) \<le> begins cs"
proof -
  have "bt_publish_all reqs bt_init = (case reqs of [] \<Rightarrow> [] | r # _ \<Rightarrow> bt_publish_all [r] bt_init)"
  proof (cases reqs)
    case (Cons r rs)
    obtain j c n where r: "r = (j, c, n)" by (cases r) auto
    have "bt_published (snd (bt_publish_summary j c n bt_init))"
      by (simp add: bt_publish_summary_def bt_init_def Let_def)
    then show ?thesis using Cons r by (auto simp: bt_publish_all_done split: prod.split option.split)
  qed simp
  moreover have "length (bt_publish_all [r] bt_init) \<le> 1" for r
    by (cases r) (auto split: prod.split option.split)
  moreover have "length (fst (st_calls cs st_init)) \<le> begins cs"
    using st_calls_bound [of cs st_init] by (simp add: st_init_def)
  ultimately show ?thesis by (simp split: list.split)
qed

end
