(* ===== verification/Config.thy ===== *)
theory Config
  imports Timing
begin

text \<open>
  The shared state of the daemon (\<open>state.h\<close>, \<open>state.c\<close>) and the runtime-configuration parser that
  fills it (\<open>config.c\<close>).  \<open>ap2p_state\<close> is the C struct without its mutex and condition variable;
  every operation below runs under that mutex, so one operation is one atomic step.  The table
  \<open>kFields\<close> maps a key to a field; a field's offset and size are \<open>get_field\<close>, \<open>put_field\<close> and
  \<open>str_size\<close>.
\<close>

subsection \<open>The state record\<close>

record ap2p_state =
  shutdown_flag :: bool
  state_ready :: bool
  srt_reload_pending :: bool
  node_id :: string
  bootstrap_mqtt_url :: string
  bootstrap_mqtt_url_bkp :: string
  bootstrap_mqtt_user :: string
  bootstrap_mqtt_pass :: string
  ctrl_host :: string
  ctrl_port :: int
  ctrl_scheme :: string
  ctrl_token :: string
  edge_host :: string
  edge_port :: int
  relay_host :: string
  relay_port :: int
  relay_user :: string
  relay_pass :: string
  src_host :: string
  src_port :: int
  src_path :: string
  src_auth :: string
  latency_ms :: int
  verbose :: int

definition ap2p_state_init :: ap2p_state where
  "ap2p_state_init = \<lparr>shutdown_flag = False, state_ready = False, srt_reload_pending = False,
     node_id = [], bootstrap_mqtt_url = [], bootstrap_mqtt_url_bkp = [], bootstrap_mqtt_user = [],
     bootstrap_mqtt_pass = [], ctrl_host = [], ctrl_port = 80, ctrl_scheme = [], ctrl_token = [],
     edge_host = [], edge_port = 0, relay_host = [], relay_port = 0, relay_user = [],
     relay_pass = [], src_host = [], src_port = 80, src_path = [], src_auth = [],
     latency_ms = 300, verbose = 0\<rparr>"

definition ap2p_consume_srt_reload :: "ap2p_state \<Rightarrow> bool \<times> ap2p_state" where
  "ap2p_consume_srt_reload st =
     (if srt_reload_pending st then (True, st\<lparr>srt_reload_pending := False\<rparr>) else (False, st))"

subsection \<open>The field table\<close>

datatype str_field = F_node_id | F_ctrl_host | F_ctrl_scheme | F_ctrl_token | F_edge_host
  | F_relay_host | F_relay_user | F_relay_pass | F_src_host | F_src_path | F_src_auth

datatype int_field = F_ctrl_port | F_edge_port | F_relay_port | F_src_port | F_latency_ms
  | F_verbose

datatype conf_field = F_STR str_field | F_INT int_field

definition kFields :: "(string \<times> conf_field) list" where
  "kFields = [
    (''NODE_ID'', F_STR F_node_id),
    (''CTRL_HOST'', F_STR F_ctrl_host),
    (''CTRL_PORT'', F_INT F_ctrl_port),
    (''CTRL_SCHEME'', F_STR F_ctrl_scheme),
    (''CTRL_TOKEN'', F_STR F_ctrl_token),
    (''EDGE_HOST'', F_STR F_edge_host),
    (''EDGE_PORT'', F_INT F_edge_port),
    (''RELAY_HOST'', F_STR F_relay_host),
    (''RELAY_PORT'', F_INT F_relay_port),
    (''RELAY_USER'', F_STR F_relay_user),
    (''RELAY_PASS'', F_STR F_relay_pass),
    (''SRC_HOST'', F_STR F_src_host),
    (''SRC_PORT'', F_INT F_src_port),
    (''SRC_PATH'', F_STR F_src_path),
    (''SRC_AUTH'', F_STR F_src_auth),
    (''LATENCY_MS'', F_INT F_latency_ms),
    (''VERBOSE'', F_INT F_verbose)]"

fun str_size :: "str_field \<Rightarrow> nat" where
  "str_size F_node_id = 64"
| "str_size F_ctrl_host = 128"
| "str_size F_ctrl_scheme = 8"
| "str_size F_ctrl_token = 128"
| "str_size F_edge_host = 128"
| "str_size F_relay_host = 128"
| "str_size F_relay_user = 64"
| "str_size F_relay_pass = 64"
| "str_size F_src_host = 64"
| "str_size F_src_path = 256"
| "str_size F_src_auth = 128"

fun get_str :: "str_field \<Rightarrow> ap2p_state \<Rightarrow> string" where
  "get_str F_node_id st = node_id st"
| "get_str F_ctrl_host st = ctrl_host st"
| "get_str F_ctrl_scheme st = ctrl_scheme st"
| "get_str F_ctrl_token st = ctrl_token st"
| "get_str F_edge_host st = edge_host st"
| "get_str F_relay_host st = relay_host st"
| "get_str F_relay_user st = relay_user st"
| "get_str F_relay_pass st = relay_pass st"
| "get_str F_src_host st = src_host st"
| "get_str F_src_path st = src_path st"
| "get_str F_src_auth st = src_auth st"

fun put_str :: "str_field \<Rightarrow> string \<Rightarrow> ap2p_state \<Rightarrow> ap2p_state" where
  "put_str F_node_id v st = st\<lparr>node_id := v\<rparr>"
| "put_str F_ctrl_host v st = st\<lparr>ctrl_host := v\<rparr>"
| "put_str F_ctrl_scheme v st = st\<lparr>ctrl_scheme := v\<rparr>"
| "put_str F_ctrl_token v st = st\<lparr>ctrl_token := v\<rparr>"
| "put_str F_edge_host v st = st\<lparr>edge_host := v\<rparr>"
| "put_str F_relay_host v st = st\<lparr>relay_host := v\<rparr>"
| "put_str F_relay_user v st = st\<lparr>relay_user := v\<rparr>"
| "put_str F_relay_pass v st = st\<lparr>relay_pass := v\<rparr>"
| "put_str F_src_host v st = st\<lparr>src_host := v\<rparr>"
| "put_str F_src_path v st = st\<lparr>src_path := v\<rparr>"
| "put_str F_src_auth v st = st\<lparr>src_auth := v\<rparr>"

fun get_int :: "int_field \<Rightarrow> ap2p_state \<Rightarrow> int" where
  "get_int F_ctrl_port st = ctrl_port st"
| "get_int F_edge_port st = edge_port st"
| "get_int F_relay_port st = relay_port st"
| "get_int F_src_port st = src_port st"
| "get_int F_latency_ms st = latency_ms st"
| "get_int F_verbose st = verbose st"

fun put_int :: "int_field \<Rightarrow> int \<Rightarrow> ap2p_state \<Rightarrow> ap2p_state" where
  "put_int F_ctrl_port v st = st\<lparr>ctrl_port := v\<rparr>"
| "put_int F_edge_port v st = st\<lparr>edge_port := v\<rparr>"
| "put_int F_relay_port v st = st\<lparr>relay_port := v\<rparr>"
| "put_int F_src_port v st = st\<lparr>src_port := v\<rparr>"
| "put_int F_latency_ms v st = st\<lparr>latency_ms := v\<rparr>"
| "put_int F_verbose v st = st\<lparr>verbose := v\<rparr>"

datatype conf_val = VStr string | VInt int

fun get_field :: "conf_field \<Rightarrow> ap2p_state \<Rightarrow> conf_val" where
  "get_field (F_STR f) st = VStr (get_str f st)"
| "get_field (F_INT f) st = VInt (get_int f st)"

fun put_field :: "conf_field \<Rightarrow> conf_val \<Rightarrow> ap2p_state \<Rightarrow> ap2p_state" where
  "put_field (F_STR f) (VStr v) st = put_str f v st"
| "put_field (F_INT f) (VInt v) st = put_int f v st"
| "put_field _ _ st = st"

fun typed :: "conf_field \<Rightarrow> conf_val \<Rightarrow> bool" where
  "typed (F_STR f) (VStr v) = True"
| "typed (F_INT f) (VInt v) = True"
| "typed _ _ = False"

subsection \<open>The parser\<close>

definition trim :: "string \<Rightarrow> string" where
  "trim s = (let t = dropWhile isspace (before (CHR ''#'') s)
             in rev (dropWhile isspace (rev t)))"

text \<open>What \<open>apply_field\<close> stores: \<open>strncpy\<close> to the field's size, or \<open>atoi\<close>.\<close>

fun field_value :: "conf_field \<Rightarrow> string \<Rightarrow> conf_val" where
  "field_value (F_STR f) v = VStr (bcopy (str_size f) v)"
| "field_value (F_INT f) v = VInt (atoi v)"

definition apply_field :: "ap2p_state \<Rightarrow> conf_field \<Rightarrow> string \<Rightarrow> ap2p_state" where
  "apply_field st f v = put_field f (field_value f v) st"

text \<open>One line: \<open>key = value\<close> after the comment is cut, or nothing.\<close>

definition parse_line :: "string \<Rightarrow> (string \<times> string) option" where
  "parse_line line =
     (let p = trim line in
      if p = [] then None
      else case after (CHR ''='') p of
        None \<Rightarrow> None
      | Some v \<Rightarrow> Some (trim (before (CHR ''='') p), trim v))"

text \<open>The line is copied to \<open>char line[1024]\<close>, so it is cut at 1023 bytes and at a NUL.\<close>

definition apply_line :: "ap2p_state \<Rightarrow> string \<Rightarrow> ap2p_state" where
  "apply_line st raw =
     (case parse_line (cstr (take 1023 raw)) of
        None \<Rightarrow> st
      | Some (key, val) \<Rightarrow>
          (case map_of kFields key of
             None \<Rightarrow> st
           | Some f \<Rightarrow> apply_field st f val))"

definition is_eol :: "char \<Rightarrow> bool" where
  "is_eol c \<longleftrightarrow> c = CHR 0x0A \<or> c = CHR 0x0D"

function conf_loop :: "ap2p_state \<Rightarrow> string \<Rightarrow> ap2p_state" where
  "conf_loop st p =
     (if p = [] then st
      else conf_loop (apply_line st (takeWhile (\<lambda>c. \<not> is_eol c) p))
             (dropWhile is_eol (dropWhile (\<lambda>c. \<not> is_eol c) p)))"
  by pat_completeness auto

lemma length_next_line:
  "p \<noteq> [] \<Longrightarrow> length (dropWhile is_eol (dropWhile (\<lambda>c. \<not> is_eol c) p)) < length p"
proof -
  assume p: "p \<noteq> []"
  let ?q = "dropWhile (\<lambda>c. \<not> is_eol c) p"
  have le: "length ?q \<le> length p" "length (dropWhile is_eol ?q) \<le> length ?q"
    by (simp_all add: length_dropWhile_le)
  show ?thesis
  proof (cases ?q)
    case Nil
    then have "length (dropWhile is_eol ?q) = 0" by (metis dropWhile.simps(1) list.size(3))
    then show ?thesis using p by (metis length_greater_0_conv)
  next
    case (Cons c cs)
    then have "is_eol c"
      by (metis (mono_tags, lifting) dropWhile_eq_Cons_conv)
    then have "length (dropWhile is_eol ?q) < length ?q"
      using Cons length_dropWhile_le [of is_eol cs] by simp
    then show ?thesis using le by simp
  qed
qed

termination conf_loop
  by (relation "measure (\<lambda>(st, p). length p)") (auto simp: length_next_line)

declare conf_loop.simps [simp del]

text \<open>
  \<open>apply_ap2p_conf_payload\<close>: the return code, the new state and the boot milestones it marks.  The
  payload is the byte block with its length; an empty one is refused before anything is touched.
\<close>

definition apply_ap2p_conf_payload ::
    "ap2p_state \<Rightarrow> string \<Rightarrow> int \<times> ap2p_state \<times> bt_milestone list" where
  "apply_ap2p_conf_payload st payload =
     (if payload = [] then (-1, st, [])
      else let st1 = conf_loop st payload in
        if ctrl_host st1 = [] then (-1, st1, [BT_CASE81_RX])
        else let was_first = (\<not> state_ready st1);
                 st2 = st1\<lparr>state_ready := True\<rparr>;
                 st3 = (if was_first then st2 else st2\<lparr>srt_reload_pending := True\<rparr>)
             in (0, st3, if was_first then [BT_CASE81_RX, BT_STATE_READY] else [BT_CASE81_RX]))"

subsection \<open>The field store as an interface\<close>

text \<open>
  What the parser needs of the struct: a written field reads back, the others stay.  The lemma is
  the reason a later line overrides an earlier one for the same key and nothing else.
\<close>

locale field_store =
  fixes get :: "'f \<Rightarrow> 's \<Rightarrow> 'v"
    and put :: "'f \<Rightarrow> 'v \<Rightarrow> 's \<Rightarrow> 's"
    and ok :: "'f \<Rightarrow> 'v \<Rightarrow> bool"
  assumes get_put: "ok f v \<Longrightarrow> get g (put f v s) = (if g = f then v else get g s)"
begin

lemma get_fold_put:
  assumes "\<forall>(f, v) \<in> set ws. ok f v"
  shows "get g (fold (\<lambda>(f, v). put f v) ws s)
         = (case map_of (rev ws) g of None \<Rightarrow> get g s | Some v \<Rightarrow> v)"
  using assms
proof (induction ws arbitrary: s rule: rev_induct)
  case (snoc w ws)
  then show ?case by (cases w) (auto simp: get_put)
qed simp

lemma fold_put_untouched:
  assumes "\<forall>(f, v) \<in> set ws. ok f v" "g \<notin> fst ` set ws"
  shows "get g (fold (\<lambda>(f, v). put f v) ws s) = get g s"
proof -
  have "map_of (rev ws) g = None"
    using assms(2) by (simp add: map_of_eq_None_iff)
  then show ?thesis using get_fold_put [OF assms(1)] by simp
qed

end

lemma get_str_put_str: "get_str g (put_str f v s) = (if g = f then v else get_str g s)"
  by (cases f; cases g; simp)

lemma get_int_put_int: "get_int g (put_int f v s) = (if g = f then v else get_int g s)"
  by (cases f; cases g; simp)

lemma get_str_put_int [simp]: "get_str g (put_int f v s) = get_str g s"
  by (cases f; cases g; simp)

lemma get_int_put_str [simp]: "get_int g (put_str f v s) = get_int g s"
  by (cases f; cases g; simp)

interpretation conf: field_store get_field put_field typed
proof unfold_locales
  fix f g :: conf_field and v s
  assume "typed f v"
  then show "get_field g (put_field f v s) = (if g = f then v else get_field g s)"
    by (cases f; cases v; cases g) (auto simp: get_str_put_str get_int_put_int)
qed

lemma typed_field_value [simp]: "typed f (field_value f v)"
  by (cases f) auto

text \<open>The lines of a payload, and the field writes they amount to.\<close>

function payload_lines :: "string \<Rightarrow> string list" where
  "payload_lines p =
     (if p = [] then []
      else takeWhile (\<lambda>c. \<not> is_eol c) p
             # payload_lines (dropWhile is_eol (dropWhile (\<lambda>c. \<not> is_eol c) p)))"
  by pat_completeness auto

termination payload_lines
  by (relation "measure length") (auto simp: length_next_line)

declare payload_lines.simps [simp del]

definition line_write :: "string \<Rightarrow> (conf_field \<times> conf_val) option" where
  "line_write raw =
     (case parse_line (cstr (take 1023 raw)) of
        None \<Rightarrow> None
      | Some (key, val) \<Rightarrow> map_option (\<lambda>f. (f, field_value f val)) (map_of kFields key))"

definition payload_writes :: "string \<Rightarrow> (conf_field \<times> conf_val) list" where
  "payload_writes p = List.map_filter line_write (payload_lines p)"

lemma apply_line_write:
  "apply_line st raw = (case line_write raw of None \<Rightarrow> st | Some (f, v) \<Rightarrow> put_field f v st)"
  by (simp add: apply_line_def line_write_def apply_field_def split: option.split)

lemma conf_loop_lines: "conf_loop st p = fold (\<lambda>raw st. apply_line st raw) (payload_lines p) st"
proof (induction st p rule: conf_loop.induct)
  case (1 st p)
  then show ?case
    by (subst conf_loop.simps, subst payload_lines.simps) simp
qed

lemma fold_apply_line:
  "fold (\<lambda>raw st. apply_line st raw) ls st
   = fold (\<lambda>(f, v). put_field f v) (List.map_filter line_write ls) st"
  by (induction ls arbitrary: st) (auto simp: apply_line_write List.map_filter_simps split: option.splits)

lemma conf_loop_writes: "conf_loop st p = fold (\<lambda>(f, v). put_field f v) (payload_writes p) st"
  by (simp add: conf_loop_lines fold_apply_line payload_writes_def)

lemma payload_writes_typed: "\<forall>(f, v) \<in> set (payload_writes p). typed f v"
  by (auto simp: payload_writes_def List.map_filter_def line_write_def split: option.splits)

lemma get_field_conf_loop:
  "get_field f (conf_loop st p)
   = (case map_of (rev (payload_writes p)) f of None \<Rightarrow> get_field f st | Some v \<Rightarrow> v)"
  unfolding conf_loop_writes by (rule conf.get_fold_put [OF payload_writes_typed])

subsection \<open>Bounds: no field outgrows its buffer\<close>

definition all_str_fields :: "str_field list" where
  "all_str_fields = [F_node_id, F_ctrl_host, F_ctrl_scheme, F_ctrl_token, F_edge_host, F_relay_host,
     F_relay_user, F_relay_pass, F_src_host, F_src_path, F_src_auth]"

definition all_int_fields :: "int_field list" where
  "all_int_fields = [F_ctrl_port, F_edge_port, F_relay_port, F_src_port, F_latency_ms, F_verbose]"

lemma set_all_str_fields [simp]: "set all_str_fields = UNIV"
proof -
  have "f \<in> set all_str_fields" for f by (cases f) (simp_all add: all_str_fields_def)
  then show ?thesis by blast
qed

lemma set_all_int_fields [simp]: "set all_int_fields = UNIV"
proof -
  have "f \<in> set all_int_fields" for f by (cases f) (simp_all add: all_int_fields_def)
  then show ?thesis by blast
qed

definition wf_state :: "ap2p_state \<Rightarrow> bool" where
  "wf_state st \<longleftrightarrow> list_all (\<lambda>f. fits (str_size f) (get_str f st)) all_str_fields
     \<and> list_all (\<lambda>f. int_min \<le> get_int f st \<and> get_int f st \<le> int_max) all_int_fields"

lemma wf_state_iff:
  "wf_state st \<longleftrightarrow> (\<forall>f. fits (str_size f) (get_str f st))
     \<and> (\<forall>f. int_min \<le> get_int f st \<and> get_int f st \<le> int_max)"
  by (simp add: wf_state_def list_all_iff)

lemma str_size_pos [simp]: "0 < str_size f"
  by (cases f) auto

lemma set_trim: "set (trim s) \<subseteq> set s"
  using set_before [of "CHR ''#''" s]
  by (auto simp: trim_def Let_def dest!: set_dropWhileD)

lemma parse_line_set: "parse_line s = Some (k, v) \<Longrightarrow> set v \<subseteq> set s"
proof -
  assume a: "parse_line s = Some (k, v)"
  then obtain w where w: "after (CHR ''='') (trim s) = Some w" and v: "v = trim w"
    by (auto simp: parse_line_def Let_def split: if_splits option.splits)
  have "set w \<subseteq> set (trim s)" using w by (rule set_after)
  then show ?thesis using set_trim [of w] set_trim [of s] v by blast
qed

lemma line_write_wf:
  assumes "line_write raw = Some (f, v)"
  shows "(\<forall>g s. f = F_STR g \<longrightarrow> v = VStr s \<longrightarrow> fits (str_size g) s)
    \<and> (\<forall>g i. f = F_INT g \<longrightarrow> v = VInt i \<longrightarrow> int_min \<le> i \<and> i \<le> int_max)"
proof -
  obtain key val where p: "parse_line (cstr (take 1023 raw)) = Some (key, val)"
    and v: "v = field_value f val"
    using assms by (auto simp: line_write_def split: option.splits)
  have nul: "CHR 0x00 \<notin> set val"
    using parse_line_set [OF p] cstr_no_nul by blast
  show ?thesis
    using v nul by (cases f) (auto simp: atoi_bounds)
qed

lemma apply_line_wf: "wf_state st \<Longrightarrow> wf_state (apply_line st raw)"
proof -
  assume wf: "wf_state st"
  show ?thesis
  proof (cases "line_write raw")
    case None
    then show ?thesis using wf by (simp add: apply_line_write)
  next
    case (Some w)
    obtain f v where w: "w = (f, v)" by (cases w)
    show ?thesis
      using line_write_wf [of raw f v] wf Some w
      by (cases f; cases v)
        (auto simp: apply_line_write wf_state_iff get_str_put_str get_int_put_int)
  qed
qed

lemma conf_loop_wf: "wf_state st \<Longrightarrow> wf_state (conf_loop st p)"
proof -
  have "wf_state st \<Longrightarrow> wf_state (fold (\<lambda>raw st. apply_line st raw) ls st)" for ls
    by (induction ls arbitrary: st) (auto simp: apply_line_wf)
  then show "wf_state st \<Longrightarrow> wf_state (conf_loop st p)" by (simp add: conf_loop_lines)
qed

text \<open>The parser touches the 17 table fields only.\<close>

definition control :: "ap2p_state \<Rightarrow> bool \<times> bool \<times> bool \<times> string \<times> string \<times> string \<times> string" where
  "control st = (shutdown_flag st, state_ready st, srt_reload_pending st, bootstrap_mqtt_url st,
     bootstrap_mqtt_url_bkp st, bootstrap_mqtt_user st, bootstrap_mqtt_pass st)"

lemma control_put_field [simp]: "control (put_field f v st) = control st"
proof (cases f; cases v)
  fix x s assume "f = F_STR x" "v = VStr s"
  then show ?thesis by (cases x) (auto simp: control_def)
next
  fix x i assume "f = F_INT x" "v = VInt i"
  then show ?thesis by (cases x) (auto simp: control_def)
qed auto

lemma control_conf_loop [simp]: "control (conf_loop st p) = control st"
proof -
  have "control (fold (\<lambda>(f, v). put_field f v) ws st) = control st" for ws
    by (induction ws arbitrary: st) auto
  then show ?thesis by (simp add: conf_loop_writes)
qed

lemma conf_loop_flags [simp]:
  "shutdown_flag (conf_loop st p) = shutdown_flag st"
  "state_ready (conf_loop st p) = state_ready st"
  "srt_reload_pending (conf_loop st p) = srt_reload_pending st"
  using control_conf_loop [of st p] by (simp_all add: control_def)

lemma wf_state_flags [simp]:
  "wf_state (st\<lparr>state_ready := b\<rparr>) = wf_state st"
  "wf_state (st\<lparr>srt_reload_pending := b\<rparr>) = wf_state st"
  "wf_state (st\<lparr>shutdown_flag := b\<rparr>) = wf_state st"
proof -
  have "get_str f (st\<lparr>state_ready := b\<rparr>) = get_str f st"
    "get_str f (st\<lparr>srt_reload_pending := b\<rparr>) = get_str f st"
    "get_str f (st\<lparr>shutdown_flag := b\<rparr>) = get_str f st" for f
    by (cases f; simp)+
  moreover have "get_int f (st\<lparr>state_ready := b\<rparr>) = get_int f st"
    "get_int f (st\<lparr>srt_reload_pending := b\<rparr>) = get_int f st"
    "get_int f (st\<lparr>shutdown_flag := b\<rparr>) = get_int f st" for f
    by (cases f; simp)+
  ultimately show
    "wf_state (st\<lparr>state_ready := b\<rparr>) = wf_state st"
    "wf_state (st\<lparr>srt_reload_pending := b\<rparr>) = wf_state st"
    "wf_state (st\<lparr>shutdown_flag := b\<rparr>) = wf_state st"
    by (simp_all add: wf_state_iff)
qed

lemma apply_payload_wf:
  "wf_state st \<Longrightarrow> wf_state (fst (snd (apply_ap2p_conf_payload st p)))"
  by (simp add: apply_ap2p_conf_payload_def Let_def conf_loop_wf)

subsection \<open>A written configuration reads back\<close>

fun show_val :: "conf_val \<Rightarrow> string" where
  "show_val (VStr s) = s"
| "show_val (VInt i) = show_int i"

definition conf_line :: "ap2p_state \<Rightarrow> string \<times> conf_field \<Rightarrow> string" where
  "conf_line st kf = fst kf @ CHR ''='' # show_val (get_field (snd kf) st)"

definition render_conf :: "ap2p_state \<Rightarrow> string" where
  "render_conf st = concat (map (\<lambda>kf. conf_line st kf @ [CHR 0x0A]) kFields)"

text \<open>Values that the line format can carry: no comment sign, no line end, no outer white space.\<close>

definition clean :: "string \<Rightarrow> bool" where
  "clean v \<longleftrightarrow> (\<forall>c \<in> set v. c \<noteq> CHR ''#'' \<and> c \<noteq> CHR 0x00 \<and> \<not> is_eol c)
     \<and> (v = [] \<or> \<not> isspace (hd v) \<and> \<not> isspace (last v))"

lemma trim_id:
  assumes "CHR ''#'' \<notin> set s" "s = [] \<or> \<not> isspace (hd s) \<and> \<not> isspace (last s)"
  shows "trim s = s"
proof (cases "s = []")
  case False
  then have "dropWhile isspace s = s" "dropWhile isspace (rev s) = rev s"
    using assms(2) by (cases s; simp) (metis assms(2) dropWhile_eq_self_iff hd_rev rev_is_Nil_conv)
  then show ?thesis using assms(1) by (simp add: trim_def before_no)
qed (simp add: trim_def)

lemma parse_line_render:
  assumes k: "k \<noteq> []" "\<forall>c \<in> set k. \<not> isspace c \<and> c \<noteq> CHR ''#'' \<and> c \<noteq> CHR ''=''"
    and v: "clean v"
  shows "parse_line (k @ CHR ''='' # v) = Some (k, v)"
proof -
  let ?l = "k @ CHR ''='' # v"
  have "trim ?l = ?l"
  proof (rule trim_id)
    show "CHR ''#'' \<notin> set ?l" using k v by (auto simp: clean_def)
    show "?l = [] \<or> \<not> isspace (hd ?l) \<and> \<not> isspace (last ?l)"
      using k v by (auto simp: clean_def isspace_def hd_append)
  qed
  moreover have "trim k = k"
    using k by (intro trim_id) auto
  moreover have "trim v = v"
    using v by (intro trim_id) (auto simp: clean_def)
  moreover have nk: "CHR ''='' \<notin> set k" using k by auto
  ultimately show ?thesis
    using k by (simp add: parse_line_def Let_def before_append [OF nk] after_append [OF nk])
qed

lemma payload_lines_concat:
  assumes "\<forall>l \<in> set ls. l \<noteq> [] \<and> (\<forall>c \<in> set l. \<not> is_eol c)"
  shows "payload_lines (concat (map (\<lambda>l. l @ [CHR 0x0A]) ls)) = ls"
  using assms
proof (induction ls)
  case Nil
  then show ?case by (simp add: payload_lines.simps)
next
  case (Cons l ls)
  let ?rest = "concat (map (\<lambda>l. l @ [CHR 0x0A]) ls)"
  have l: "l \<noteq> []" "\<forall>c \<in> set l. \<not> is_eol c" using Cons.prems by auto
  have eol: "is_eol (CHR 0x0A)" by (simp add: is_eol_def)
  have tw: "takeWhile (\<lambda>c. \<not> is_eol c) (l @ CHR 0x0A # ?rest) = l"
    using l eol by (subst takeWhile_append2) auto
  have dw: "dropWhile (\<lambda>c. \<not> is_eol c) (l @ CHR 0x0A # ?rest) = CHR 0x0A # ?rest"
    using l eol by (subst dropWhile_append2) auto
  have rest: "dropWhile is_eol ?rest = ?rest"
  proof (cases ls)
    case (Cons m ms)
    then show ?thesis using Cons.prems by (cases m) auto
  qed simp
  show ?case
    using Cons.IH Cons.prems l eol
    by (subst payload_lines.simps) (simp add: tw dw rest)
qed

definition clean_state :: "ap2p_state \<Rightarrow> bool" where
  "clean_state st \<longleftrightarrow> list_all (\<lambda>f. clean (get_str f st)) all_str_fields"

lemma key_chars:
  "(k, f) \<in> set kFields \<Longrightarrow>
     k \<noteq> [] \<and> (\<forall>c \<in> set k. \<not> isspace c \<and> c \<noteq> CHR ''#'' \<and> c \<noteq> CHR ''='' \<and> c \<noteq> CHR 0x00 \<and> \<not> is_eol c)
     \<and> length k \<le> 11"
  by (simp add: kFields_def isspace_def is_eol_def) (elim disjE; simp)

lemma kFields_map_of: "(k, f) \<in> set kFields \<Longrightarrow> map_of kFields k = Some f"
  by (simp add: kFields_def) (elim disjE; simp)

lemma kFields_complete: "f \<in> snd ` set kFields"
  by (cases f; rename_tac x; case_tac x; simp add: kFields_def)

lemma kFields_distinct: "distinct (map snd kFields)"
  by (simp add: kFields_def)

lemma clean_show_int [simp]: "clean (show_int i)"
proof -
  have "\<forall>c \<in> set (show_int i). \<not> isspace c \<and> c \<noteq> CHR ''#'' \<and> c \<noteq> CHR 0x00 \<and> \<not> is_eol c"
    using show_int_clean [of _ i] by (auto simp: is_eol_def)
  then show ?thesis by (simp add: clean_def)
qed

lemma length_show_int:
  assumes "int_min \<le> i" "i \<le> int_max"
  shows "length (show_int i) \<le> 11"
proof -
  have "nat i < 10 ^ 10" "nat (- i) < 10 ^ 10"
    using assms by (simp_all add: int_min_def int_max_def zless_nat_eq_int_zless)
  then show ?thesis
    using length_show_nat_le [of "nat i" 10] length_show_nat_le [of "nat (- i)" 10]
    by (simp add: show_int_def)
qed

lemma line_write_conf_line:
  assumes wf: "wf_state st" and cl: "clean_state st" and kf: "(k, f) \<in> set kFields"
  shows "line_write (conf_line st (k, f)) = Some (f, get_field f st)"
proof -
  let ?v = "show_val (get_field f st)"
  have v: "clean ?v" using cl by (cases f) (auto simp: clean_state_def list_all_iff)
  have fv: "field_value f ?v = get_field f st"
    using wf by (cases f) (auto simp: wf_state_iff bcopy_idem_fits atoi_show_int)
  have len: "length ?v < 256"
  proof (cases f)
    case (F_STR x)
    have "str_size x \<le> 256" by (cases x) auto
    then show ?thesis using wf F_STR by (auto simp: wf_state_iff fits_def intro: less_le_trans)
  next
    case (F_INT x)
    then show ?thesis
      using wf length_show_int [of "get_int x st"] by (simp add: wf_state_iff)
  qed
  have line: "conf_line st (k, f) = k @ CHR ''='' # ?v" by (simp add: conf_line_def)
  have "length k \<le> 11" "CHR 0x00 \<notin> set k" using key_chars [OF kf] by blast+
  moreover have "CHR 0x00 \<notin> set ?v" using v by (auto simp: clean_def)
  ultimately have "length (k @ CHR ''='' # ?v) \<le> 1023" "CHR 0x00 \<notin> set (k @ CHR ''='' # ?v)"
    using len by simp_all
  then have "cstr (take 1023 (conf_line st (k, f))) = k @ CHR ''='' # ?v"
    by (metis line take_all cstr_id)
  then show ?thesis
    using parse_line_render [of k ?v] key_chars [OF kf] v fv kFields_map_of [OF kf]
    by (simp add: line_write_def)
qed

lemma payload_writes_render:
  assumes "wf_state st" "clean_state st"
  shows "payload_writes (render_conf st) = map (\<lambda>(k, f). (f, get_field f st)) kFields"
proof -
  have "l \<noteq> [] \<and> (\<forall>c \<in> set l. \<not> is_eol c)" if lin: "l \<in> set (map (conf_line st) kFields)" for l
  proof -
    obtain kf where *: "kf \<in> set kFields" "l = conf_line st kf"
      using lin unfolding set_map by blast
    obtain k f where "kf = (k, f)" by (cases kf)
    with * have kf: "(k, f) \<in> set kFields" and l: "l = conf_line st (k, f)" by auto
    have "clean (show_val (get_field f st))"
      using assms(2) by (cases f) (auto simp: clean_state_def list_all_iff)
    then show ?thesis
      using key_chars [OF kf] l by (auto simp: conf_line_def clean_def is_eol_def)
  qed
  then have lines: "payload_lines (render_conf st) = map (conf_line st) kFields"
    using payload_lines_concat [of "map (conf_line st) kFields"]
    by (simp add: render_conf_def comp_def)
  have "List.map_filter line_write (map (conf_line st) kfs) = map (\<lambda>(k, f). (f, get_field f st)) kfs"
    if "set kfs \<subseteq> set kFields" for kfs
    using that line_write_conf_line [OF assms]
    by (induction kfs) (auto simp: List.map_filter_simps)
  then show ?thesis by (simp add: payload_writes_def lines)
qed

lemma get_field_render:
  assumes "wf_state st" "clean_state st"
  shows "get_field f (conf_loop st0 (render_conf st)) = get_field f st"
proof -
  let ?ws = "map (\<lambda>(k, f). (f, get_field f st)) kFields"
  have "map fst (rev ?ws) = rev (map snd kFields)"
    by (simp add: rev_map comp_def split_def)
  then have "distinct (map fst (rev ?ws))"
    using kFields_distinct by (metis distinct_rev)
  moreover have "(f, get_field f st) \<in> set (rev ?ws)"
    using kFields_complete [of f] by force
  ultimately have "map_of (rev ?ws) f = Some (get_field f st)"
    by (rule map_of_is_SomeI)
  then show ?thesis by (simp add: get_field_conf_loop payload_writes_render [OF assms])
qed

subsection \<open>Waiting for the first payload\<close>

text \<open>
  \<open>ap2p_wait_state_ready\<close> re-tests the two flags every time it is woken.  \<open>obs\<close> lists what it sees
  at each test (ready, shutdown) and what the timed wait that follows returns (true: ETIMEDOUT);
  \<open>None\<close> is "still waiting when the observations end".
\<close>

record wait_obs =
  obs_ready :: bool
  obs_shutdown :: bool
  obs_timedout :: bool

fun wait_loop :: "bool \<Rightarrow> wait_obs list \<Rightarrow> int option" where
  "wait_loop forever [] = None"
| "wait_loop forever (x # xs) =
     (if \<not> obs_ready x \<and> \<not> obs_shutdown x
      then (if \<not> forever \<and> obs_timedout x then Some (-1) else wait_loop forever xs)
      else Some (if obs_shutdown x then -2 else 0))"

definition ap2p_wait_state_ready :: "int \<Rightarrow> wait_obs list \<Rightarrow> int option" where
  "ap2p_wait_state_ready timeout_ms obs = wait_loop (timeout_ms < 0) obs"

text \<open>The absolute deadline of the timed branch: seconds and nanoseconds, normalised once.\<close>

definition wait_deadline :: "nat \<times> nat \<Rightarrow> nat \<Rightarrow> nat \<times> nat" where
  "wait_deadline now timeout_ms =
     (let sec = fst now + timeout_ms div 1000;
          nsec = snd now + (timeout_ms mod 1000) * 1000000
      in if nsec \<ge> 1000000000 then (sec + 1, nsec - 1000000000) else (sec, nsec))"

lemma wait_deadline_exact:
  assumes "snd now < 1000000000"
  shows "snd (wait_deadline now t) < 1000000000
    \<and> fst (wait_deadline now t) * 1000000000 + snd (wait_deadline now t)
        = fst now * 1000000000 + snd now + t * 1000000"
proof -
  obtain a b where now: "now = (a, b)" by (cases now)
  define q r where "q = t div 1000" and "r = t mod 1000"
  then have t: "t = 1000 * q + r" and r: "r < 1000" by simp_all
  have "wait_deadline now t = (if b + r * 1000000 \<ge> 1000000000
      then (a + q + 1, b + r * 1000000 - 1000000000) else (a + q, b + r * 1000000))"
    by (simp add: wait_deadline_def Let_def now q_def r_def)
  moreover have "r * 1000000 < 1000000000" using r by simp
  ultimately show ?thesis using assms now by (auto simp: t less_diff_conv2)
qed

lemma wait_loop_first:
  "wait_loop True obs =
     (case filter (\<lambda>x. obs_ready x \<or> obs_shutdown x) obs of
        [] \<Rightarrow> None | x # _ \<Rightarrow> Some (if obs_shutdown x then -2 else 0))"
  by (induction obs) auto

subsection \<open>The shared state under its three clients\<close>

text \<open>
  The MQTT thread delivers payloads, the SRT thread consumes the reload flag, a signal handler sets
  the shutdown flag.  Each is atomic (the first two hold the mutex, the third writes one flag), so
  an execution is a sequence of these steps in some order.
\<close>

datatype conf_event = Deliver string int | Consume bool | Signal

inductive conf_step :: "ap2p_state \<Rightarrow> conf_event \<Rightarrow> ap2p_state \<Rightarrow> bool" where
  deliver: "apply_ap2p_conf_payload st p = (rc, st', ms) \<Longrightarrow> conf_step st (Deliver p rc) st'"
| consume: "ap2p_consume_srt_reload st = (b, st') \<Longrightarrow> conf_step st (Consume b) st'"
| signal: "conf_step st Signal (st\<lparr>shutdown_flag := True\<rparr>)"

inductive_cases conf_step_Deliver: "conf_step st (Deliver p rc) st'"
inductive_cases conf_step_Consume: "conf_step st (Consume b) st'"
inductive_cases conf_step_Signal: "conf_step st Signal st'"

inductive conf_run :: "ap2p_state \<Rightarrow> conf_event list \<Rightarrow> ap2p_state \<Rightarrow> bool" where
  conf_run_Nil: "conf_run st [] st"
| conf_run_Cons: "conf_step st e st1 \<Longrightarrow> conf_run st1 es st2 \<Longrightarrow> conf_run st (e # es) st2"

inductive_simps conf_run_simps [simp]:
  "conf_run st [] st'"
  "conf_run st (e # es) st'"

definition conf_inv :: "ap2p_state \<Rightarrow> bool" where
  "conf_inv st \<longleftrightarrow> wf_state st \<and> (srt_reload_pending st \<longrightarrow> state_ready st)"

lemma conf_step_inv: "conf_step st e st' \<Longrightarrow> conf_inv st \<Longrightarrow> conf_inv st'"
proof (induction rule: conf_step.induct)
  case (deliver st p rc st' ms)
  then show ?case
    using apply_payload_wf [of st p]
    by (auto simp: conf_inv_def apply_ap2p_conf_payload_def Let_def split: if_splits)
next
  case (consume st b st')
  then show ?case
    by (auto simp: conf_inv_def ap2p_consume_srt_reload_def split: if_splits)
qed (simp add: conf_inv_def)

lemma conf_step_mono:
  "conf_step st e st' \<Longrightarrow> (state_ready st \<longrightarrow> state_ready st') \<and> (shutdown_flag st \<longrightarrow> shutdown_flag st')"
  by (induction rule: conf_step.induct)
    (auto simp: apply_ap2p_conf_payload_def ap2p_consume_srt_reload_def Let_def split: if_splits)

lemma conf_step_pending:
  "conf_step st e st' \<Longrightarrow> srt_reload_pending st \<Longrightarrow> e \<noteq> Consume True \<Longrightarrow> srt_reload_pending st'"
  by (induction rule: conf_step.induct)
    (auto simp: apply_ap2p_conf_payload_def ap2p_consume_srt_reload_def Let_def split: if_splits)

subsection \<open>Properties\<close>

lemma get_field_flags [simp]:
  "get_field f (st\<lparr>state_ready := b\<rparr>) = get_field f st"
  "get_field f (st\<lparr>srt_reload_pending := b\<rparr>) = get_field f st"
  by (cases f; rename_tac x; case_tac x; simp)+

lemma payload_writes_Nil [simp]: "payload_writes [] = []"
  by (simp add: payload_writes_def payload_lines.simps List.map_filter_simps)

text \<open>After any payload, every one of the 17 fields holds the value of the last line that assigns
  it, cut to the field's buffer or read by \<open>atoi\<close>, and its old value if no line does.  This holds for
  accepted and for rejected payloads alike.\<close>

theorem payload_last_assignment_wins:
  "get_field f (fst (snd (apply_ap2p_conf_payload st p)))
   = (case map_of (rev (payload_writes p)) f of None \<Rightarrow> get_field f st | Some v \<Rightarrow> v)"
  by (simp add: apply_ap2p_conf_payload_def Let_def get_field_conf_loop split: option.split)

text \<open>C13. A configuration written out one \<open>KEY=value\<close> line per field and parsed back, over any previous
  state, restores all 17 fields, when the string values fit their buffers and hold no comment sign,
  line end or outer white space.\<close>

theorem conf_render_roundtrip:
  assumes "wf_state st" "clean_state st" "ctrl_host st \<noteq> []"
  shows "fst (apply_ap2p_conf_payload st0 (render_conf st)) = 0
    \<and> (\<forall>f. get_field f (fst (snd (apply_ap2p_conf_payload st0 (render_conf st)))) = get_field f st)"
proof -
  let ?st1 = "conf_loop st0 (render_conf st)"
  have get: "get_field f ?st1 = get_field f st" for f
    by (rule get_field_render [OF assms(1,2)])
  have "get_field (F_STR F_ctrl_host) ?st1 = get_field (F_STR F_ctrl_host) st"
    by (rule get)
  then have "ctrl_host ?st1 \<noteq> []" using assms(3) by simp
  moreover have "render_conf st \<noteq> []" by (simp add: render_conf_def kFields_def)
  ultimately show ?thesis by (simp add: apply_ap2p_conf_payload_def Let_def get)
qed

definition sample_conf :: ap2p_state where
  "sample_conf = ap2p_state_init\<lparr>ctrl_host := ''ctrl.example'', src_path := ''/flv/live'', verbose := 1\<rparr>"

theorem conf_render_roundtrip_witness:
  "fst (apply_ap2p_conf_payload ap2p_state_init (render_conf sample_conf)) = 0"
proof -
  have "wf_state sample_conf"
    by (simp add: wf_state_def all_str_fields_def all_int_fields_def sample_conf_def
        ap2p_state_init_def fits_def int_min_def int_max_def)
  moreover have "clean_state sample_conf"
    by (simp add: clean_state_def all_str_fields_def sample_conf_def ap2p_state_init_def clean_def
        is_eol_def isspace_def)
  moreover have "ctrl_host sample_conf \<noteq> []" by (simp add: sample_conf_def)
  ultimately show ?thesis using conf_render_roundtrip [of sample_conf ap2p_state_init] by simp
qed

text \<open>The outcome of a push: it is refused exactly when it is empty or leaves no control host, and
  a refusal moves none of the flags; an accepted push makes the state ready and requests a rebuild of
  the SRT session exactly when the state was ready before.\<close>

theorem payload_outcome:
  assumes "apply_ap2p_conf_payload st p = (rc, st', ms)"
  shows "(rc = -1 \<longleftrightarrow> p = [] \<or> ctrl_host st' = []) \<and> (rc = 0 \<or> rc = -1)
    \<and> (rc = -1 \<longrightarrow> state_ready st' = state_ready st \<and> srt_reload_pending st' = srt_reload_pending st)
    \<and> (rc = 0 \<longrightarrow> state_ready st'
          \<and> srt_reload_pending st' = (state_ready st \<or> srt_reload_pending st)
          \<and> (BT_STATE_READY \<in> set ms \<longleftrightarrow> \<not> state_ready st))
    \<and> shutdown_flag st' = shutdown_flag st"
  using assms by (auto simp: apply_ap2p_conf_payload_def Let_def split: if_splits)

lemma sample_push:
  "apply_ap2p_conf_payload ap2p_state_init ''CTRL_HOST = h # main''
   = (0, ap2p_state_init\<lparr>ctrl_host := ''h'', state_ready := True\<rparr>, [BT_CASE81_RX, BT_STATE_READY])"
  by (simp add: apply_ap2p_conf_payload_def conf_loop.simps apply_line_def parse_line_def trim_def
      cstr_def isspace_def is_eol_def kFields_def apply_field_def bcopy_def Let_def
      ap2p_state_init_def)

theorem payload_outcome_witness:
  "state_ready (fst (snd (apply_ap2p_conf_payload ap2p_state_init ''CTRL_HOST = h # main'')))"
  using payload_outcome [OF sample_push] by (simp add: sample_push)

text \<open>A refused push is not rolled back: on a running daemon the payload \<open>CTRL_HOST=\<close> is answered
  with an error, yet the control host of the shared state is empty from then on while the state
  still counts as ready.\<close>

theorem refused_push_empties_host:
  "apply_ap2p_conf_payload st ''CTRL_HOST='' = (-1, st\<lparr>ctrl_host := []\<rparr>, [BT_CASE81_RX])"
  by (simp add: apply_ap2p_conf_payload_def conf_loop.simps apply_line_def parse_line_def trim_def
      cstr_def isspace_def is_eol_def kFields_def apply_field_def bcopy_def Let_def)

text \<open>C11. In every interleaving of pushes, reload checks and signals, all buffers stay within their
  sizes, a pending reload implies a ready state, and neither readiness nor shutdown is ever undone.\<close>

theorem conf_run_invariant:
  assumes "conf_run st es st'" "conf_inv st"
  shows "conf_inv st' \<and> (state_ready st \<longrightarrow> state_ready st') \<and> (shutdown_flag st \<longrightarrow> shutdown_flag st')"
  using assms
proof (induction rule: conf_run.induct)
  case (conf_run_Cons st e st1 es st2)
  then show ?case using conf_step_inv conf_step_mono by blast
qed simp

lemma conf_inv_init: "conf_inv ap2p_state_init"
  by (simp add: conf_inv_def wf_state_def all_str_fields_def all_int_fields_def
      ap2p_state_init_def int_min_def int_max_def)

lemma sample_run:
  "conf_run ap2p_state_init [Deliver ''CTRL_HOST = h # main'' 0, Signal]
     (ap2p_state_init\<lparr>ctrl_host := ''h'', state_ready := True, shutdown_flag := True\<rparr>)"
proof -
  have "ap2p_state_init\<lparr>ctrl_host := ''h'', state_ready := True, shutdown_flag := True\<rparr>
        = (ap2p_state_init\<lparr>ctrl_host := ''h'', state_ready := True\<rparr>)\<lparr>shutdown_flag := True\<rparr>" by simp
  then show ?thesis
    using deliver [OF sample_push] signal [of "ap2p_state_init\<lparr>ctrl_host := ''h'', state_ready := True\<rparr>"]
    by auto
qed

theorem conf_run_invariant_witness:
  "conf_inv (ap2p_state_init\<lparr>ctrl_host := ''h'', state_ready := True, shutdown_flag := True\<rparr>)"
  using conf_run_invariant [OF sample_run conf_inv_init] by simp

text \<open>No configuration update is lost: after an accepted push to a ready state, whatever other
  pushes and signals happen before it, the next reload check of the SRT thread reports the reload,
  and the check after that reports none unless a new push came in between.\<close>

theorem reload_delivered_once:
  assumes "conf_step st (Deliver p 0) st1" "state_ready st" "conf_run st1 es st2"
    "Consume True \<notin> set es" "ap2p_consume_srt_reload st2 = (b, st3)"
  shows "b \<and> fst (ap2p_consume_srt_reload st3) = False"
proof -
  obtain ms where "apply_ap2p_conf_payload st p = (0, st1, ms)"
    using assms(1) by (auto elim: conf_step_Deliver)
  then have "srt_reload_pending st1"
    using assms(2) by (auto simp: apply_ap2p_conf_payload_def Let_def split: if_splits)
  with assms(3,4) have "srt_reload_pending st2"
    by (induction rule: conf_run.induct) (auto dest: conf_step_pending)
  then show ?thesis
    using assms(5) by (auto simp: ap2p_consume_srt_reload_def split: if_splits)
qed

lemma sample_push2:
  "apply_ap2p_conf_payload (ap2p_state_init\<lparr>state_ready := True\<rparr>) ''CTRL_HOST = h # main''
   = (0, ap2p_state_init\<lparr>ctrl_host := ''h'', state_ready := True, srt_reload_pending := True\<rparr>,
      [BT_CASE81_RX])"
  by (simp add: apply_ap2p_conf_payload_def conf_loop.simps apply_line_def parse_line_def trim_def
      cstr_def isspace_def is_eol_def kFields_def apply_field_def bcopy_def Let_def
      ap2p_state_init_def)

theorem reload_delivered_once_witness:
  "fst (ap2p_consume_srt_reload (ap2p_state_init\<lparr>ctrl_host := ''h'', state_ready := True,
     srt_reload_pending := True\<rparr>))"
proof -
  let ?s = "ap2p_state_init\<lparr>ctrl_host := ''h'', state_ready := True, srt_reload_pending := True\<rparr>"
  obtain b st3 where c: "ap2p_consume_srt_reload ?s = (b, st3)" by (cases "ap2p_consume_srt_reload ?s")
  have "b \<and> fst (ap2p_consume_srt_reload st3) = False"
    using deliver [OF sample_push2] _ conf_run_Nil _ c
    by (rule reload_delivered_once) simp_all
  then show ?thesis using c by simp
qed

text \<open>Waiting for readiness: without a timeout the wait ends at the first wake-up that sees the
  state ready or a shutdown, with 0 or -2; the deadline of a timed wait is the start time plus the
  timeout, in normalised nanoseconds that fit a 32-bit \<open>long\<close>.\<close>

theorem wait_state_ready_spec:
  assumes "snd now < 1000000000" "timeout_ms < 0"
  shows "ap2p_wait_state_ready timeout_ms obs =
      (case filter (\<lambda>x. obs_ready x \<or> obs_shutdown x) obs of
         [] \<Rightarrow> None | x # _ \<Rightarrow> Some (if obs_shutdown x then -2 else 0))
    \<and> (let d = wait_deadline now t in snd d < 1000000000
         \<and> fst d * 1000000000 + snd d = fst now * 1000000000 + snd now + t * 1000000)"
  using assms wait_deadline_exact [of now t]
  by (simp add: ap2p_wait_state_ready_def wait_loop_first Let_def)

theorem wait_state_ready_spec_witness:
  "ap2p_wait_state_ready (-1) [\<lparr>obs_ready = False, obs_shutdown = False, obs_timedout = True\<rparr>,
      \<lparr>obs_ready = True, obs_shutdown = False, obs_timedout = False\<rparr>] = Some 0
   \<and> wait_deadline (5, 999000000) 1500 = (7, 499000000)"
  using wait_state_ready_spec [of "(5, 999000000)" "-1"
      "[\<lparr>obs_ready = False, obs_shutdown = False, obs_timedout = True\<rparr>,
        \<lparr>obs_ready = True, obs_shutdown = False, obs_timedout = False\<rparr>]" 1500]
  by (simp add: wait_deadline_def)

end
