(* ===== verification/Bootstrap.thy ===== *)
theory Bootstrap
  imports Config
begin

text \<open>
  Start-up of the daemon: the ad hoc JSON field reader and bootstrap loader of \<open>config.c\<close>, the node-id
  file and the sequence of \<open>main.c\<close>.  A file is \<open>None\<close> when it cannot be opened, else its bytes.
\<close>

subsection \<open>The JSON field reader\<close>

text \<open>
  The search loop of \<open>extract_json_string\<close>: the next occurrence of the key that stands between two
  quotes.  \<open>prev\<close> is the character before the rest \<open>s\<close> of the file, \<open>None\<close> at its start; \<open>p > src\<close> is
  that there is one.  Unquoted occurrences are skipped whole (\<open>p += klen\<close>).
\<close>

function find_key :: "string \<Rightarrow> char option \<Rightarrow> string \<Rightarrow> string option" where
  "find_key key prev s =
     (if key = [] then None
      else case strstr s key of
        None \<Rightarrow> None
      | Some p \<Rightarrow>
          (let k = length s - length p;
               pc = (if k = 0 then prev else Some (s ! (k - 1)));
               rest = drop (length key) p
           in if pc = Some (CHR 0x22) \<and> starts_with [CHR 0x22] rest then Some p
              else find_key key (Some (last key)) rest))"
  by pat_completeness auto

termination find_key
proof (relation "measure (\<lambda>(key, prev, s). length s)", goal_cases)
  case (2 key prev s p k pc rest)
  then obtain pre where "s = pre @ p" "starts_with key p" using strstr_SomeD by blast
  then show ?case using 2 by (auto simp: starts_with_iff)
qed simp

declare find_key.simps [simp del]

definition extract_json_string :: "string \<Rightarrow> string \<Rightarrow> nat \<Rightarrow> string option" where
  "extract_json_string src key out_sz =
     (if key = [] then None
      else case find_key key None src of
        None \<Rightarrow> None
      | Some p \<Rightarrow>
          (case after (CHR '':'') (drop (length key) p) of
             None \<Rightarrow> None
           | Some q \<Rightarrow>
               (case dropWhile isspace q of
                  [] \<Rightarrow> None
                | c # v \<Rightarrow> if c \<noteq> CHR 0x22 then None
                            else Some (take (out_sz - 1) (before (CHR 0x22) v)))))"

subsection \<open>The bootstrap loader\<close>

definition ap2p_state_load_bootstrap ::
    "ap2p_state \<Rightarrow> string option \<Rightarrow> int \<times> ap2p_state \<times> bt_milestone list" where
  "ap2p_state_load_bootstrap st file =
     (case file of
        None \<Rightarrow> (-1, st, [])
      | Some bytes \<Rightarrow>
          if bytes = [] then (-1, st, [])
          else let buf = cstr (take 4095 bytes) in
            (case extract_json_string buf ''mqttUrl'' 256 of
               None \<Rightarrow> (-1, st, [])
             | Some url \<Rightarrow>
                 let st1 = st\<lparr>bootstrap_mqtt_url := bcopy 256 url\<rparr>;
                     st2 = st1\<lparr>bootstrap_mqtt_url_bkp :=
                             (case extract_json_string buf ''mqttUrl_BKP'' 256 of None \<Rightarrow> [] | Some v \<Rightarrow> v)\<rparr>;
                     st3 = (case extract_json_string buf ''username'' 64 of
                              None \<Rightarrow> st2 | Some v \<Rightarrow> st2\<lparr>bootstrap_mqtt_user := v\<rparr>);
                     st4 = (case extract_json_string buf ''password'' 64 of
                              None \<Rightarrow> st3 | Some v \<Rightarrow> st3\<lparr>bootstrap_mqtt_pass := v\<rparr>)
                 in (0, st4, [BT_CONFIG_LOADED])))"

subsection \<open>main.c\<close>

definition is_trailer :: "char \<Rightarrow> bool" where
  "is_trailer c \<longleftrightarrow> c = CHR 0x0A \<or> c = CHR 0x0D \<or> c = CHR '' ''"

definition rtrim :: "string \<Rightarrow> string" where
  "rtrim s = rev (dropWhile is_trailer (rev s))"

definition load_node_id_from_file :: "ap2p_state \<Rightarrow> string option \<Rightarrow> int \<times> ap2p_state" where
  "load_node_id_from_file st file =
     (case file of
        None \<Rightarrow> (-1, st)
      | Some bytes \<Rightarrow>
          (case fgets 64 bytes of
             None \<Rightarrow> (-1, st)
           | Some (l, _) \<Rightarrow>
               (let nid = rtrim (cstr l) in (if nid = [] then -1 else 0, st\<lparr>node_id := nid\<rparr>))))"

text \<open>
  What \<open>main\<close> does, in order.  The two \<open>pthread_create\<close> results and the initialisation's are inputs.
  A spawn carries the state the thread starts from.
\<close>

datatype main_event =
    MainMark bt_milestone
  | InstallSignals
  | SpawnMqtt ap2p_state
  | SpawnSrt ap2p_state
  | RequestShutdown
  | JoinMqtt
  | JoinSrt
  | Destroy

definition on_signal :: "ap2p_state option \<Rightarrow> ap2p_state option" where
  "on_signal g = map_option (\<lambda>st. st\<lparr>shutdown_flag := True\<rparr>) g"

definition ap2p_main ::
    "bool \<Rightarrow> string option \<Rightarrow> string option \<Rightarrow> bool \<Rightarrow> bool \<Rightarrow> int \<times> main_event list" where
  "ap2p_main init_ok config_json burn_uid mqtt_ok srt_ok =
     (if \<not> init_ok then (1, [MainMark BT_AP2P_MAIN])
      else let (rc, st, marks) = ap2p_state_load_bootstrap ap2p_state_init config_json;
               ev = MainMark BT_AP2P_MAIN # map MainMark marks in
        if rc \<noteq> 0 then (1, ev @ [Destroy])
        else let (rc2, st2) = (if node_id st = [] then load_node_id_from_file st burn_uid else (0, st)) in
          if rc2 \<noteq> 0 then (1, ev @ [Destroy])
          else if \<not> mqtt_ok then (1, ev @ [InstallSignals, Destroy])
          else if \<not> srt_ok then
            (1, ev @ [InstallSignals, SpawnMqtt st2, RequestShutdown, JoinMqtt, Destroy])
          else (0, ev @ [InstallSignals, SpawnMqtt st2, SpawnSrt st2, JoinMqtt, JoinSrt, Destroy]))"

subsection \<open>The search finds the first quoted occurrence\<close>

definition quoted :: "string \<Rightarrow> string" where
  "quoted key = CHR 0x22 # key @ [CHR 0x22]"

lemma quoted_startsD:
  assumes "starts_with (quoted key) (drop i (c # s))"
  shows "starts_with key (drop i s)" "(c # s) ! i = CHR 0x22" "i < length s"
    "starts_with (key @ [CHR 0x22]) (drop i s)"
proof -
  obtain t where t: "drop i (c # s) = CHR 0x22 # key @ [CHR 0x22] @ t"
    using assms by (auto simp: starts_with_iff quoted_def)
  then have i: "i < length (c # s)" by (metis drop_all leI list.discI)
  then have "drop i (c # s) = (c # s) ! i # drop i s" by (metis Cons_nth_drop_Suc drop_Suc_Cons)
  then have e: "(c # s) ! i = CHR 0x22" "drop i s = key @ [CHR 0x22] @ t" using t by (metis list.inject)+
  then show "(c # s) ! i = CHR 0x22" "starts_with key (drop i s)" "starts_with (key @ [CHR 0x22]) (drop i s)"
    by (simp_all add: starts_with_iff)
  show "i < length s" using e(2) by (metis Nil_is_append_conv drop_all leI list.discI)
qed

text \<open>The case with a preceding character: nothing before the next quoted key can be one.\<close>

lemma find_key_Some:
  assumes "key \<noteq> []" "CHR 0x22 \<notin> set key"
  shows "find_key key (Some c) s = map_option tl (strstr (c # s) (quoted key))"
  using assms
proof (induction "length s" arbitrary: c s rule: less_induct)
  case less
  show ?case
  proof (cases "strstr s key")
    case None
    have "strstr (c # s) (quoted key) = None"
    proof (cases "strstr (c # s) (quoted key)")
      case (Some r)
      then obtain pre where "c # s = pre @ r" "starts_with (quoted key) r" using strstr_SomeD by blast
      then have "starts_with (quoted key) (drop (length pre) (c # s))" by simp
      then show ?thesis using quoted_startsD(1) strstr_None_starts [OF None] by blast
    qed
    then show ?thesis using None less.prems by (simp add: find_key.simps)
  next
    case (Some p)
    then obtain a where a: "s = a @ p" "starts_with key p" using strstr_SomeD by blast
    then obtain r where r: "p = key @ r" by (auto simp: starts_with_iff)
    have first: "\<not> starts_with key (drop i s)" if "i < length a" for i
      using strstr_first [OF Some, of i] that a(1) by simp
    have before: "\<not> starts_with (quoted key) (drop i (c # s))" if "i < length a" for i
      using first [OF that] quoted_startsD(1) by blast
    have pc: "(if length a = 0 then Some c else Some (s ! (length a - 1))) = Some ((c # s) ! length a)"
      by (cases a) (simp_all add: a(1))
    have fk: "find_key key (Some c) s =
        (if (c # s) ! length a = CHR 0x22 \<and> starts_with [CHR 0x22] r then Some p
         else find_key key (Some (last key)) r)"
      using Some less.prems(1) pc by (subst find_key.simps) (simp add: a(1) r Let_def)
    show ?thesis
    proof (cases "(c # s) ! length a = CHR 0x22 \<and> starts_with [CHR 0x22] r")
      case True
      then obtain t where t: "r = CHR 0x22 # t" by (auto simp: starts_with_iff)
      have spl: "c # s = take (length a) (c # s) @ (CHR 0x22 # p)"
        using True a(1) by (metis Cons_nth_drop_Suc append_eq_conv_conj append_take_drop_id drop_Suc_Cons
            length_Cons length_append less_Suc_eq_le trans_le_add1 order_refl)
      have "starts_with (quoted key) (CHR 0x22 # p)"
        by (simp add: quoted_def r t starts_with_def)
      then have "strstr (CHR 0x22 # p) (quoted key) = Some (CHR 0x22 # p)" by simp
      moreover have "strstr (c # s) (quoted key) = strstr (CHR 0x22 # p) (quoted key)"
        using strstr_skip [of "take (length a) (c # s)" "quoted key" "CHR 0x22 # p"] before spl
        by (metis length_take min_less_iff_conj)
      ultimately show ?thesis using True fk by simp
    next
      case False
      define b where "b = (c # a) @ key"
      have spl: "c # s = butlast b @ last key # r"
        using less.prems(1) by (simp add: b_def a(1) r butlast_append)
      have none: "\<not> starts_with (quoted key) (drop i (butlast b @ last key # r))"
        if i: "i < length (butlast b)" for i
      proof
        assume "starts_with (quoted key) (drop i (butlast b @ last key # r))"
        then have st: "starts_with (quoted key) (drop i (c # s))" by (simp add: spl)
        consider "i < length a" | "i = length a" | "length a < i" by linarith
        then show False
        proof cases
          case 1
          then show False using before st by blast
        next
          case 2
          have "starts_with [CHR 0x22] r"
            using quoted_startsD(4) [OF st] 2 by (simp add: a(1) r starts_with_def)
          then show False using False quoted_startsD(2) [OF st] 2 by blast
        next
          case 3
          then obtain j where j: "i = Suc (length a + j)" using less_imp_Suc_add by blast
          have "length (butlast b) = length a + length key" using less.prems(1) by (simp add: b_def)
          then have "j < length key" "(c # s) ! i = key ! j"
            using i j by (simp_all add: a(1) r nth_append)
          then show False using less.prems(2) quoted_startsD(2) [OF st] nth_mem by metis
        qed
      qed
      have "strstr (c # s) (quoted key) = strstr (last key # r) (quoted key)"
        using strstr_skip [of "butlast b"] none spl by metis
      moreover have "find_key key (Some (last key)) r = map_option tl (strstr (last key # r) (quoted key))"
        by (rule less.hyps) (use less.prems a(1) r in auto)
      moreover have "find_key key (Some c) s = find_key key (Some (last key)) r"
        using fk by (simp only: False if_False)
      ultimately show ?thesis by simp
    qed
  qed
qed

lemma starts_with_append_cancel [simp]: "starts_with (x @ p) (x @ s) \<longleftrightarrow> starts_with p s"
  by (auto simp: starts_with_iff)

text \<open>At the start of the file an occurrence without a character before it does not count.\<close>

lemma find_key_start:
  assumes "key \<noteq> []" "CHR 0x22 \<notin> set key"
  shows "find_key key None s = map_option tl (strstr s (quoted key))"
proof -
  have q: "\<not> starts_with (quoted key) (c # t)" if "c \<noteq> CHR 0x22" for c t
    using that by (auto simp: starts_with_iff quoted_def)
  have "find_key key None s = find_key key (Some (CHR ''x'')) s"
  proof (cases "strstr s key")
    case None
    then show ?thesis using assms by (simp add: find_key.simps)
  next
    case (Some p)
    then show ?thesis
      using assms by (subst (1 2) find_key.simps) (simp add: Let_def)
  qed
  also have "\<dots> = map_option tl (strstr (CHR ''x'' # s) (quoted key))"
    by (rule find_key_Some [OF assms])
  also have "strstr (CHR ''x'' # s) (quoted key) = strstr s (quoted key)" by (simp add: q)
  finally show ?thesis .
qed

subsection \<open>What a lookup returns\<close>

definition blank :: "string \<Rightarrow> bool" where
  "blank ws \<longleftrightarrow> (\<forall>c \<in> set ws. isspace c)"

lemma extract_at_first:
  assumes key: "key \<noteq> []" "CHR 0x22 \<notin> set key"
    and mid: "CHR '':'' \<notin> set mid" "blank ws" and v: "CHR 0x22 \<notin> set v"
    and first: "\<forall>i < length pre. \<not> starts_with (quoted key) (drop i (pre @ quoted key @ rest))"
    and rest: "rest = mid @ CHR '':'' # ws @ quoted v @ post"
  shows "extract_json_string (pre @ quoted key @ rest) key n = Some (take (n - 1) v)"
proof -
  have doc: "quoted key @ rest = CHR 0x22 # key @ CHR 0x22 # rest"
    by (simp add: quoted_def)
  have "strstr (pre @ quoted key @ rest) (quoted key) = strstr (quoted key @ rest) (quoted key)"
    by (rule strstr_skip [OF first])
  also have "\<dots> = Some (quoted key @ rest)"
    by (simp add: doc) (simp add: quoted_def starts_with_def)
  finally have "find_key key None (pre @ quoted key @ rest) = Some (key @ CHR 0x22 # rest)"
    by (simp only: find_key_start [OF key] doc option.map list.sel)
  moreover have "after (CHR '':'') (CHR 0x22 # rest) = Some (ws @ quoted v @ post)"
    using after_append [OF mid(1)] by (simp add: rest)
  moreover have "dropWhile isspace (ws @ quoted v @ post) = CHR 0x22 # v @ CHR 0x22 # post"
    using mid(2) by (subst dropWhile_append2) (auto simp: blank_def quoted_def isspace_def)
  ultimately show ?thesis
    using key(1) v by (simp add: extract_json_string_def before_append)
qed

lemma extract_size: "extract_json_string src key n = Some v \<Longrightarrow> 0 < n \<Longrightarrow> length v < n"
  by (auto simp: extract_json_string_def split: option.splits list.splits if_splits)

lemma extract_clean: "extract_json_string src key n = Some v \<Longrightarrow> CHR 0x22 \<notin> set v"
  by (auto simp: extract_json_string_def before_def split: option.splits list.splits if_splits
      dest!: in_set_takeD set_takeWhileD)

lemma extract_no_nul: "extract_json_string (cstr src) key n = Some v \<Longrightarrow> CHR 0x00 \<notin> set v"
proof -
  assume a: "extract_json_string (cstr src) key n = Some v"
  obtain p q c w where e: "find_key key None (cstr src) = Some p"
    "after (CHR '':'') (drop (length key) p) = Some q" "dropWhile isspace q = c # w"
    "v = take (n - 1) (before (CHR 0x22) w)" "key \<noteq> []"
    using a by (auto simp: extract_json_string_def split: option.splits list.splits if_splits)
  have sub: "set p \<subseteq> set s" if "find_key k x s = Some p" for k x s p
    using that
  proof (induction k x s arbitrary: p rule: find_key.induct)
    case (1 k x s)
    then obtain r where r: "strstr s k = Some r" "k \<noteq> []"
      by (auto simp: find_key.simps [of k x s] split: if_splits option.splits)
    then have "set r \<subseteq> set s" using strstr_SomeD by fastforce
    moreover have "set (drop (length k) r) \<subseteq> set r" by (rule set_drop_subset)
    ultimately show ?case
      using 1 r by (subst (asm) (2) find_key.simps) (fastforce simp: Let_def split: if_splits)
  qed
  have "set v \<subseteq> set w" using e(4) set_before [of "CHR 0x22" w] by (auto dest: in_set_takeD)
  also have "\<dots> \<subseteq> set q" using e(3) set_dropWhileD [of _ isspace q] by auto
  also have "\<dots> \<subseteq> set p" using set_after [OF e(2)] set_drop_subset [of "length key" p] by blast
  also have "\<dots> \<subseteq> set (cstr src)" by (rule sub [OF e(1)])
  finally show ?thesis using cstr_no_nul by blast
qed

lemma extract_fits: "extract_json_string (cstr src) key n = Some v \<Longrightarrow> 0 < n \<Longrightarrow> fits n v"
  by (simp add: fits_def extract_no_nul extract_size)

lemma length_rtrim: "length (rtrim s) \<le> length s"
  by (simp add: rtrim_def) (metis length_dropWhile_le length_rev)

lemma set_rtrim: "set (rtrim s) \<subseteq> set s"
  by (auto simp: rtrim_def dest: set_dropWhileD)

lemma last_rtrim: "rtrim s \<noteq> [] \<Longrightarrow> \<not> is_trailer (last (rtrim s))"
  by (simp add: rtrim_def last_rev hd_dropWhile)

lemma rtrim_id: "s = [] \<or> \<not> is_trailer (last s) \<Longrightarrow> rtrim s = s"
  by (cases s rule: rev_cases) (auto simp: rtrim_def)

lemma node_id_file:
  "load_node_id_from_file st file = (rc, st') \<Longrightarrow> rc = 0 \<Longrightarrow>
     node_id st' \<noteq> [] \<and> fits 64 (node_id st') \<and> \<not> is_trailer (last (node_id st'))
     \<and> st' = st\<lparr>node_id := node_id st'\<rparr>"
proof -
  assume l: "load_node_id_from_file st file = (rc, st')" "rc = 0"
  then obtain b li re where f: "file = Some b" "fgets 64 b = Some (li, re)" "rtrim (cstr li) \<noteq> []"
    "st' = st\<lparr>node_id := rtrim (cstr li)\<rparr>"
    by (auto simp: load_node_id_from_file_def Let_def split: option.splits prod.splits if_splits)
  then have "length li \<le> 63"
    using fgets_loop_append [of 63 b li re] by (auto simp: fgets_def split: if_splits)
  moreover have "length (cstr li) \<le> length li" by (simp add: cstr_def length_takeWhile_le)
  ultimately have "length (rtrim (cstr li)) < 64" using length_rtrim [of "cstr li"] by simp
  then show ?thesis
    using f set_rtrim [of "cstr li"] last_rtrim by (auto simp: fits_def)
qed

definition boot_fits :: "ap2p_state \<Rightarrow> bool" where
  "boot_fits st \<longleftrightarrow> fits 256 (bootstrap_mqtt_url st) \<and> fits 256 (bootstrap_mqtt_url_bkp st)
     \<and> fits 64 (bootstrap_mqtt_user st) \<and> fits 64 (bootstrap_mqtt_pass st)"

lemma wf_state_boot:
  "wf_state st \<Longrightarrow> get_str f st' = get_str f st \<Longrightarrow> fits (str_size f) (get_str f st')"
  by (simp add: wf_state_iff)

lemma load_bootstrap_spec:
  assumes "ap2p_state_load_bootstrap st file = (rc, st', marks)" "boot_fits st"
  shows "boot_fits st' \<and> (rc = 0 \<or> rc = -1) \<and> (rc = -1 \<longrightarrow> st' = st \<and> marks = [])
    \<and> (rc = 0 \<longrightarrow> marks = [BT_CONFIG_LOADED]
         \<and> (\<exists>b. file = Some b \<and> extract_json_string (cstr (take 4095 b)) ''mqttUrl'' 256 = Some (bootstrap_mqtt_url st'))
         \<and> st' = st\<lparr>bootstrap_mqtt_url := bootstrap_mqtt_url st', bootstrap_mqtt_url_bkp := bootstrap_mqtt_url_bkp st',
                   bootstrap_mqtt_user := bootstrap_mqtt_user st', bootstrap_mqtt_pass := bootstrap_mqtt_pass st'\<rparr>)"
proof (cases "rc = -1")
  case True
  then show ?thesis using assms
    by (auto simp: ap2p_state_load_bootstrap_def Let_def split: option.splits if_splits)
next
  case False
  then obtain b url where f: "file = Some b" "b \<noteq> []"
    "extract_json_string (cstr (take 4095 b)) ''mqttUrl'' 256 = Some url"
    using assms(1) by (auto simp: ap2p_state_load_bootstrap_def Let_def split: option.splits if_splits)
  define bkp where "bkp = extract_json_string (cstr (take 4095 b)) ''mqttUrl_BKP'' 256"
  define usr where "usr = extract_json_string (cstr (take 4095 b)) ''username'' 64"
  define pwd where "pwd = extract_json_string (cstr (take 4095 b)) ''password'' 64"
  have r: "rc = 0" "marks = [BT_CONFIG_LOADED]"
    "st' = st\<lparr>bootstrap_mqtt_url := bcopy 256 url, bootstrap_mqtt_url_bkp := case_option [] id bkp,
       bootstrap_mqtt_user := case_option (bootstrap_mqtt_user st) id usr,
       bootstrap_mqtt_pass := case_option (bootstrap_mqtt_pass st) id pwd\<rparr>"
    using assms(1) f
    by (auto simp: ap2p_state_load_bootstrap_def Let_def bkp_def [symmetric] usr_def [symmetric]
        pwd_def [symmetric] split: option.splits)
  have "fits 256 url" using extract_fits [OF f(3)] by simp
  moreover have "fits 256 (case_option [] id bkp)"
    using extract_fits [of "take 4095 b" "''mqttUrl_BKP''" 256] by (auto simp: bkp_def split: option.split)
  moreover have "fits 64 (case_option (bootstrap_mqtt_user st) id usr)"
    using extract_fits [of "take 4095 b" "''username''" 64] assms(2)
    by (auto simp: usr_def boot_fits_def split: option.split)
  moreover have "fits 64 (case_option (bootstrap_mqtt_pass st) id pwd)"
    using extract_fits [of "take 4095 b" "''password''" 64] assms(2)
    by (auto simp: pwd_def boot_fits_def split: option.split)
  ultimately show ?thesis using r f by (simp add: boot_fits_def bcopy_idem_fits)
qed

lemma init_boot_fits: "boot_fits ap2p_state_init \<and> wf_state ap2p_state_init"
  by (simp add: boot_fits_def ap2p_state_init_def wf_state_def all_str_fields_def all_int_fields_def
      int_min_def int_max_def)

lemma get_str_boot [simp]:
  "get_str f (st\<lparr>bootstrap_mqtt_url := a\<rparr>) = get_str f st"
  "get_str f (st\<lparr>bootstrap_mqtt_url_bkp := a\<rparr>) = get_str f st"
  "get_str f (st\<lparr>bootstrap_mqtt_user := a\<rparr>) = get_str f st"
  "get_str f (st\<lparr>bootstrap_mqtt_pass := a\<rparr>) = get_str f st"
  by (cases f; simp)+

lemma get_int_boot [simp]:
  "get_int f (st\<lparr>bootstrap_mqtt_url := a\<rparr>) = get_int f st"
  "get_int f (st\<lparr>bootstrap_mqtt_url_bkp := a\<rparr>) = get_int f st"
  "get_int f (st\<lparr>bootstrap_mqtt_user := a\<rparr>) = get_int f st"
  "get_int f (st\<lparr>bootstrap_mqtt_pass := a\<rparr>) = get_int f st"
  "get_int f (st\<lparr>node_id := a\<rparr>) = get_int f st"
  by (cases f; simp)+

text \<open>The state the two threads start from.\<close>

definition start_state :: "ap2p_state \<Rightarrow> bool" where
  "start_state st \<longleftrightarrow> wf_state st \<and> boot_fits st \<and> node_id st \<noteq> [] \<and> \<not> shutdown_flag st
     \<and> \<not> state_ready st \<and> \<not> srt_reload_pending st \<and> ctrl_host st = []"

lemma boot_start_state:
  assumes b: "ap2p_state_load_bootstrap ap2p_state_init cj = (0, st, marks)"
    and n: "load_node_id_from_file st uid = (0, st2)"
  shows "start_state st2"
proof -
  have st: "boot_fits st" "st = ap2p_state_init\<lparr>bootstrap_mqtt_url := bootstrap_mqtt_url st,
      bootstrap_mqtt_url_bkp := bootstrap_mqtt_url_bkp st, bootstrap_mqtt_user := bootstrap_mqtt_user st,
      bootstrap_mqtt_pass := bootstrap_mqtt_pass st\<rparr>"
    using load_bootstrap_spec [OF b] init_boot_fits by auto
  have st2: "node_id st2 \<noteq> []" "fits 64 (node_id st2)" "st2 = st\<lparr>node_id := node_id st2\<rparr>"
    using node_id_file [OF n] by auto
  have "wf_state st"
    using init_boot_fits by (subst st(2)) (simp add: wf_state_iff)
  have fields: "get_str f st2 = (if f = F_node_id then node_id st2 else get_str f st)" for f
    by (subst st2(3), cases f) auto
  have "wf_state st2"
    unfolding wf_state_iff
  proof (intro conjI allI)
    fix f show "fits (str_size f) (get_str f st2)"
      using fields [of f] st2(2) \<open>wf_state st\<close> by (auto simp: wf_state_iff)
  next
    fix f
    have "get_int f st2 = get_int f st" by (subst st2(3)) simp
    then show "int_min \<le> get_int f st2" "get_int f st2 \<le> int_max"
      using \<open>wf_state st\<close> by (auto simp: wf_state_iff)
  qed
  moreover have "boot_fits st2" using st(1) by (subst st2(3)) (simp add: boot_fits_def)
  moreover have "\<not> shutdown_flag st2 \<and> \<not> state_ready st2 \<and> \<not> srt_reload_pending st2 \<and> ctrl_host st2 = []"
    by (subst (1 2 3 4) st2(3), subst (1 2 3 4) st(2)) (simp add: ap2p_state_init_def)
  ultimately show ?thesis using st2(1) by (simp add: start_state_def)
qed

subsection \<open>Properties\<close>

text \<open>
  A lookup in the bootstrap file returns the string after the colon that follows the FIRST place
  where the key stands between quotes, cut to the output buffer.  When the producer wrote the key only
  once that is its value; but a value equal to the key counts as well, and then the string returned is
  the value of whatever member comes next.
\<close>

theorem extract_first_quoted:
  assumes "key \<noteq> []" "CHR 0x22 \<notin> set key" "CHR '':'' \<notin> set mid" "blank ws" "CHR 0x22 \<notin> set v"
    "\<forall>i < length pre. \<not> starts_with (quoted key) (drop i (pre @ quoted key @ mid @ CHR '':'' # ws @ quoted v @ post))"
  shows "extract_json_string (pre @ quoted key @ mid @ CHR '':'' # ws @ quoted v @ post) key n
    = Some (take (n - 1) v)"
  by (rule extract_at_first [OF assms refl])

text \<open>A document whose client id happens to be the word \<open>password\<close>: the user name is returned.\<close>

theorem extract_first_quoted_witness:
  "extract_json_string (CHR ''{'' # quoted ''client'' @ CHR '':'' # quoted ''password'' @ CHR '','' # quoted ''username''
     @ CHR '':'' # quoted ''bob'' @ CHR '','' # quoted ''password'' @ CHR '':'' # quoted ''s3'' @ ''}'') ''password'' 64
   = Some ''bob''"
  using extract_first_quoted [of "''password''" "CHR '','' # quoted ''username''" "[]" "''bob''"
      "CHR ''{'' # quoted ''client'' @ [CHR '':'']"
      "CHR '','' # quoted ''password'' @ CHR '':'' # quoted ''s3'' @ ''}''" 64]
  by (simp add: quoted_def blank_def All_less_Suc starts_with_def)

text \<open>
  Loading \<open>config.json\<close> succeeds exactly when it yields a broker URL; the four broker strings then
  fit their buffers and nothing else of the state changes.  A failed load changes nothing at all.
\<close>

theorem bootstrap_outcome:
  assumes "ap2p_state_load_bootstrap st file = (rc, st', marks)" "boot_fits st"
  shows "boot_fits st' \<and> (rc = 0 \<or> rc = -1) \<and> (rc = -1 \<longrightarrow> st' = st \<and> marks = [])
    \<and> (rc = 0 \<longrightarrow> marks = [BT_CONFIG_LOADED]
         \<and> (\<exists>b. file = Some b \<and> extract_json_string (cstr (take 4095 b)) ''mqttUrl'' 256 = Some (bootstrap_mqtt_url st'))
         \<and> st' = st\<lparr>bootstrap_mqtt_url := bootstrap_mqtt_url st', bootstrap_mqtt_url_bkp := bootstrap_mqtt_url_bkp st',
                   bootstrap_mqtt_user := bootstrap_mqtt_user st', bootstrap_mqtt_pass := bootstrap_mqtt_pass st'\<rparr>)"
  using load_bootstrap_spec [OF assms] .

theorem bootstrap_outcome_witness:
  "boot_fits (fst (snd (ap2p_state_load_bootstrap ap2p_state_init None)))"
  using bootstrap_outcome [of ap2p_state_init None "-1" ap2p_state_init "[]"] init_boot_fits
  by (simp add: ap2p_state_load_bootstrap_def)

text \<open>
  Whatever the two files hold and whichever step fails, \<open>main\<close> starts its threads only on a
  well-formed state with a node id and no control host yet, returns 0 exactly when both threads ran,
  and destroys the state last, after joining every thread it started.
\<close>

theorem main_starts_threads_safely:
  assumes "ap2p_main init_ok cj uid mqtt_ok srt_ok = (rc, ev)"
  shows "(\<forall>st. SpawnMqtt st \<in> set ev \<or> SpawnSrt st \<in> set ev \<longrightarrow> start_state st)
    \<and> (rc = 0 \<longleftrightarrow> (\<exists>st. SpawnSrt st \<in> set ev)) \<and> (init_ok \<longrightarrow> last ev = Destroy)
    \<and> ((\<exists>st. SpawnMqtt st \<in> set ev) \<longrightarrow> JoinMqtt \<in> set (dropWhile (\<lambda>e. e \<noteq> InstallSignals) ev))
    \<and> ((\<exists>st. SpawnSrt st \<in> set ev) \<longrightarrow> JoinSrt \<in> set ev)"
proof (cases "init_ok")
  case False
  then show ?thesis using assms by (auto simp: ap2p_main_def)
next
  case True
  obtain rc1 st marks where b: "ap2p_state_load_bootstrap ap2p_state_init cj = (rc1, st, marks)"
    by (cases "ap2p_state_load_bootstrap ap2p_state_init cj") auto
  show ?thesis
  proof (cases "rc1 = 0")
    case False
    then show ?thesis using assms True b by (auto simp: ap2p_main_def)
  next
    case ok: True
    have "marks = [BT_CONFIG_LOADED]" and st: "st = ap2p_state_init\<lparr>bootstrap_mqtt_url := bootstrap_mqtt_url st,
        bootstrap_mqtt_url_bkp := bootstrap_mqtt_url_bkp st, bootstrap_mqtt_user := bootstrap_mqtt_user st,
        bootstrap_mqtt_pass := bootstrap_mqtt_pass st\<rparr>"
      using load_bootstrap_spec [OF b] init_boot_fits ok by auto
    have "node_id st = []" by (subst st) (simp add: ap2p_state_init_def)
    obtain rc2 st2 where n: "load_node_id_from_file st uid = (rc2, st2)"
      by (cases "load_node_id_from_file st uid")
    show ?thesis
    proof (cases "rc2 = 0")
      case False
      then show ?thesis using assms True b ok n \<open>node_id st = []\<close> by (auto simp: ap2p_main_def Let_def)
    next
      case ok2: True
      have "start_state st2" using boot_start_state b n ok ok2 by simp
      then show ?thesis
        using assms True b ok n ok2 \<open>node_id st = []\<close> \<open>marks = [BT_CONFIG_LOADED]\<close>
        by (auto simp: ap2p_main_def Let_def split: if_splits)
    qed
  qed
qed

definition sample_json :: string where
  "sample_json = ''{'' @ quoted ''mqttUrl'' @ '':'' @ quoted ''tcp://b:1'' @ ''}''"

lemma sample_json_main: "fst (ap2p_main True (Some sample_json) (Some ''CAM1'') True True) = 0"
  by (simp add: ap2p_main_def ap2p_state_load_bootstrap_def extract_json_string_def find_key.simps sample_json_def
      quoted_def cstr_def load_node_id_from_file_def fgets_def rtrim_def is_trailer_def Let_def starts_with_def
      ap2p_state_init_def eval_nat_numeral isspace_def)

theorem main_starts_threads_safely_witness:
  "\<exists>st. SpawnSrt st \<in> set (snd (ap2p_main True (Some sample_json) (Some ''CAM1'') True True)) \<and> start_state st"
proof -
  obtain rc ev where m: "ap2p_main True (Some sample_json) (Some ''CAM1'') True True = (rc, ev)"
    by (cases "ap2p_main True (Some sample_json) (Some ''CAM1'') True True")
  have "rc = 0" using sample_json_main m by simp
  then show ?thesis using main_starts_threads_safely [OF m] m by auto
qed

end
