(* ===== verification/Edge.thy ===== *)
theory Edge
  imports Prelude "HOL-Library.Monad_Syntax"
begin

unbundle bit_operations_syntax

text \<open>
  The edge (STUN) binding client of \<open>edge_lite.h\<close>: the 20-byte Binding Request, the parser of the
  reply and the retry loop, and the choice of the LAN address.  Bytes are \<open>8 word\<close>, the two 16-bit
  fields and the 32-bit address keep their widths.  Every read of the receive buffer goes through
  \<open>rd\<close>, which is \<open>None\<close> outside the bytes \<open>recv\<close> returned, so memory safety is the theorem that
  the parser never returns \<open>None\<close>.
\<close>

type_synonym byte = "8 word"

definition rd :: "byte list \<Rightarrow> nat \<Rightarrow> byte option" where
  "rd buf i = (if i < length buf then Some (buf ! i) else None)"

definition be16 :: "byte \<Rightarrow> byte \<Rightarrow> 16 word" where
  "be16 a b = push_bit 8 (ucast a) OR ucast b"

definition be32 :: "byte \<Rightarrow> byte \<Rightarrow> byte \<Rightarrow> byte \<Rightarrow> 32 word" where
  "be32 a b c d = push_bit 24 (ucast a) OR push_bit 16 (ucast b) OR push_bit 8 (ucast c) OR ucast d"

definition be16_at :: "byte list \<Rightarrow> nat \<Rightarrow> 16 word option" where
  "be16_at buf i = do { a \<leftarrow> rd buf i; b \<leftarrow> rd buf (i + 1); Some (be16 a b) }"

definition be32_at :: "byte list \<Rightarrow> nat \<Rightarrow> 32 word option" where
  "be32_at buf i = do { a \<leftarrow> rd buf i; b \<leftarrow> rd buf (i + 1); c \<leftarrow> rd buf (i + 2); d \<leftarrow> rd buf (i + 3);
     Some (be32 a b c d) }"

text \<open>\<open>n\<close> bytes from index \<open>i\<close> on, each of them a checked read: what \<open>memcmp\<close> looks at.\<close>

fun bytes_at :: "byte list \<Rightarrow> nat \<Rightarrow> nat \<Rightarrow> byte list option" where
  "bytes_at buf i 0 = Some []"
| "bytes_at buf i (Suc n) = do { b \<leftarrow> rd buf i; bs \<leftarrow> bytes_at buf (i + 1) n; Some (b # bs) }"

definition magic_cookie :: "32 word" where
  "magic_cookie = 0x2112A442"

text \<open>\<open>"%u.%u.%u.%u"\<close> of the four bytes, most significant first.\<close>

definition dotted :: "32 word \<Rightarrow> string" where
  "dotted a = show_nat (unat (drop_bit 24 a AND 0xff)) @ ''.''
     @ show_nat (unat (drop_bit 16 a AND 0xff)) @ ''.''
     @ show_nat (unat (drop_bit 8 a AND 0xff)) @ ''.'' @ show_nat (unat (a AND 0xff))"

record binding =
  srflx_ip :: string
  srflx_port :: int

subsection \<open>Request and reply\<close>

definition edge_request :: "byte list \<Rightarrow> byte list" where
  "edge_request txn = [0x00, 0x01, 0x00, 0x00, 0x21, 0x12, 0xa4, 0x42] @ txn"

text \<open>Is the attribute whose value starts at \<open>v\<close> an IPv4 address of the wanted kind?\<close>

definition is_v4_attr :: "byte list \<Rightarrow> nat \<Rightarrow> 16 word \<Rightarrow> 16 word \<Rightarrow> 16 word \<Rightarrow> bool option" where
  "is_v4_attr buf v want atype alen =
     (if atype = want \<and> 8 \<le> unat alen then map_option (\<lambda>b. b = 0x01) (rd buf (v + 1)) else Some False)"

definition xor_mapped :: "byte list \<Rightarrow> nat \<Rightarrow> binding option" where
  "xor_mapped buf v = do {
     xport \<leftarrow> be16_at buf (v + 2);
     xaddr \<leftarrow> be32_at buf (v + 4);
     Some \<lparr>srflx_ip = bcopy 64 (dotted (xaddr XOR magic_cookie)),
           srflx_port = int (unat (xport XOR ucast (drop_bit 16 magic_cookie)))\<rparr> }"

definition plain_mapped :: "byte list \<Rightarrow> nat \<Rightarrow> binding option" where
  "plain_mapped buf v = do {
     mp \<leftarrow> be16_at buf (v + 2);
     addr \<leftarrow> be32_at buf (v + 4);
     Some \<lparr>srflx_ip = bcopy 64 (dotted addr), srflx_port = int (unat mp)\<rparr> }"

text \<open>
  The attribute walk.  \<open>acc\<close> is \<open>out\<close> together with \<open>rc == 0\<close>: a plain mapped address is kept
  while the walk goes on, an XOR-mapped one ends it.  The outer option is the checked reads.
\<close>

function attr_loop :: "byte list \<Rightarrow> nat \<Rightarrow> nat \<Rightarrow> binding option \<Rightarrow> binding option option" where
  "attr_loop buf e off acc =
     (if off + 4 \<le> e then do {
        atype \<leftarrow> be16_at buf off;
        alen \<leftarrow> be16_at buf (off + 2);
        if off + 4 + unat alen > e then Some acc
        else do {
          x \<leftarrow> is_v4_attr buf (off + 4) 0x0020 atype alen;
          if x then map_option Some (xor_mapped buf (off + 4))
          else do {
            m \<leftarrow> is_v4_attr buf (off + 4) 0x0001 atype alen;
            acc' \<leftarrow> (if m then map_option Some (plain_mapped buf (off + 4)) else Some acc);
            attr_loop buf e (off + 4 + unat alen + (4 - unat alen mod 4) mod 4) acc'
          }
        }
      }
      else Some acc)"
  by pat_completeness auto

termination attr_loop
  by (relation "measure (\<lambda>(buf, e, off, acc). Suc e - off)") auto

declare attr_loop.simps [simp del]

text \<open>One received datagram: \<open>Some None\<close> is a reply that is skipped (or holds no address).\<close>

definition edge_parse :: "byte list \<Rightarrow> byte list \<Rightarrow> binding option option" where
  "edge_parse txn buf =
     (if length buf < 20 then Some None
      else do {
        id12 \<leftarrow> bytes_at buf 8 12;
        if id12 \<noteq> txn then Some None
        else do {
          mtype \<leftarrow> be16_at buf 0;
          if mtype \<noteq> 0x0101 then Some None
          else do {
            mlen \<leftarrow> be16_at buf 2;
            attr_loop buf (min (20 + unat mlen) (length buf)) 20 None
          }
        }
      })"

datatype attempt = SendFailed | RecvFailed | Received "byte list"

text \<open>
  \<open>ap2p_edge_get_srflx\<close>: up to \<open>retries + 1\<close> attempts over what the socket does, the first reply that
  yields an address wins; a receive is cut to the 2048-byte buffer.  The outer \<open>None\<close> is again an
  out-of-bounds read; \<open>Some None\<close> is the return value -1.
\<close>

fun edge_attempts :: "byte list \<Rightarrow> attempt list \<Rightarrow> binding option option" where
  "edge_attempts txn [] = Some None"
| "edge_attempts txn (SendFailed # xs) = edge_attempts txn xs"
| "edge_attempts txn (RecvFailed # xs) = edge_attempts txn xs"
| "edge_attempts txn (Received buf # xs) = do {
     r \<leftarrow> edge_parse txn (take 2048 buf);
     case r of None \<Rightarrow> edge_attempts txn xs | Some b \<Rightarrow> Some (Some b) }"

definition edge_get_srflx :: "bool \<Rightarrow> nat \<Rightarrow> byte list \<Rightarrow> attempt list \<Rightarrow> binding option option" where
  "edge_get_srflx resolved retries txn xs =
     (if \<not> resolved then Some None else edge_attempts txn (take (retries + 1) xs))"

subsection \<open>The LAN address\<close>

record ifaddr =
  ifa_has_addr :: bool
  ifa_is_inet :: bool
  ifa_up :: bool
  ifa_loopback :: bool
  ifa_ip :: "32 word"

definition is_link_local :: "32 word \<Rightarrow> bool" where
  "is_link_local a \<longleftrightarrow> a AND 0xffff0000 = 0xa9fe0000"

definition is_loopback_net :: "32 word \<Rightarrow> bool" where
  "is_loopback_net a \<longleftrightarrow> a AND 0xff000000 = 0x7f000000"

definition is_rfc1918 :: "32 word \<Rightarrow> bool" where
  "is_rfc1918 a \<longleftrightarrow> a AND 0xff000000 = 0x0a000000 \<or> a AND 0xfff00000 = 0xac100000
     \<or> a AND 0xffff0000 = 0xc0a80000"

definition lan_candidate :: "ifaddr \<Rightarrow> bool" where
  "lan_candidate p \<longleftrightarrow> ifa_has_addr p \<and> ifa_is_inet p \<and> ifa_up p \<and> \<not> ifa_loopback p
     \<and> \<not> is_link_local (ifa_ip p) \<and> \<not> is_loopback_net (ifa_ip p)"

text \<open>\<open>inet_ntop\<close> leaves the buffer alone when the text does not fit.\<close>

definition inet_ntop :: "nat \<Rightarrow> 32 word \<Rightarrow> string \<Rightarrow> string" where
  "inet_ntop cap a old = (if length (dotted a) < cap then dotted a else old)"

fun lan_loop :: "nat \<Rightarrow> bool \<Rightarrow> string \<Rightarrow> ifaddr list \<Rightarrow> bool \<times> string" where
  "lan_loop cap found out [] = (found, out)"
| "lan_loop cap found out (p # ps) =
     (if \<not> lan_candidate p then lan_loop cap found out ps
      else if \<not> found \<or> is_rfc1918 (ifa_ip p)
      then (let out' = inet_ntop cap (ifa_ip p) out in
            if is_rfc1918 (ifa_ip p) then (True, out') else lan_loop cap True out' ps)
      else lan_loop cap found out ps)"

definition edge_get_lan_ip :: "nat \<Rightarrow> ifaddr list option \<Rightarrow> int \<times> string" where
  "edge_get_lan_ip cap ifs =
     (if cap < 8 then (-1, [])
      else case ifs of
        None \<Rightarrow> (-1, [])
      | Some ps \<Rightarrow> (let (found, out) = lan_loop cap False [] ps in (if found then 0 else -1, out)))"

subsection \<open>Reads stay inside the datagram\<close>

lemma rd_Some [simp]: "i < length buf \<Longrightarrow> rd buf i = Some (buf ! i)"
  by (simp add: rd_def)

lemma bytes_at_Some: "i + n \<le> length buf \<Longrightarrow> bytes_at buf i n = Some (take n (drop i buf))"
  by (induction n arbitrary: i) (simp_all add: Cons_nth_drop_Suc [symmetric])

lemma be16_at_Some: "i + 2 \<le> length buf \<Longrightarrow> be16_at buf i = Some (be16 (buf ! i) (buf ! (i + 1)))"
  by (simp add: be16_at_def)

lemma be32_at_Some: "i + 4 \<le> length buf \<Longrightarrow> \<exists>w. be32_at buf i = Some w"
  by (simp add: be32_at_def)

lemma mapped_reads:
  "v + 8 \<le> length buf \<Longrightarrow> (\<exists>b. xor_mapped buf v = Some b) \<and> (\<exists>b. plain_mapped buf v = Some b)"
  using be32_at_Some [of "v + 4" buf]
  by (auto simp: xor_mapped_def plain_mapped_def be16_at_Some)

lemma is_v4_attr_Some:
  "8 \<le> unat alen \<longrightarrow> v + 8 \<le> length buf \<Longrightarrow> \<exists>x. is_v4_attr buf v want atype alen = Some x"
  by (auto simp: is_v4_attr_def)

lemma attr_loop_safe: "e \<le> length buf \<Longrightarrow> attr_loop buf e off acc \<noteq> None"
proof (induction buf e off acc rule: attr_loop.induct)
  case (1 buf e off acc)
  show ?case
  proof (cases "off + 4 \<le> e")
    case True
    then obtain atype alen where at: "be16_at buf off = Some atype" "be16_at buf (off + 2) = Some alen"
      using "1.prems" by (simp add: be16_at_Some)
    show ?thesis
    proof (cases "off + 4 + unat alen > e")
      case False
      then have fit: "off + 4 + 8 \<le> length buf" if "8 \<le> unat alen" using that "1.prems" by simp
      obtain x where x: "is_v4_attr buf (off + 4) 0x0020 atype alen = Some x"
        using is_v4_attr_Some [of alen "off + 4" buf] fit by blast
      obtain m where m: "is_v4_attr buf (off + 4) 0x0001 atype alen = Some m"
        using is_v4_attr_Some [of alen "off + 4" buf] fit by blast
      have reads: "\<exists>b. xor_mapped buf (off + 4) = Some b" "\<exists>b. plain_mapped buf (off + 4) = Some b"
        if "x \<or> m"
        using that x m fit mapped_reads [of "off + 4" buf]
        by (auto simp: is_v4_attr_def split: if_splits)
      have "\<exists>acc'. (if m then map_option Some (plain_mapped buf (off + 4)) else Some acc) = Some acc'"
        using reads by (cases m) auto
      then obtain acc' where
        acc': "(if m then map_option Some (plain_mapped buf (off + 4)) else Some acc) = Some acc'"
        by blast
      show ?thesis
        using "1.IH" [OF True at False x _ m acc'] "1.prems" True at False x m acc' reads
        by (subst attr_loop.simps) auto
    qed (use True at in \<open>simp add: attr_loop.simps\<close>)
  qed (simp add: attr_loop.simps)
qed

lemma edge_parse_safe: "edge_parse txn buf \<noteq> None"
  using attr_loop_safe by (simp add: edge_parse_def be16_at_Some bytes_at_Some)

subsection \<open>A server's reply\<close>

definition enc16 :: "16 word \<Rightarrow> byte list" where
  "enc16 w = [ucast (drop_bit 8 w), ucast w]"

definition enc32 :: "32 word \<Rightarrow> byte list" where
  "enc32 w = [ucast (drop_bit 24 w), ucast (drop_bit 16 w), ucast (drop_bit 8 w), ucast w]"

text \<open>An attribute with its padding, and a success reply, as RFC 5389 lays them out.\<close>

definition stun_attr :: "16 word \<Rightarrow> byte list \<Rightarrow> byte list" where
  "stun_attr ty val = enc16 ty @ enc16 (of_nat (length val)) @ val
     @ replicate ((4 - length val mod 4) mod 4) 0"

definition stun_reply :: "byte list \<Rightarrow> byte list \<Rightarrow> byte list" where
  "stun_reply txn body = enc16 0x0101 @ enc16 (of_nat (length body)) @ enc32 magic_cookie @ txn @ body"

definition xor_attr :: "32 word \<Rightarrow> 16 word \<Rightarrow> byte list" where
  "xor_attr ip port = stun_attr 0x0020
     ([0x00, 0x01] @ enc16 (port XOR ucast (drop_bit 16 magic_cookie)) @ enc32 (ip XOR magic_cookie))"

lemma length_enc [simp]: "length (enc16 w) = 2" "length (enc32 u) = 4"
  by (simp_all add: enc16_def enc32_def)

lemma be16_enc16: "be16 (ucast (drop_bit 8 w)) (ucast (w :: 16 word)) = w"
  unfolding be16_def
  by (rule bit_word_eqI) (auto simp: bit_simps)

lemma be32_enc32:
  "be32 (ucast (drop_bit 24 w)) (ucast (drop_bit 16 w)) (ucast (drop_bit 8 w)) (ucast (w :: 32 word)) = w"
proof (rule bit_word_eqI)
  fix n assume "n < LENGTH(32)"
  then consider "n < 8" | "8 \<le> n" "n < 16" | "16 \<le> n" "n < 24" | "24 \<le> n" "n < 32" by force
  then show "bit (be32 (ucast (drop_bit 24 w)) (ucast (drop_bit 16 w)) (ucast (drop_bit 8 w)) (ucast w)) n
      = bit w n"
    by cases (auto simp: be32_def bit_simps)
qed

lemma be16_at_enc16: "i = length h \<Longrightarrow> be16_at (h @ enc16 w @ t) i = Some w"
  by (simp add: be16_at_def rd_def nth_append enc16_def be16_enc16)

lemma be32_at_enc32: "i = length h \<Longrightarrow> be32_at (h @ enc32 w @ t) i = Some w"
  by (simp add: be32_at_def rd_def nth_append enc32_def be32_enc32)

lemma unat_of_nat16: "n < 65536 \<Longrightarrow> unat (of_nat n :: 16 word) = n"
  by (simp add: unat_of_nat)

lemma length_stun_attr:
  "length (stun_attr ty val) = 4 + length val + (4 - length val mod 4) mod 4"
  by (simp add: stun_attr_def)

text \<open>An attribute of another type is walked over.\<close>

lemma attr_loop_skip:
  assumes buf: "buf = h @ stun_attr ty val @ t" and val: "length val < 65536" and ty: "ty \<noteq> 0x0020"
    and e: "length h + length (stun_attr ty val) \<le> e" "e \<le> length buf"
  shows "\<exists>acc'. attr_loop buf e (length h) acc = attr_loop buf e (length h + length (stun_attr ty val)) acc'"
proof -
  let ?off = "length h" and ?alen = "of_nat (length val) :: 16 word"
  have at: "be16_at buf ?off = Some ty"
    using buf by (simp add: stun_attr_def be16_at_enc16)
  have "be16_at ((h @ enc16 ty) @ enc16 ?alen @ val @ replicate ((4 - length val mod 4) mod 4) 0 @ t)
          (?off + 2) = Some ?alen"
    by (rule be16_at_enc16) simp
  then have al: "be16_at buf (?off + 2) = Some ?alen"
    using buf by (simp add: stun_attr_def)
  have fit: "\<not> ?off + 4 + length val > e"
    using e(1) by (simp add: length_stun_attr)
  have x: "is_v4_attr buf (?off + 4) 0x0020 ty ?alen = Some False"
    using ty by (simp add: is_v4_attr_def)
  obtain m where m: "is_v4_attr buf (?off + 4) 0x0001 ty ?alen = Some m"
    using is_v4_attr_Some [of ?alen "?off + 4" buf] fit e val by (auto simp: unat_of_nat16)
  obtain acc' where acc': "(if m then map_option Some (plain_mapped buf (?off + 4)) else Some acc) = Some acc'"
    using m mapped_reads [of "?off + 4" buf] fit e val
    by (auto simp: is_v4_attr_def unat_of_nat16 split: if_splits)
  have "attr_loop buf e ?off acc = attr_loop buf e (?off + length (stun_attr ty val)) acc'"
    using at al x m acc' fit e(1) val
    by (subst attr_loop.simps) (simp add: unat_of_nat16 length_stun_attr add.assoc)
  then show ?thesis by blast
qed

lemma attr_loop_xor:
  assumes buf: "buf = h @ xor_attr ip port @ t" and e: "length h + length (xor_attr ip port) \<le> e"
  shows "attr_loop buf e (length h) acc
    = Some (Some \<lparr>srflx_ip = bcopy 64 (dotted ip), srflx_port = int (unat port)\<rparr>)"
proof -
  let ?c = "ucast (drop_bit 16 magic_cookie) :: 16 word"
  let ?v = "[0x00, 0x01] @ enc16 (port XOR ?c) @ enc32 (ip XOR magic_cookie)"
  let ?off = "length h"
  have b: "buf = h @ enc16 0x0020 @ enc16 8 @ [0x00, 0x01] @ enc16 (port XOR ?c)
             @ enc32 (ip XOR magic_cookie) @ t"
    using buf by (simp add: xor_attr_def stun_attr_def)
  have len: "length (xor_attr ip port) = 12" by (simp add: xor_attr_def length_stun_attr)
  have "be16_at buf ?off = Some 0x0020" unfolding b by (rule be16_at_enc16) simp
  moreover have "be16_at ((h @ enc16 0x0020) @ enc16 8 @ [0x00, 0x01] @ enc16 (port XOR ?c)
      @ enc32 (ip XOR magic_cookie) @ t) (?off + 2) = Some 8"
    by (rule be16_at_enc16) simp
  then have "be16_at buf (?off + 2) = Some 8" by (simp add: b)
  moreover have x: "is_v4_attr buf (?off + 4) 0x0020 0x0020 8 = Some True"
    by (simp add: is_v4_attr_def b rd_def nth_append enc16_def)
  moreover have "xor_mapped buf (?off + 4)
      = Some \<lparr>srflx_ip = bcopy 64 (dotted ip), srflx_port = int (unat port)\<rparr>"
  proof -
    have "be16_at ((h @ enc16 0x0020 @ enc16 8 @ [0x00, 0x01]) @ enc16 (port XOR ?c)
        @ enc32 (ip XOR magic_cookie) @ t) (?off + 4 + 2) = Some (port XOR ?c)"
      by (rule be16_at_enc16) simp
    moreover have "be32_at ((h @ enc16 0x0020 @ enc16 8 @ [0x00, 0x01] @ enc16 (port XOR ?c))
        @ enc32 (ip XOR magic_cookie) @ t) (?off + 4 + 4) = Some (ip XOR magic_cookie)"
      by (rule be32_at_enc32) simp
    ultimately have "be16_at buf (?off + 4 + 2) = Some (port XOR ?c)"
      "be32_at buf (?off + 4 + 4) = Some (ip XOR magic_cookie)"
      by (simp_all add: b)
    then show ?thesis by (simp add: xor_mapped_def xor.assoc)
  qed
  ultimately show ?thesis
    using e len by (subst attr_loop.simps) simp
qed

text \<open>Walking over any number of foreign attributes.\<close>

definition foreign_attrs :: "(16 word \<times> byte list) list \<Rightarrow> bool" where
  "foreign_attrs as \<longleftrightarrow> list_all (\<lambda>(ty, val). ty \<noteq> 0x0020 \<and> length val < 65536) as"

definition enc_attrs :: "(16 word \<times> byte list) list \<Rightarrow> byte list" where
  "enc_attrs as = concat (map (\<lambda>(ty, val). stun_attr ty val) as)"

lemma attr_loop_foreign:
  assumes "buf = h @ enc_attrs as @ t" "foreign_attrs as" "length h + length (enc_attrs as) \<le> e"
    "e \<le> length buf"
  shows "\<exists>acc'. attr_loop buf e (length h) acc = attr_loop buf e (length h + length (enc_attrs as)) acc'"
  using assms
proof (induction as arbitrary: h acc)
  case (Cons a as)
  obtain ty val where a: "a = (ty, val)" by (cases a)
  let ?h = "h @ stun_attr ty val"
  have ea: "enc_attrs (a # as) = stun_attr ty val @ enc_attrs as" by (simp add: enc_attrs_def a)
  obtain acc1 where 1: "attr_loop buf e (length h) acc = attr_loop buf e (length ?h) acc1"
    using attr_loop_skip [of buf h ty val "enc_attrs as @ t" e acc] Cons.prems a ea
    by (auto simp: foreign_attrs_def)
  have "\<exists>acc'. attr_loop buf e (length ?h) acc1 = attr_loop buf e (length ?h + length (enc_attrs as)) acc'"
    by (rule Cons.IH) (use Cons.prems ea in \<open>auto simp: foreign_attrs_def\<close>)
  then show ?case using 1 ea by (simp add: add.assoc)
qed (auto simp: enc_attrs_def)

lemma edge_parse_reply:
  assumes txn: "length txn = 12" and body: "length body < 65536"
  shows "edge_parse txn (stun_reply txn body)
    = attr_loop (stun_reply txn body) (20 + length body) 20 None"
proof -
  let ?b = "stun_reply txn body"
  have "be16_at ([] @ enc16 0x0101 @ enc16 (of_nat (length body)) @ enc32 magic_cookie @ txn @ body) 0
      = Some 0x0101"
    by (rule be16_at_enc16) simp
  then have t: "be16_at ?b 0 = Some 0x0101" by (simp add: stun_reply_def)
  have "be16_at (enc16 0x0101 @ enc16 (of_nat (length body)) @ enc32 magic_cookie @ txn @ body) 2
      = Some (of_nat (length body))"
    by (rule be16_at_enc16) simp
  then have l: "be16_at ?b 2 = Some (of_nat (length body))" by (simp add: stun_reply_def)
  have "length ?b = 20 + length body" "take 12 (drop 8 ?b) = txn"
    using txn by (simp_all add: stun_reply_def)
  then show ?thesis using t l body by (simp add: edge_parse_def unat_of_nat16 bytes_at_Some)
qed

lemma unat_and_ff: "unat (w AND 0xff :: 32 word) < 10 ^ 3"
proof -
  have "w AND 0xff \<le> 0xff" by (rule word_and_le1)
  then have "unat (w AND 0xff) \<le> unat (0xff :: 32 word)" by (rule word_le_nat_alt [THEN iffD1])
  then show ?thesis by simp
qed

lemma length_dotted: "length (dotted a) \<le> 15"
  using length_show_nat_le [OF unat_and_ff, of "drop_bit 24 a"]
    length_show_nat_le [OF unat_and_ff, of "drop_bit 16 a"]
    length_show_nat_le [OF unat_and_ff, of "drop_bit 8 a"] length_show_nat_le [OF unat_and_ff, of a]
  by (simp add: dotted_def)

lemma bcopy_dotted [simp]: "bcopy 64 (dotted a) = dotted a"
  using length_dotted [of a] by (simp add: bcopy_def)

lemma inet_ntop_fits [simp]: "16 \<le> cap \<Longrightarrow> inet_ntop cap a old = dotted a"
  using length_dotted [of a] by (simp add: inet_ntop_def)

lemma lan_loop_found:
  "16 \<le> cap \<Longrightarrow> lan_loop cap True out ps
   = (True, case filter (\<lambda>p. lan_candidate p \<and> is_rfc1918 (ifa_ip p)) ps of
              [] \<Rightarrow> out | p # _ \<Rightarrow> dotted (ifa_ip p))"
  by (induction ps) auto

lemma lan_loop_not_found:
  "16 \<le> cap \<Longrightarrow> lan_loop cap False out ps
   = (case filter lan_candidate ps of
        [] \<Rightarrow> (False, out)
      | q # _ \<Rightarrow> (True, case filter (\<lambda>p. lan_candidate p \<and> is_rfc1918 (ifa_ip p)) ps of
                          [] \<Rightarrow> dotted (ifa_ip q) | p # _ \<Rightarrow> dotted (ifa_ip p)))"
  by (induction ps) (auto simp: lan_loop_found split: list.splits)

text \<open>Every address the walk yields fits its buffer, and every port its 16 bits.\<close>

definition binding_fits :: "binding \<Rightarrow> bool" where
  "binding_fits b \<longleftrightarrow> length (srflx_ip b) < 64 \<and> 0 \<le> srflx_port b \<and> srflx_port b \<le> 65535"

lemma mapped_fits:
  "xor_mapped buf v = Some b \<Longrightarrow> binding_fits b"
  "plain_mapped buf v = Some b \<Longrightarrow> binding_fits b"
proof -
  have port: "uint (w :: 16 word) \<le> 65535" for w using unsigned_less [of w, where ?'a = int] by simp
  have ip: "length (dotted a) < 64" for a using length_dotted [of a] by simp
  show "xor_mapped buf v = Some b \<Longrightarrow> binding_fits b"
    using port ip by (auto simp: xor_mapped_def binding_fits_def bind_eq_Some_conv)
  show "plain_mapped buf v = Some b \<Longrightarrow> binding_fits b"
    using port ip by (auto simp: plain_mapped_def binding_fits_def bind_eq_Some_conv)
qed

lemma attr_loop_fits:
  "attr_loop buf e off acc = Some (Some b) \<Longrightarrow> \<forall>a. acc = Some a \<longrightarrow> binding_fits a \<Longrightarrow> binding_fits b"
proof (induction buf e off acc rule: attr_loop.induct)
  case (1 buf e off acc)
  show ?case
  proof (cases "off + 4 \<le> e")
    case True
    then obtain atype alen where at: "be16_at buf off = Some atype" "be16_at buf (off + 2) = Some alen"
      using "1.prems"(1) by (subst (asm) attr_loop.simps) (auto simp: bind_eq_Some_conv)
    show ?thesis
    proof (cases "off + 4 + unat alen > e")
      case False
      then obtain x where x: "is_v4_attr buf (off + 4) 0x0020 atype alen = Some x"
        using "1.prems"(1) True at by (subst (asm) attr_loop.simps) (auto simp: bind_eq_Some_conv)
      show ?thesis
      proof (cases x)
        case xt: True
        then show ?thesis
          using "1.prems"(1) True False at x mapped_fits(1)
          by (subst (asm) attr_loop.simps) auto
      next
        case xf: False
        then obtain m acc' where m: "is_v4_attr buf (off + 4) 0x0001 atype alen = Some m"
          and acc': "(if m then map_option Some (plain_mapped buf (off + 4)) else Some acc) = Some acc'"
          and rest: "attr_loop buf e (off + 4 + unat alen + (4 - unat alen mod 4) mod 4) acc' = Some (Some b)"
          using "1.prems"(1) True False at x
          by (subst (asm) attr_loop.simps) (auto simp: bind_eq_Some_conv)
        have "\<forall>a. acc' = Some a \<longrightarrow> binding_fits a"
          using acc' "1.prems"(2) mapped_fits(2) by (cases m) auto
        then show ?thesis
          using "1.IH" [OF True at False x _ m acc' rest] xf by simp
      qed
    qed (use True at "1.prems" in \<open>simp add: attr_loop.simps\<close>)
  qed (use "1.prems" in \<open>simp add: attr_loop.simps\<close>)
qed

subsection \<open>Properties\<close>

text \<open>C28. Memory safety: whatever datagram arrives, with whatever lengths inside, the parser reads no
  byte outside what \<open>recv\<close> returned (the twelve bytes of the transaction id, the header fields and
  every attribute are checked reads), and neither does the whole retry loop.\<close>

theorem edge_reads_in_bounds:
  "edge_parse txn buf \<noteq> None \<and> edge_get_srflx resolved retries txn xs \<noteq> None"
proof -
  have "edge_attempts txn xs \<noteq> None" for xs
  proof (induction txn xs rule: edge_attempts.induct)
    case (4 txn buf xs)
    show ?case
      using edge_parse_safe [of txn "take 2048 buf"] 4
      by (cases "edge_parse txn (take 2048 buf)") (auto split: option.split)
  qed auto
  then show ?thesis using edge_parse_safe by (simp add: edge_get_srflx_def)
qed

text \<open>C29. Round trip: a binding reply to our transaction that carries an XOR-MAPPED-ADDRESS, after any
  attributes of other types (a plain MAPPED-ADDRESS among them) and before anything, yields exactly the
  address and port that the server encoded.\<close>

theorem edge_reply_roundtrip:
  assumes "length txn = 12" "foreign_attrs as"
    "length (enc_attrs as @ xor_attr ip port @ post) < 65536"
  shows "edge_parse txn (stun_reply txn (enc_attrs as @ xor_attr ip port @ post))
    = Some (Some \<lparr>srflx_ip = dotted ip, srflx_port = int (unat port)\<rparr>)"
proof -
  let ?body = "enc_attrs as @ xor_attr ip port @ post"
  let ?b = "stun_reply txn ?body" and ?e = "20 + length (enc_attrs as @ xor_attr ip port @ post)"
  let ?h = "enc16 0x0101 @ enc16 (of_nat (length ?body)) @ enc32 magic_cookie @ txn"
  have b: "?b = ?h @ enc_attrs as @ xor_attr ip port @ post" by (simp add: stun_reply_def)
  have h: "length ?h = 20" "length ?b = ?e" using assms(1) by (simp_all add: stun_reply_def)
  obtain acc where "attr_loop ?b ?e (length ?h) None
      = attr_loop ?b ?e (length ?h + length (enc_attrs as)) acc"
    using attr_loop_foreign [OF b assms(2), of ?e None] h by auto
  moreover have "attr_loop ?b ?e (length (?h @ enc_attrs as)) acc
      = Some (Some \<lparr>srflx_ip = bcopy 64 (dotted ip), srflx_port = int (unat port)\<rparr>)"
    by (rule attr_loop_xor) (use b h in auto)
  ultimately show ?thesis
    using edge_parse_reply [OF assms(1,3)] h by simp
qed

theorem edge_reply_roundtrip_witness:
  "edge_parse [1,2,3,4,5,6,7,8,9,10,11,12] (stun_reply [1,2,3,4,5,6,7,8,9,10,11,12]
     (enc_attrs [(0x8022, [65, 66, 67]), (0x0001, [0, 1, 0, 80, 10, 0, 0, 1])]
       @ xor_attr 0xC0A80105 50000 @ [])) = Some (Some \<lparr>srflx_ip = ''192.168.1.5'', srflx_port = 50000\<rparr>)"
proof -
  have "dotted 0xC0A80105 = ''192.168.1.5''" by (simp add: dotted_def show_nat.simps)
  then show ?thesis
    using edge_reply_roundtrip [of "[1,2,3,4,5,6,7,8,9,10,11,12]"
        "[(0x8022, [65, 66, 67]), (0x0001, [0, 1, 0, 80, 10, 0, 0, 1])]" "0xC0A80105" 50000 "[]"]
    by (simp add: foreign_attrs_def enc_attrs_def xor_attr_def length_stun_attr)
qed

text \<open>C30. Anti-spoofing: an address is only ever taken from one of the first \<open>retries + 1\<close> receives, from
  a datagram of at least 20 bytes that is a binding success and repeats our transaction id; and its
  text fits the 64-byte buffer with the terminator, its port lies between 0 and 65535.\<close>

theorem edge_answer_authentic:
  assumes "edge_get_srflx resolved retries txn xs = Some (Some b)"
  shows "resolved \<and> (\<exists>buf. Received buf \<in> set (take (retries + 1) xs)
    \<and> edge_parse txn (take 2048 buf) = Some (Some b)
    \<and> 20 \<le> length buf \<and> take 12 (drop 8 buf) = txn \<and> be16 (buf ! 0) (buf ! 1) = 0x0101)
    \<and> length (srflx_ip b) < 64 \<and> 0 \<le> srflx_port b \<and> srflx_port b \<le> 65535"
proof -
  have attempts: "\<exists>buf. Received buf \<in> set ys \<and> edge_parse txn (take 2048 buf) = Some (Some b)"
    if "edge_attempts txn ys = Some (Some b)" for ys
    using that
  proof (induction txn ys rule: edge_attempts.induct)
    case (4 txn buf xs)
    obtain r where r: "edge_parse txn (take 2048 buf) = Some r"
      using "4.prems" by (auto simp: bind_eq_Some_conv)
    then show ?case using 4 by (cases r) auto
  qed auto
  have r: "resolved" "edge_attempts txn (take (retries + 1) xs) = Some (Some b)"
    using assms by (auto simp: edge_get_srflx_def split: if_splits)
  obtain buf where b: "Received buf \<in> set (take (retries + 1) xs)"
    "edge_parse txn (take 2048 buf) = Some (Some b)"
    using attempts [OF r(2)] by blast
  let ?t = "take 2048 buf"
  have "20 \<le> length ?t" "take 12 (drop 8 ?t) = txn" "be16 (?t ! 0) (?t ! 1) = 0x0101"
    using b(2) by (auto simp: edge_parse_def be16_at_Some bytes_at_Some split: if_splits)
  moreover have "binding_fits b"
    using b(2) attr_loop_fits [of ?t _ 20 None]
    by (auto simp: edge_parse_def be16_at_Some bytes_at_Some split: if_splits)
  ultimately show ?thesis using r b by (auto simp: drop_take take_take binding_fits_def)
qed

theorem edge_answer_authentic_witness:
  "\<exists>buf. Received buf \<in> set [SendFailed, Received (stun_reply [1,2,3,4,5,6,7,8,9,10,11,12] (xor_attr 7 80))]
     \<and> take 12 (drop 8 buf) = [1,2,3,4,5,6,7,8,9,10,11,12]"
proof -
  let ?txn = "[1,2,3,4,5,6,7,8,9,10,11,12] :: byte list"
  let ?xs = "[SendFailed, Received (stun_reply ?txn (xor_attr 7 80))]"
  have len: "length (stun_reply ?txn (xor_attr 7 80)) = 32"
    by (simp add: stun_reply_def xor_attr_def length_stun_attr)
  have "edge_parse ?txn (stun_reply ?txn (xor_attr 7 80))
      = Some (Some \<lparr>srflx_ip = dotted 7, srflx_port = 80\<rparr>)"
    using edge_reply_roundtrip [of ?txn "[]" 7 80 "[]"]
    by (simp add: foreign_attrs_def enc_attrs_def xor_attr_def length_stun_attr)
  then have "edge_get_srflx True 2 ?txn ?xs = Some (Some \<lparr>srflx_ip = dotted 7, srflx_port = 80\<rparr>)"
    using len by (simp add: edge_get_srflx_def)
  from edge_answer_authentic [OF this] show ?thesis by auto
qed

text \<open>The LAN address: among the interfaces that are up, IPv4, not loopback and not link-local, the
  first private (RFC 1918) one if there is any, else the first one, else an error.\<close>

theorem lan_ip_choice:
  assumes "16 \<le> cap"
  shows "edge_get_lan_ip cap (Some ps) =
    (case filter (\<lambda>p. lan_candidate p \<and> is_rfc1918 (ifa_ip p)) ps @ filter lan_candidate ps of
       [] \<Rightarrow> (-1, []) | p # _ \<Rightarrow> (0, dotted (ifa_ip p)))"
proof -
  have "filter lan_candidate ps = [] \<Longrightarrow> filter (\<lambda>p. lan_candidate p \<and> is_rfc1918 (ifa_ip p)) ps = []"
    by (auto simp: filter_empty_conv)
  then show ?thesis
    using assms
    by (cases "filter (\<lambda>p. lan_candidate p \<and> is_rfc1918 (ifa_ip p)) ps")
      (auto simp: edge_get_lan_ip_def lan_loop_not_found split: list.split)
qed

definition sample_ifs :: "ifaddr list" where
  "sample_ifs = map (\<lambda>(up, lo, ip). \<lparr>ifa_has_addr = True, ifa_is_inet = True, ifa_up = up,
     ifa_loopback = lo, ifa_ip = ip\<rparr>)
   [(True, True, 0x7f000001), (True, False, 0xa9fe0101), (True, False, 0x08080808),
    (False, False, 0x0a000001), (True, False, 0xac1f0001)]"

theorem lan_ip_choice_witness: "edge_get_lan_ip 64 (Some sample_ifs) = (0, ''172.31.0.1'')"
proof -
  have "dotted 0xac1f0001 = ''172.31.0.1''" by (simp add: dotted_def show_nat.simps)
  then show ?thesis
    using lan_ip_choice [of 64 sample_ifs]
    by (simp add: sample_ifs_def lan_candidate_def is_rfc1918_def is_link_local_def is_loopback_net_def)
qed

end
