(* ===== verification/Ctrl.thy ===== *)
theory Ctrl
  imports Prelude
begin

text \<open>
  The control-plane protocol of \<open>srt_thread.c\<close>: messages of \<open>key=value\<close> lines behind a 4-byte
  big-endian length, over a TCP socket.  A socket's input is the list of segments that successive
  \<open>recv\<close> calls can return (an exhausted list or an empty segment is the end of the connection), its
  output side the list of byte counts that successive \<open>send\<close> calls accept.  \<open>None\<close> is the return
  value -1.
\<close>

subsection \<open>Reading and writing whole blocks\<close>

fun ctrl_read_all :: "string list \<Rightarrow> nat \<Rightarrow> (string \<times> string list) option" where
  "ctrl_read_all segs 0 = Some ([], segs)"
| "ctrl_read_all [] (Suc n) = None"
| "ctrl_read_all (seg # segs) (Suc n) =
     (if seg = [] then None
      else if length seg \<le> Suc n
      then map_option (\<lambda>(r, rest). (seg @ r, rest)) (ctrl_read_all segs (Suc n - length seg))
      else Some (take (Suc n) seg, drop (Suc n) seg # segs))"

text \<open>The bytes that reached the peer, and whether all of them did; \<open>acc\<close> lists what each \<open>send\<close> takes.\<close>

fun ctrl_write_all :: "nat list \<Rightarrow> string \<Rightarrow> string \<times> nat list option" where
  "ctrl_write_all acc [] = ([], Some acc)"
| "ctrl_write_all [] (c # cs) = ([], None)"
| "ctrl_write_all (k # acc) (c # cs) =
     (if k = 0 then ([], None)
      else let (w, r) = ctrl_write_all acc (drop k (c # cs)) in (take k (c # cs) @ w, r))"

definition htonl_bytes :: "nat \<Rightarrow> string" where
  "htonl_bytes n = map (\<lambda>i. char_of (n div 256 ^ i mod 256)) [3, 2, 1, 0]"

definition ntohl_bytes :: "string \<Rightarrow> nat" where
  "ntohl_bytes s = foldl (\<lambda>a c. a * 256 + of_char c) 0 s"

text \<open>The length field is \<open>uint32_t\<close>; a short write of the header ends the send.\<close>

definition ctrl_send :: "nat list \<Rightarrow> string \<Rightarrow> string \<times> nat list option" where
  "ctrl_send acc msg =
     (case ctrl_write_all acc (htonl_bytes (length msg mod 2 ^ 32)) of
        (w, None) \<Rightarrow> (w, None)
      | (w, Some acc') \<Rightarrow> (let (w', r) = ctrl_write_all acc' msg in (w @ w', r)))"

definition ctrl_recv :: "string list \<Rightarrow> nat \<Rightarrow> (string \<times> string list) option" where
  "ctrl_recv segs cap =
     (case ctrl_read_all segs 4 of
        None \<Rightarrow> None
      | Some (hdr, segs') \<Rightarrow>
          (let len = ntohl_bytes hdr in
           if len \<ge> cap then None else ctrl_read_all segs' len))"

text \<open>
  \<open>ctrl_recv_timed\<close> over what \<open>poll\<close> reports.  The C result is the message length, 0 after a timeout
  or an interrupted poll, and -1: here \<open>Some\<close> of the message (empty for 0), or \<open>None\<close>.
\<close>

datatype poll_result = PollError | PollInterrupted | PollTimeout | PollHangup | PollReadable

definition ctrl_recv_timed ::
    "poll_result \<Rightarrow> string list \<Rightarrow> nat \<Rightarrow> (string \<times> string list) option" where
  "ctrl_recv_timed pr segs cap =
     (case pr of
        PollError \<Rightarrow> None
      | PollInterrupted \<Rightarrow> Some ([], segs)
      | PollTimeout \<Rightarrow> Some ([], segs)
      | PollHangup \<Rightarrow> None
      | PollReadable \<Rightarrow> ctrl_recv segs cap)"

subsection \<open>Key lookup\<close>

text \<open>\<open>kv_get\<close> with the loop over lines; a value is cut to the caller's buffer of \<open>cap\<close> bytes.\<close>

definition kv_match :: "string \<Rightarrow> string \<Rightarrow> bool" where
  "kv_match key line \<longleftrightarrow> length line > length key + 1 \<and> starts_with key line
     \<and> line ! length key = CHR ''=''"

function kv_loop :: "string \<Rightarrow> string \<Rightarrow> nat \<Rightarrow> string option" where
  "kv_loop p key cap =
     (if p = [] then None
      else let line = before (CHR 0x0A) p in
        if kv_match key line then Some (bcopy cap (drop (length key + 1) line))
        else case after (CHR 0x0A) p of
          None \<Rightarrow> None
        | Some rest \<Rightarrow> kv_loop rest key cap)"
  by pat_completeness auto

lemma length_after: "after c s = Some t \<Longrightarrow> length t < length s"
  by (induction s) (auto split: if_splits)

termination kv_loop
  by (relation "measure (\<lambda>(p, key, cap). length p)") (auto dest: length_after)

declare kv_loop.simps [simp del]

definition kv_get :: "string \<Rightarrow> string \<Rightarrow> nat \<Rightarrow> int \<times> string" where
  "kv_get msg key cap =
     (case kv_loop (cstr msg) key cap of None \<Rightarrow> (-1, []) | Some v \<Rightarrow> (0, v))"

subsection \<open>Framing lemmas\<close>

text \<open>What a block of input is, however TCP cut it up: its bytes, with no empty segment inside.\<close>

definition live :: "string list \<Rightarrow> bool" where
  "live segs \<longleftrightarrow> [] \<notin> set segs"

lemma ctrl_read_all_concat:
  assumes "live segs" "n \<le> length (concat segs)"
  shows "\<exists>rest. ctrl_read_all segs n = Some (take n (concat segs), rest)
    \<and> concat rest = drop n (concat segs) \<and> live rest"
  using assms
proof (induction segs n rule: ctrl_read_all.induct)
  case (3 seg segs n)
  then show ?case
    by (cases "length seg \<le> Suc n") (auto simp: live_def take_Cons' drop_Cons')
qed (auto simp: live_def)

lemma ctrl_read_all_short: "length (concat segs) < n \<Longrightarrow> ctrl_read_all segs n = None"
  by (induction segs n rule: ctrl_read_all.induct) auto

lemma ctrl_write_all_ok: "snd (ctrl_write_all acc s) \<noteq> None \<Longrightarrow> fst (ctrl_write_all acc s) = s"
  by (induction acc s rule: ctrl_write_all.induct) (auto simp: split_def Let_def split: if_splits)

lemma ctrl_write_all_prefix: "\<exists>t. s = fst (ctrl_write_all acc s) @ t"
proof (induction acc s rule: ctrl_write_all.induct)
  case (3 k acc c cs)
  show ?case
  proof (cases "k = 0")
    case False
    then obtain t where "drop k (c # cs) = fst (ctrl_write_all acc (drop k (c # cs))) @ t"
      using "3.IH" by auto
    then have "c # cs = (take k (c # cs) @ fst (ctrl_write_all acc (drop k (c # cs)))) @ t"
      by (metis append.assoc append_take_drop_id)
    then show ?thesis using False by (auto simp: split_def Let_def)
  qed simp
qed auto

lemma length_htonl [simp]: "length (htonl_bytes n) = 4"
  by (simp add: htonl_bytes_def)

lemma of_char_of_byte: "(of_char (char_of (n mod 256 :: nat)) :: nat) = n mod 256"
  by (simp add: of_char_of)

lemma ntohl_htonl: "n < 2 ^ 32 \<Longrightarrow> ntohl_bytes (htonl_bytes n) = n"
proof -
  assume n: "n < 2 ^ 32"
  have e: "n div 16777216 mod 256 = n div 16777216"
    using n by (intro mod_less) (simp add: less_mult_imp_div_less)
  have "((n div 256 ^ 3 mod 256 * 256 + n div 256 ^ 2 mod 256) * 256 + n div 256 mod 256) * 256 + n mod 256
      = n"
  proof -
    have "n div 256 ^ 3 < 256" using n by (simp add: less_mult_imp_div_less)
    then have "n div 256 ^ 3 mod 256 = n div 256 ^ 3" by (rule mod_less)
    moreover have "n = n div 256 * 256 + n mod 256"
      "n div 256 = n div 256 div 256 * 256 + n div 256 mod 256"
      "n div 256 div 256 = n div 256 div 256 div 256 * 256 + n div 256 div 256 mod 256"
      by simp_all
    ultimately show ?thesis by (simp add: div_mult2_eq [symmetric] power2_eq_square power3_eq_cube)
  qed
  then show ?thesis
    by (simp add: ntohl_bytes_def htonl_bytes_def of_char_of_byte e)
qed

lemma ntohl_bound: "length s = 4 \<Longrightarrow> ntohl_bytes s < 2 ^ 32"
proof -
  assume "length s = 4"
  then obtain a b c d where s: "s = [a, b, c, d]"
    by (auto simp: length_Suc_conv numeral_eq_Suc)
  have b: "(of_char a :: nat) < 256" "(of_char b :: nat) < 256" "(of_char c :: nat) < 256"
    "(of_char d :: nat) < 256" by simp_all
  show ?thesis
    by (simp add: s ntohl_bytes_def) (use b in linarith)
qed

lemma ctrl_recv_frame:
  assumes "live segs" "concat segs = htonl_bytes (length msg) @ msg @ more"
    "length msg < cap" "cap \<le> 2 ^ 32"
  shows "\<exists>rest. ctrl_recv segs cap = Some (msg, rest) \<and> concat rest = more \<and> live rest"
proof -
  obtain r1 where r1: "ctrl_read_all segs 4 = Some (htonl_bytes (length msg), r1)"
    "concat r1 = msg @ more" "live r1"
    using ctrl_read_all_concat [OF assms(1), of 4] assms(2) by auto
  obtain r2 where "ctrl_read_all r1 (length msg) = Some (msg, r2)" "concat r2 = more" "live r2"
    using ctrl_read_all_concat [OF r1(3), of "length msg"] r1(2) by auto
  then show ?thesis
    using r1 assms(3,4) by (simp add: ctrl_recv_def ntohl_htonl Let_def)
qed

subsection \<open>Messages as key/value lists\<close>

definition kv_lines :: "(string \<times> string) list \<Rightarrow> string" where
  "kv_lines kvs = concat (map (\<lambda>(k, v). k @ CHR ''='' # v @ [CHR 0x0A]) kvs)"

definition kv_clean :: "(string \<times> string) list \<Rightarrow> bool" where
  "kv_clean kvs \<longleftrightarrow> list_all (\<lambda>(k, v). CHR ''='' \<notin> set k \<and> CHR 0x0A \<notin> set k \<and> CHR 0x00 \<notin> set k
     \<and> CHR 0x0A \<notin> set v \<and> CHR 0x00 \<notin> set v) kvs"

lemma kv_match_line:
  assumes "CHR ''='' \<notin> set k" "CHR ''='' \<notin> set key"
  shows "kv_match key (k @ CHR ''='' # v) \<longleftrightarrow> key = k \<and> v \<noteq> []"
proof
  let ?l = "k @ CHR ''='' # v"
  assume m: "kv_match key ?l"
  then have pre: "take (length key) ?l = key" and eq: "?l ! length key = CHR ''=''"
    and len: "length key + 1 < length ?l"
    by (auto simp: kv_match_def starts_with_def)
  have len_eq: "length key = length k"
  proof (rule linorder_cases [of "length key" "length k"])
    assume lt: "length key < length k"
    then have "k ! length key = CHR ''=''" using eq by (simp add: nth_append)
    then show ?thesis using assms(1) lt by (metis nth_mem)
  next
    assume gt: "length k < length key"
    then have "take (length key) ?l ! length k = CHR ''=''" by (simp add: nth_append)
    then have "key ! length k = CHR ''=''" using pre by simp
    then show ?thesis using assms(2) gt by (metis nth_mem)
  qed
  have "key = k" using pre len_eq by (metis append_eq_conv_conj)
  then show "key = k \<and> v \<noteq> []" using len by simp
next
  assume "key = k \<and> v \<noteq> []"
  then show "kv_match key (k @ CHR ''='' # v)" by (simp add: kv_match_def)
qed

lemma kv_loop_lines:
  assumes "kv_clean kvs" "CHR ''='' \<notin> set key"
  shows "kv_loop (kv_lines kvs) key cap
    = map_option (bcopy cap) (map_of (filter (\<lambda>(k, v). v \<noteq> []) kvs) key)"
  using assms(1)
proof (induction kvs)
  case Nil
  then show ?case by (simp add: kv_lines_def kv_loop.simps)
next
  case (Cons kv kvs)
  obtain k v where kv: "kv = (k, v)" by (cases kv)
  let ?line = "k @ CHR ''='' # v"
  have nl: "CHR 0x0A \<notin> set ?line" and eq: "CHR ''='' \<notin> set k" and cl: "kv_clean kvs"
    using Cons.prems kv by (auto simp: kv_clean_def)
  have msg: "kv_lines (kv # kvs) = ?line @ CHR 0x0A # kv_lines kvs"
    by (simp add: kv_lines_def kv)
  have b: "before (CHR 0x0A) (?line @ CHR 0x0A # kv_lines kvs) = ?line"
    and a: "after (CHR 0x0A) (?line @ CHR 0x0A # kv_lines kvs) = Some (kv_lines kvs)"
    and ne: "?line @ CHR 0x0A # kv_lines kvs \<noteq> []"
    by (rule before_append [OF nl], rule after_append [OF nl], simp)
  have "kv_loop (?line @ CHR 0x0A # kv_lines kvs) key cap
    = (if key = k \<and> v \<noteq> [] then Some (bcopy cap (drop (length key + 1) ?line))
       else kv_loop (kv_lines kvs) key cap)"
    using kv_match_line [OF eq assms(2), of v]
    by (subst kv_loop.simps) (simp only: b a ne Let_def if_False option.case)
  also have "\<dots> = map_option (bcopy cap) (map_of (filter (\<lambda>(k, v). v \<noteq> []) (kv # kvs)) key)"
    using kv by (simp add: Cons.IH [OF cl])
  finally show ?case by (simp only: msg)
qed

lemma kv_lines_no_nul: "kv_clean kvs \<Longrightarrow> CHR 0x00 \<notin> set (kv_lines kvs)"
  by (auto simp: kv_clean_def kv_lines_def list_all_iff)

lemma kv_get_lines:
  assumes "kv_clean kvs" "CHR ''='' \<notin> set key"
  shows "kv_get (kv_lines kvs) key cap
    = (case map_of (filter (\<lambda>(k, v). v \<noteq> []) kvs) key of None \<Rightarrow> (-1, []) | Some v \<Rightarrow> (0, bcopy cap v))"
  using kv_loop_lines [OF assms] kv_lines_no_nul [OF assms(1)]
  by (auto simp: kv_get_def cstr_id split: option.split)

lemma kv_get_bound: "0 < cap \<Longrightarrow> length (snd (kv_get msg key cap)) < cap"
proof -
  assume cap: "0 < cap"
  have "0 < cap \<Longrightarrow> kv_loop p key cap = Some v \<Longrightarrow> length v < cap" for p v
  proof (induction p key cap rule: kv_loop.induct)
    case (1 p key cap)
    have "0 < cap \<Longrightarrow> length (bcopy cap w) < cap" for w by (rule length_bcopy)
    with 1 cap kv_loop.simps [of p key cap] show ?case
      by (auto simp: Let_def split: if_splits option.splits)
  qed
  then show ?thesis using cap by (auto simp: kv_get_def split: option.split)
qed

subsection \<open>Properties\<close>

text \<open>Framing round trip: a message that was written completely, in whatever pieces \<open>send\<close> took it,
  is read back whole by the peer, in whatever segments it arrives, and the bytes after it stay unread;
  this needs the message to be shorter than the reader's buffer.\<close>

theorem ctrl_send_recv:
  assumes "ctrl_send acc msg = (w, Some acc')" "length msg < cap" "cap \<le> 2 ^ 32"
    "live segs" "concat segs = w @ more"
  shows "\<exists>rest. ctrl_recv segs cap = Some (msg, rest) \<and> concat rest = more \<and> live rest"
proof -
  have len: "length msg mod 2 ^ 32 = length msg" using assms(2,3) by simp
  obtain w1 a1 where 1: "ctrl_write_all acc (htonl_bytes (length msg)) = (w1, Some a1)"
    using assms(1) len by (auto simp: ctrl_send_def split: prod.splits option.splits)
  obtain w2 where 2: "ctrl_write_all a1 msg = (w2, Some acc')" "w = w1 @ w2"
    using assms(1) len 1 by (auto simp: ctrl_send_def Let_def split: prod.splits)
  have "w = htonl_bytes (length msg) @ msg"
    using ctrl_write_all_ok [of acc "htonl_bytes (length msg)"] ctrl_write_all_ok [of a1 msg] 1 2
    by simp
  then show ?thesis
    using ctrl_recv_frame [of segs msg more cap] assms by simp
qed

theorem ctrl_send_recv_witness:
  "\<exists>rest. ctrl_recv [[CHR 0x00, CHR 0x00], [CHR 0x00], [CHR 0x02, CHR ''h''], ''iX''] 100 = Some (''hi'', rest)"
proof -
  have "htonl_bytes 2 = [CHR 0x00, CHR 0x00, CHR 0x00, CHR 0x02]"
    by (simp add: htonl_bytes_def char_of_eq_iff)
  moreover have "length ''hi'' mod 2 ^ 32 = 2" by simp
  ultimately have "ctrl_send [1, 9, 2] ''hi'' = ([CHR 0x00, CHR 0x00, CHR 0x00, CHR 0x02] @ ''hi'', Some [])"
    by (simp only: ctrl_send_def) simp
  from ctrl_send_recv [OF this, of 100 "[[CHR 0x00, CHR 0x00], [CHR 0x00], [CHR 0x02, CHR ''h''], ''iX'']" "''X''"]
  show ?thesis by (auto simp: live_def)
qed

text \<open>What is received depends on the bytes of the stream only, not on how TCP cut them up: a frame
  is returned exactly when its four header bytes and its whole body arrived and the announced length
  is below the buffer size, so a message always fits with its NUL; otherwise the call fails.\<close>

theorem ctrl_recv_spec:
  assumes "live segs"
  shows "map_option fst (ctrl_recv segs cap) =
    (let s = concat segs; n = ntohl_bytes (take 4 s) in
     if 4 \<le> length s \<and> n < cap \<and> 4 + n \<le> length s then Some (take n (drop 4 s)) else None)"
proof (cases "4 \<le> length (concat segs)")
  case False
  then show ?thesis by (simp add: ctrl_recv_def ctrl_read_all_short)
next
  case True
  let ?n = "ntohl_bytes (take 4 (concat segs))"
  obtain r1 where r1: "ctrl_read_all segs 4 = Some (take 4 (concat segs), r1)"
    "concat r1 = drop 4 (concat segs)" "live r1"
    using ctrl_read_all_concat [OF assms True] by auto
  show ?thesis
  proof (cases "4 + ?n \<le> length (concat segs)")
    case fits: True
    then have "?n \<le> length (concat r1)" using r1(2) by simp
    then obtain r2 where "ctrl_read_all r1 ?n = Some (take ?n (concat r1), r2)"
      using ctrl_read_all_concat [OF r1(3)] by blast
    then show ?thesis using True fits r1 by (simp add: ctrl_recv_def Let_def)
  next
    case False
    then have "ctrl_read_all r1 ?n = None"
      using r1(2) True by (intro ctrl_read_all_short) simp
    then show ?thesis using True False r1 by (simp add: ctrl_recv_def Let_def)
  qed
qed

theorem ctrl_recv_spec_witness:
  "map_option fst (ctrl_recv [[CHR 0x00, CHR 0x00], [CHR 0x20, CHR 0x00, CHR ''a'']] 8192) = None"
proof -
  have "live [[CHR 0x00, CHR 0x00], [CHR 0x20, CHR 0x00, CHR ''a'']]" by (simp add: live_def)
  from ctrl_recv_spec [OF this, of 8192] show ?thesis by (simp add: ntohl_bytes_def)
qed

text \<open>Key lookup: in a message made of \<open>key=value\<close> lines, \<open>kv_get\<close> returns the first non-empty value
  of the key, cut to the buffer, and reports an error exactly when there is none.  A key that is a
  prefix of another one is never confused with it.\<close>

theorem kv_get_spec:
  assumes "kv_clean kvs" "CHR ''='' \<notin> set key"
  shows "kv_get (kv_lines kvs) key cap
    = (case filter (\<lambda>(k, v). k = key \<and> v \<noteq> []) kvs of [] \<Rightarrow> (-1, []) | (k, v) # _ \<Rightarrow> (0, bcopy cap v))"
proof -
  have "map_of (filter (\<lambda>(k, v). v \<noteq> []) kvs) key
      = (case filter (\<lambda>(k, v). k = key \<and> v \<noteq> []) kvs of [] \<Rightarrow> None | (k, v) # _ \<Rightarrow> Some v)"
    by (induction kvs) auto
  then show ?thesis
    by (cases "filter (\<lambda>(k, v). k = key \<and> v \<noteq> []) kvs") (auto simp: kv_get_lines [OF assms])
qed

theorem kv_get_spec_witness:
  "kv_get (kv_lines [(''srflx_ip_x'', ''no''), (''srflx_ip'', []), (''srflx_ip'', ''1.2.3.4'')]) ''srflx_ip'' 5
   = (0, ''1.2.'')"
proof -
  have "kv_clean [(''srflx_ip_x'', ''no''), (''srflx_ip'', []), (''srflx_ip'', ''1.2.3.4'')]"
    by (simp add: kv_clean_def)
  from kv_get_spec [OF this, of "''srflx_ip''" 5] show ?thesis by (simp add: bcopy_def)
qed

end
