(* ===== verification/Fanout.thy ===== *)
theory Fanout
  imports Prelude "HOL-Library.Multiset"
begin

text \<open>
  The fan-out of the cloud consumer (\<open>consumer_srt.c\<close>): one SRT provider writes into a ring buffer, up
  to eight HTTP clients read from it at their own pace.  \<open>stream\<close> is \<open>stream_t\<close> (the mutex is
  dropped: every operation below runs under it), \<open>http_client\<close> is \<open>http_client_t\<close>.  The bytes are
  any type \<open>'a\<close>.  \<open>flv_header\<close> holds the \<open>flv_header_len\<close> cached bytes.  Byte counters are \<open>nat\<close>:
  the code's are \<open>uint64_t\<close>, which would take a session of \<open>2\<^sup>64\<close> bytes to wrap.

  Two fields are ghosts that no operation reads: \<open>got\<close> is what the client's socket accepted after the
  HTTP header in the current SRT session, and \<open>joined\<close> the cursor the client started from in it.
\<close>

record 'a http_client =
  c_fd :: int
  cursor :: nat
  header_sent :: bool
  flv_hdr_sent :: bool
  flv_hdr_off :: nat
  got :: "'a list"
  joined :: nat

record 'a stream =
  sbuf :: "'a list"
  total_bytes :: nat
  clients :: "'a http_client list"
  n_clients :: nat
  srt_sock :: int
  flv_header :: "'a list"

definition ring_size :: nat where "ring_size = 4 * 1024 * 1024"
definition max_http_clients :: nat where "max_http_clients = 8"
definition header_cache_size :: nat where "header_cache_size = 2048"
definition srt_invalid_sock :: int where "srt_invalid_sock = -1"

abbreviation scap :: "'a stream \<Rightarrow> nat" where
  "scap s \<equiv> length (sbuf s)"

definition empty_client :: "'a http_client" where
  "empty_client = \<lparr>c_fd = -1, cursor = 0, header_sent = False, flv_hdr_sent = False,
     flv_hdr_off = 0, got = [], joined = 0\<rparr>"

text \<open>\<open>stream_init\<close>; the contents of the fresh \<open>malloc\<close> are the argument.\<close>

definition stream_init :: "'a list \<Rightarrow> 'a stream" where
  "stream_init mem = \<lparr>sbuf = mem, total_bytes = 0, clients = replicate max_http_clients empty_client,
     n_clients = 0, srt_sock = srt_invalid_sock, flv_header = []\<rparr>"

subsection \<open>The ring\<close>

definition ring_write :: "'a stream \<Rightarrow> 'a list \<Rightarrow> 'a stream" where
  "ring_write s data =
     (let n = length data;
          off = total_bytes s mod scap s;
          first = (if off + n \<le> scap s then n else scap s - off);
          b1 = take off (sbuf s) @ take first data @ drop (off + first) (sbuf s);
          b2 = (if first < n then drop first data @ drop (n - first) b1 else b1)
      in s\<lparr>sbuf := b2, total_bytes := total_bytes s + n\<rparr>)"

subsection \<open>Sending to one client\<close>

text \<open>
  What successive \<open>send\<close> calls on a client's non-blocking socket do; \<open>Sent k\<close> accepts up to \<open>k\<close> bytes
  (at least one).  A list that has run out is a socket that would block.
\<close>

datatype send_res = Sent nat | Again | Intr | Failed

text \<open>\<open>write_all\<close> gives up on everything but an interrupted call, a full socket buffer included.\<close>

primrec write_all :: "send_res list \<Rightarrow> nat \<Rightarrow> bool \<times> send_res list" where
  "write_all [] left = (left = 0, [])"
| "write_all (r # rs) left =
     (if left = 0 then (True, r # rs)
      else case r of
        Sent k \<Rightarrow> write_all rs (left - max 1 k)
      | Again \<Rightarrow> (False, rs)
      | Intr \<Rightarrow> write_all rs left
      | Failed \<Rightarrow> (False, rs))"

datatype drain_outcome = Done | Blocked | Errored

text \<open>Replay of the cached prefix: the new offset, the bytes that went out, the answers left over.\<close>

primrec replay_loop :: "send_res list \<Rightarrow> 'a list \<Rightarrow> nat \<Rightarrow> drain_outcome \<times> nat \<times> 'a list \<times> send_res list" where
  "replay_loop [] hdr off = (if off < length hdr then Blocked else Done, off, [], [])"
| "replay_loop (r # rs) hdr off =
     (if off \<ge> length hdr then (Done, off, [], r # rs)
      else case r of
        Sent k \<Rightarrow>
          (let m = min (max 1 k) (length hdr - off);
               (res, off', out, rest) = replay_loop rs hdr (off + m)
           in (res, off', take m (drop off hdr) @ out, rest))
      | Again \<Rightarrow> (Blocked, off, [], rs)
      | Intr \<Rightarrow> replay_loop rs hdr off
      | Failed \<Rightarrow> (Errored, off, [], rs))"

text \<open>Live data: each \<open>send\<close> stops at the end of the ring and at 1 MiB.\<close>

definition chunk_len :: "'a stream \<Rightarrow> nat \<Rightarrow> nat" where
  "chunk_len s cur =
     (let pending = total_bytes s - cur; off = cur mod scap s
      in min (if off + pending \<le> scap s then pending else scap s - off) 1048576)"

primrec data_loop :: "send_res list \<Rightarrow> 'a stream \<Rightarrow> nat \<Rightarrow> drain_outcome \<times> nat \<times> 'a list" where
  "data_loop [] s cur = (if cur < total_bytes s then Blocked else Done, cur, [])"
| "data_loop (r # rs) s cur =
     (if cur \<ge> total_bytes s then (Done, cur, [])
      else case r of
        Sent k \<Rightarrow>
          (let m = min (max 1 k) (chunk_len s cur);
               (res, cur', out) = data_loop rs s (cur + m)
           in (res, cur', take m (drop (cur mod scap s) (sbuf s)) @ out))
      | Again \<Rightarrow> (Blocked, cur, [])
      | Intr \<Rightarrow> data_loop rs s cur
      | Failed \<Rightarrow> (Errored, cur, []))"

definition crlf :: string where "crlf = [CHR 0x0D, CHR 0x0A]"

definition HTTP_FLV_HDR :: string where
  "HTTP_FLV_HDR = ''HTTP/1.1 200 OK'' @ crlf @ ''Content-Type: video/x-flv'' @ crlf
     @ ''Connection: close'' @ crlf @ ''Cache-Control: no-cache'' @ crlf
     @ ''Access-Control-Allow-Origin: *'' @ crlf @ ''Transfer-Encoding: identity'' @ crlf @ crlf"

text \<open>
  The three steps of \<open>drain_client_locked\<close>: the HTTP header once, the replay of the cached prefix, the
  live data.  The result is true when the function returns 0.
\<close>

definition http_step :: "send_res list \<Rightarrow> 'a http_client \<Rightarrow> bool \<times> send_res list" where
  "http_step rs c = (if header_sent c then (True, rs) else write_all rs (length HTTP_FLV_HDR))"

definition replay_step :: "send_res list \<Rightarrow> 'a stream \<Rightarrow> 'a http_client \<Rightarrow> drain_outcome \<times> nat \<times> 'a list \<times> send_res list" where
  "replay_step rs s c =
     (if \<not> flv_hdr_sent c \<and> flv_header s \<noteq> [] then replay_loop rs (flv_header s) (flv_hdr_off c)
      else (Done, flv_hdr_off c, [], rs))"

definition live_step :: "send_res list \<Rightarrow> 'a stream \<Rightarrow> 'a http_client \<Rightarrow> bool \<times> 'a http_client" where
  "live_step rs s c =
     (let (r, cur, out) = data_loop rs s (cursor c)
      in (r \<noteq> Errored, c\<lparr>cursor := cur, got := got c @ out\<rparr>))"

definition drain_client :: "send_res list \<Rightarrow> 'a stream \<Rightarrow> 'a http_client \<Rightarrow> bool \<times> 'a http_client" where
  "drain_client rs s c =
     (let (ok, rs1) = http_step rs c in
      if \<not> ok then (False, c)
      else let c1 = c\<lparr>header_sent := True\<rparr>;
               (r, off, out, rs2) = replay_step rs1 s c1;
               c2 = c1\<lparr>flv_hdr_off := off, got := got c1 @ out\<rparr>
        in case r of
           Blocked \<Rightarrow> (True, c2)
         | Errored \<Rightarrow> (False, c2)
         | Done \<Rightarrow> live_step rs2 s (if flv_header s \<noteq> [] then c2\<lparr>flv_hdr_sent := True\<rparr> else c2))"

subsection \<open>The client table\<close>

definition prune_lagged :: "'a stream \<Rightarrow> int list \<times> 'a stream" where
  "prune_lagged s =
     (let act = take (n_clients s) (clients s);
          lag = (\<lambda>c. c_fd c \<ge> 0 \<and> total_bytes s - cursor c > scap s)
      in (map c_fd (filter lag act),
          s\<lparr>clients := map (\<lambda>c. if lag c then c\<lparr>c_fd := -1\<rparr> else c) act
                         @ drop (n_clients s) (clients s)\<rparr>))"

text \<open>The two loops of \<open>compact_clients_locked\<close>, on the array.\<close>

function compact_move :: "nat \<Rightarrow> nat \<Rightarrow> nat \<Rightarrow> 'a http_client list \<Rightarrow> nat \<times> 'a http_client list" where
  "compact_move i j n cs =
     (if i < n then
        (if c_fd (cs ! i) \<ge> 0
         then compact_move (Suc i) (Suc j) n (if i \<noteq> j then cs[j := cs ! i] else cs)
         else compact_move (Suc i) j n cs)
      else (j, cs))"
  by pat_completeness auto

termination compact_move
  by (relation "measure (\<lambda>(i, j, n, cs). n - i)") auto

declare compact_move.simps [simp del]

definition compact_clients :: "'a stream \<Rightarrow> 'a stream" where
  "compact_clients s =
     (let n = n_clients s; (j, cs) = compact_move 0 0 n (clients s)
      in s\<lparr>clients := take j cs @ replicate (n - j) empty_client @ drop n cs, n_clients := j\<rparr>)"

text \<open>The drain loop over the active clients; \<open>rss\<close> is what each client's socket answers.\<close>

fun drain_list :: "'a stream \<Rightarrow> send_res list list \<Rightarrow> 'a http_client list \<Rightarrow> int list \<times> 'a http_client list" where
  "drain_list s rss [] = ([], [])"
| "drain_list s rss (c # cs) =
     (let rs = (case rss of [] \<Rightarrow> [] | r # _ \<Rightarrow> r);
          (closed, cs') = drain_list s (tl rss) cs
      in if c_fd c < 0 then (closed, c # cs')
         else let (ok, c') = drain_client rs s c in
           if ok then (closed, c' # cs') else (c_fd c # closed, c'\<lparr>c_fd := -1\<rparr> # cs'))"

definition cache_header :: "'a stream \<Rightarrow> 'a list \<Rightarrow> 'a stream" where
  "cache_header s data =
     (if length (flv_header s) < header_cache_size
      then s\<lparr>flv_header := flv_header s @ take (header_cache_size - length (flv_header s)) data\<rparr>
      else s)"

text \<open>One received SRT message: the critical section of the producer's receive loop.\<close>

definition srt_message :: "'a stream \<Rightarrow> 'a list \<Rightarrow> send_res list list \<Rightarrow> int list \<times> 'a stream" where
  "srt_message s data rss =
     (let s1 = ring_write (cache_header s data) data;
          (closed1, s2) = prune_lagged s1;
          (closed2, cs) = drain_list s2 rss (take (n_clients s2) (clients s2));
          s3 = s2\<lparr>clients := cs @ drop (n_clients s2) (clients s2)\<rparr>
      in (closed1 @ closed2, compact_clients s3))"

text \<open>A new provider: any previous SRT socket is closed, the session counters start again.\<close>

definition srt_attach :: "'a stream \<Rightarrow> int \<Rightarrow> int list \<times> 'a stream" where
  "srt_attach s sock =
     (let act = take (n_clients s) (clients s);
          reset = (\<lambda>c. if c_fd c \<ge> 0
                        then c\<lparr>cursor := 0, flv_hdr_sent := False, flv_hdr_off := 0, got := [], joined := 0\<rparr>
                        else c)
      in (if srt_sock s \<noteq> srt_invalid_sock then [srt_sock s] else [],
          s\<lparr>srt_sock := sock, clients := map reset act @ drop (n_clients s) (clients s),
             total_bytes := 0, flv_header := []\<rparr>))"

definition srt_detach :: "'a stream \<Rightarrow> int \<Rightarrow> 'a stream" where
  "srt_detach s sock = (if srt_sock s = sock then s\<lparr>srt_sock := srt_invalid_sock\<rparr> else s)"

text \<open>A viewer that passed the HTTP checks takes the next slot, or is turned away (503).\<close>

definition install_client :: "'a stream \<Rightarrow> int \<Rightarrow> bool \<times> 'a stream" where
  "install_client s cli =
     (if n_clients s \<ge> max_http_clients then (False, s)
      else (True, s\<lparr>clients := (clients s)[n_clients s := \<lparr>c_fd = cli, cursor = total_bytes s,
                      header_sent = False, flv_hdr_sent = False, flv_hdr_off = 0, got = [],
                      joined = total_bytes s\<rparr>],
                    n_clients := n_clients s + 1\<rparr>))"

subsection \<open>The ring as a log\<close>

text \<open>
  What the clients need of the ring: it represents the session's history, a write appends to it, and
  every byte of the last \<open>cap\<close> ones can be read at its position.
\<close>

locale ring_log =
  fixes put :: "'s \<Rightarrow> 'b list \<Rightarrow> 's"
    and byte_at :: "'s \<Rightarrow> nat \<Rightarrow> 'b"
    and cap :: "'s \<Rightarrow> nat"
    and represents :: "'s \<Rightarrow> 'b list \<Rightarrow> bool"
  assumes write_cap: "represents s h \<Longrightarrow> length d \<le> cap s \<Longrightarrow> cap (put s d) = cap s"
    and write_log: "represents s h \<Longrightarrow> length d \<le> cap s \<Longrightarrow> represents (put s d) (h @ d)"
    and read_log: "represents s h \<Longrightarrow> i < length h \<Longrightarrow> length h \<le> i + cap s \<Longrightarrow> byte_at s i = h ! i"
begin

lemma read_slice:
  assumes "represents s h" "a + k \<le> length h" "length h \<le> a + cap s"
  shows "map (byte_at s) [a..<a + k] = take k (drop a h)"
  using assms by (intro nth_equalityI) (auto simp: read_log)

lemma writes_log:
  assumes "represents s h" "\<forall>d \<in> set ds. length d \<le> cap s"
  shows "represents (foldl put s ds) (h @ concat ds) \<and> cap (foldl put s ds) = cap s"
  using assms
proof (induction ds arbitrary: s h)
  case (Cons d ds)
  then have "represents (put s d) (h @ d)" "cap (put s d) = cap s"
    by (auto simp: write_log write_cap)
  then show ?case using Cons.IH [of "put s d" "h @ d"] Cons.prems(2) by simp
qed simp

end

definition byte_at :: "'a stream \<Rightarrow> nat \<Rightarrow> 'a" where
  "byte_at s i = sbuf s ! (i mod scap s)"

text \<open>\<open>h\<close> is everything received in the current SRT session.\<close>

definition ring_rel :: "'a stream \<Rightarrow> 'a list \<Rightarrow> bool" where
  "ring_rel s h \<longleftrightarrow> 0 < scap s \<and> total_bytes s = length h
     \<and> (\<forall>i < length h. length h \<le> i + scap s \<longrightarrow> byte_at s i = h ! i)"

lemma ring_write_frame [simp]:
  "clients (ring_write s d) = clients s" "n_clients (ring_write s d) = n_clients s"
  "srt_sock (ring_write s d) = srt_sock s" "flv_header (ring_write s d) = flv_header s"
  "total_bytes (ring_write s d) = total_bytes s + length d"
  by (simp_all add: ring_write_def Let_def)

lemma length_ring_write:
  assumes "0 < scap s" "length d \<le> scap s"
  shows "scap (ring_write s d) = scap s"
proof -
  define off where "off = total_bytes s mod scap s"
  have "off < scap s" using assms by (simp add: off_def)
  then show ?thesis
    using assms by (auto simp: ring_write_def Let_def off_def [symmetric])
qed

text \<open>The ring after a write, cell by cell.\<close>

lemma ring_write_nth:
  assumes "0 < scap s" "length d \<le> scap s" "k < scap s" "off = total_bytes s mod scap s"
  shows "sbuf (ring_write s d) ! k =
    (if off \<le> k \<and> k < off + length d then d ! (k - off)
     else if k + scap s < off + length d then d ! (k + scap s - off) else sbuf s ! k)"
proof -
  have off: "off < scap s" using assms by simp
  show ?thesis
  proof (cases "off + length d \<le> scap s")
    case True
    then show ?thesis
      using assms(3) off by (auto simp: ring_write_def Let_def assms(4) [symmetric] nth_append min_def)
  next
    case False
    let ?first = "scap s - off"
    define b1 where "b1 = take off (sbuf s) @ take ?first d @ drop (off + ?first) (sbuf s)"
    have lt: "?first < length d" using False off by arith
    have b2: "sbuf (ring_write s d) = drop ?first d @ drop (length d - ?first) b1"
      using False lt by (simp add: ring_write_def Let_def assms(4) [symmetric] b1_def)
    have len1: "length b1 = scap s" using False off by (simp add: b1_def)
    show ?thesis
    proof (cases "k < length d - ?first")
      case True
      then show ?thesis using off lt assms(2,3) by (auto simp: b2 nth_append add.commute)
    next
      case F: False
      then have "sbuf (ring_write s d) ! k = b1 ! k"
        using assms(3) len1 lt by (simp add: b2 nth_append)
      also have "\<dots> = (if k < off then sbuf s ! k else d ! (k - off))"
        using assms(3) off lt by (auto simp: b1_def nth_append)
      finally show ?thesis using F off lt assms(2,3) by auto
    qed
  qed
qed

lemma mod_after:
  assumes "d < (c :: nat)"
  shows "(t + d) mod c = (if t mod c + d < c then t mod c + d else t mod c + d - c)"
proof -
  define q where "q = t div c"
  have t: "t + d = q * c + (t mod c + d)" by (simp add: q_def)
  have lt: "t mod c < c" using assms by simp
  show ?thesis
  proof (cases "t mod c + d < c")
    case True
    then show ?thesis by (subst t) simp
  next
    case False
    then have "t + d = Suc q * c + (t mod c + d - c)" using t by simp
    moreover have "t mod c + d - c < c" using lt assms by arith
    ultimately have "(t + d) mod c = t mod c + d - c" by (metis mod_less mod_mult_self3)
    then show ?thesis using False by simp
  qed
qed

lemma mod_before:
  assumes "e \<le> t" "0 < e" "e \<le> (c :: nat)"
  shows "(t - e) mod c = (if e \<le> t mod c then t mod c - e else t mod c + c - e)"
proof -
  define q where "q = t div c"
  have t: "t = q * c + t mod c" by (simp add: q_def)
  have lt: "t mod c < c" using assms by simp
  show ?thesis
  proof (cases "e \<le> t mod c")
    case True
    then have "t - e = q * c + (t mod c - e)" using t by simp
    then have "(t - e) mod c = t mod c - e" using lt by (simp add: mod_mult_self3 del: mod_mod_trivial)
    then show ?thesis using True by simp
  next
    case False
    then have "q \<noteq> 0" using t assms(1) by (intro notI) simp
    then obtain p where "q = Suc p" by (cases q) auto
    then have "t - e = p * c + (t mod c + c - e)" using t assms False by simp
    moreover have "t mod c + c - e < c" using False assms by simp
    ultimately have "(t - e) mod c = t mod c + c - e" by simp
    then show ?thesis using False by simp
  qed
qed

lemma byte_at_old:
  assumes "0 < scap s" "length d \<le> scap s" "i < total_bytes s"
    "total_bytes s + length d \<le> i + scap s"
  shows "byte_at (ring_write s d) i = byte_at s i"
proof -
  define e where "e = total_bytes s - i"
  define off where "off = total_bytes s mod scap s"
  have off: "off < scap s" using assms(1) by (simp add: off_def)
  have e: "0 < e" "e \<le> total_bytes s" "e + length d \<le> scap s" "i = total_bytes s - e"
    using assms(3,4) by (auto simp: e_def)
  have i: "i mod scap s = (if e \<le> off then off - e else off + scap s - e)"
    using mod_before [of e "total_bytes s" "scap s"] e by (simp add: off_def)
  show ?thesis
    using ring_write_nth [OF assms(1,2), of "i mod scap s" off] assms(1) e off i
    by (auto simp: byte_at_def length_ring_write [OF assms(1,2)] off_def [symmetric])
qed

lemma byte_at_new:
  assumes "0 < scap s" "length d \<le> scap s" "k < length d"
  shows "byte_at (ring_write s d) (total_bytes s + k) = d ! k"
proof -
  define off where "off = total_bytes s mod scap s"
  define i where "i = (total_bytes s + k) mod scap s"
  have off: "off < scap s" and ik: "i < scap s" using assms(1) by (simp_all add: off_def i_def)
  have i: "i = (if off + k < scap s then off + k else off + k - scap s)"
    using mod_after [of k "scap s" "total_bytes s"] assms by (simp add: off_def i_def)
  have "sbuf (ring_write s d) ! i = d ! k"
  proof (cases "off + k < scap s")
    case True
    then show ?thesis using ring_write_nth [OF assms(1,2) ik off_def] assms(3) i by simp
  next
    case False
    then have "\<not> off \<le> i" "i + scap s < off + length d" "i + scap s - off = k"
      using i off assms(2,3) by auto
    then show ?thesis using ring_write_nth [OF assms(1,2) ik off_def] by simp
  qed
  then show ?thesis by (simp add: byte_at_def length_ring_write [OF assms(1,2)] i_def)
qed

lemma ring_rel_write:
  assumes "ring_rel s h" "length d \<le> scap s"
  shows "ring_rel (ring_write s d) (h @ d)"
proof -
  have cap: "0 < scap s" "total_bytes s = length h" using assms(1) by (auto simp: ring_rel_def)
  have "byte_at (ring_write s d) i = (h @ d) ! i"
    if i: "i < length (h @ d)" "length (h @ d) \<le> i + scap s" for i
  proof (cases "i < length h")
    case True
    then have "byte_at (ring_write s d) i = byte_at s i"
      using byte_at_old [OF cap(1) assms(2), of i] cap(2) i by simp
    then show ?thesis using assms(1) True i by (simp add: ring_rel_def nth_append)
  next
    case False
    then have "byte_at (ring_write s d) (total_bytes s + (i - length h)) = d ! (i - length h)"
      using byte_at_new [OF cap(1) assms(2), of "i - length h"] i by simp
    then show ?thesis using False cap(2) by (simp add: nth_append)
  qed
  then show ?thesis
    using cap by (auto simp: ring_rel_def length_ring_write [OF cap(1) assms(2)])
qed

interpretation ring: ring_log ring_write byte_at "\<lambda>s. length (sbuf s)" ring_rel
proof unfold_locales
  fix s :: "'a stream" and h d :: "'a list" and i
  assume r: "ring_rel s h"
  show "length d \<le> scap s \<Longrightarrow> scap (ring_write s d) = scap s"
    using r by (simp add: ring_rel_def length_ring_write)
  show "length d \<le> scap s \<Longrightarrow> ring_rel (ring_write s d) (h @ d)"
    using r by (rule ring_rel_write)
  show "i < length h \<Longrightarrow> length h \<le> i + scap s \<Longrightarrow> byte_at s i = h ! i"
    using r by (simp add: ring_rel_def)
qed

subsection \<open>Draining one client\<close>

text \<open>A piece that does not cross the end of the ring is the bytes at its positions.\<close>

lemma ring_piece:
  assumes "c mod scap s + m \<le> scap s"
  shows "take m (drop (c mod scap s) (sbuf s)) = map (byte_at s) [c..<c + m]"
proof (rule nth_equalityI)
  show "length (take m (drop (c mod scap s) (sbuf s))) = length (map (byte_at s) [c..<c + m])"
    using assms by simp
  fix i assume "i < length (take m (drop (c mod scap s) (sbuf s)))"
  then have i: "i < m" by simp
  then have "i < scap s" "c mod scap s + i < scap s" using assms by simp_all
  then have "(c + i) mod scap s = c mod scap s + i"
    using mod_after [of i "scap s" c] by simp
  then show "take m (drop (c mod scap s) (sbuf s)) ! i = map (byte_at s) [c..<c + m] ! i"
    using i assms by (simp add: byte_at_def)
qed

text \<open>What the live loop sends, in the window or not.\<close>

lemma data_loop_bytes:
  assumes "0 < scap s" "cur \<le> total_bytes s" "data_loop rs s cur = (r, cur', out)"
  shows "cur \<le> cur' \<and> cur' \<le> total_bytes s \<and> out = map (byte_at s) [cur..<cur'] \<and> (r = Done \<longrightarrow> cur' = total_bytes s)"
  using assms(2,3)
proof (induction rs arbitrary: cur r cur' out)
  case Nil
  then show ?case by (auto split: if_splits)
next
  case (Cons x rs)
  show ?case
  proof (cases "cur < total_bytes s \<and> (\<exists>k. x = Sent k)")
    case True
    then obtain k where x: "x = Sent k" by blast
    let ?off = "cur mod scap s"
    define m where "m = min (max 1 k) (chunk_len s cur)"
    have "?off < scap s" using assms(1) by simp
    then have m: "?off + m \<le> scap s" "cur + m \<le> total_bytes s"
      using True by (auto simp: m_def chunk_len_def Let_def min_def)
    obtain r2 c2 out2 where e: "data_loop rs s (cur + m) = (r2, c2, out2)"
      by (cases "data_loop rs s (cur + m)") auto
    have "data_loop (x # rs) s cur = (r2, c2, take m (drop ?off (sbuf s)) @ out2)"
      using True e by (simp add: x m_def)
    then have step: "data_loop rs s (cur + m) = (r, cur', out2)" "out = take m (drop ?off (sbuf s)) @ out2"
      using Cons.prems(2) e by simp_all
    have IH: "cur + m \<le> cur' \<and> cur' \<le> total_bytes s \<and> out2 = map (byte_at s) [cur + m..<cur'] \<and> (r = Done \<longrightarrow> cur' = total_bytes s)"
      using Cons.IH [OF m(2) step(1)] .
    then have "[cur..<cur'] = [cur..<cur + m] @ [cur + m..<cur']"
      using upt_add_eq_append [of cur "cur + m" "cur' - (cur + m)"] by simp
    then show ?thesis using IH step(2) ring_piece [OF m(1)] by simp
  next
    case False
    then show ?thesis using Cons.prems Cons.IH [OF Cons.prems(1)] by (cases x) (auto split: if_splits)
  qed
qed

lemma data_loop_slice:
  assumes "ring_rel s h" "cur \<le> length h" "length h \<le> cur + scap s"
    "data_loop rs s cur = (r, cur', out)"
  shows "cur \<le> cur' \<and> cur' \<le> length h \<and> out = take (cur' - cur) (drop cur h)
    \<and> (r = Done \<longrightarrow> cur' = length h)"
proof -
  have t: "0 < scap s" "total_bytes s = length h" using assms(1) by (simp_all add: ring_rel_def)
  note b = data_loop_bytes [OF t(1) _ assms(4)]
  then have c: "cur \<le> cur'" "cur' \<le> length h" "out = map (byte_at s) [cur..<cur']" "r = Done \<longrightarrow> cur' = length h"
    using assms(2) t(2) by simp_all
  then show ?thesis using ring.read_slice [OF assms(1), of cur "cur' - cur"] assms(3) by simp
qed

lemma replay_loop_slice:
  assumes "replay_loop rs hdr off = (r, off', out, rest)" "off \<le> length hdr"
  shows "off \<le> off' \<and> off' \<le> length hdr \<and> out = take (off' - off) (drop off hdr)
    \<and> (r = Done \<longrightarrow> off' = length hdr)"
  using assms
proof (induction rs arbitrary: off r off' out rest)
  case (Cons x rs)
  show ?case
  proof (cases "off < length hdr \<and> (\<exists>k. x = Sent k)")
    case True
    then obtain k where x: "x = Sent k" by blast
    define m where "m = min (max 1 k) (length hdr - off)"
    obtain r2 o2 out2 q where e: "replay_loop rs hdr (off + m) = (r2, o2, out2, q)"
      by (cases "replay_loop rs hdr (off + m)") auto
    have "replay_loop (x # rs) hdr off = (r2, o2, take m (drop off hdr) @ out2, q)"
      using True e by (simp add: x m_def)
    then have step: "replay_loop rs hdr (off + m) = (r, off', out2, rest)"
      "out = take m (drop off hdr) @ out2"
      using Cons.prems(1) e by simp_all
    have m: "off + m \<le> length hdr" using True by (auto simp: m_def)
    have "off + m \<le> off' \<and> off' \<le> length hdr \<and> out2 = take (off' - (off + m)) (drop (off + m) hdr)
      \<and> (r = Done \<longrightarrow> off' = length hdr)"
      by (rule Cons.IH [OF step(1) m])
    moreover have "take (off' - off) (drop off hdr) = take m (drop off hdr) @ take (off' - (off + m)) (drop (off + m) hdr)"
      if "off + m \<le> off'"
      using that take_add [of m "off' - (off + m)" "drop off hdr"] by (simp add: add.commute)
    ultimately show ?thesis using step(2) by simp
  next
    case False
    show ?thesis
    proof (cases "off < length hdr")
      case lt: True
      show ?thesis
      proof (cases x)
        case Intr
        then have "replay_loop rs hdr off = (r, off', out, rest)" using Cons.prems(1) lt by simp
        then show ?thesis by (rule Cons.IH [OF _ Cons.prems(2)])
      qed (use Cons.prems lt False in auto)
    next
      case F: False
      then show ?thesis using Cons.prems by simp
    qed
  qed
qed (auto split: if_splits)

subsection \<open>What a client has received\<close>

definition client_ok :: "'a stream \<Rightarrow> 'a list \<Rightarrow> 'a http_client \<Rightarrow> bool" where
  "client_ok s h c \<longleftrightarrow> joined c \<le> cursor c \<and> cursor c \<le> length h
     \<and> flv_hdr_off c \<le> length (flv_header s)
     \<and> got c = take (flv_hdr_off c) (flv_header s) @ take (cursor c - joined c) (drop (joined c) h)
     \<and> (flv_hdr_sent c \<or> cursor c = joined c)"

definition active :: "'a stream \<Rightarrow> 'a http_client list" where
  "active s = take (n_clients s) (clients s)"

definition stream_ok :: "'a stream \<Rightarrow> 'a list \<Rightarrow> bool" where
  "stream_ok s h \<longleftrightarrow> ring_rel s h \<and> flv_header s = take header_cache_size h
     \<and> length (clients s) = max_http_clients \<and> n_clients s \<le> max_http_clients
     \<and> (\<forall>c \<in> set (active s). c_fd c \<ge> 0 \<and> client_ok s h c)"

lemma client_ok_fd [simp]: "client_ok s h (c\<lparr>c_fd := x\<rparr>) = client_ok s h c"
  by (simp add: client_ok_def)

lemma client_ok_cong:
  "flv_header s = flv_header s' \<Longrightarrow> client_ok s h c = client_ok s' h c"
  by (simp add: client_ok_def)

lemma cache_header_frame [simp]:
  "sbuf (cache_header s d) = sbuf s" "total_bytes (cache_header s d) = total_bytes s"
  "clients (cache_header s d) = clients s" "n_clients (cache_header s d) = n_clients s"
  "srt_sock (cache_header s d) = srt_sock s"
  by (simp_all add: cache_header_def)

lemma ring_rel_cong: "sbuf s = sbuf s' \<Longrightarrow> total_bytes s = total_bytes s' \<Longrightarrow> ring_rel s h = ring_rel s' h"
  by (simp add: ring_rel_def byte_at_def)

lemma cache_header_eq:
  "flv_header s = take header_cache_size h \<Longrightarrow> flv_header (cache_header s d) = take header_cache_size (h @ d)"
  by (auto simp: cache_header_def min_def)

text \<open>Receiving more data leaves what a client got so far explained.\<close>

lemma client_ok_more:
  assumes "client_ok s h c" "flv_header s = take header_cache_size h"
    "flv_header s' = take header_cache_size (h @ d)"
  shows "client_ok s' (h @ d) c"
proof -
  have "take (flv_hdr_off c) (flv_header s') = take (flv_hdr_off c) (flv_header s)"
    using assms by (auto simp: client_ok_def min_def)
  then show ?thesis using assms by (auto simp: client_ok_def)
qed

lemma replay_step_ok:
  assumes ok: "client_ok s h c" and rep: "replay_step rs s c = (r, off, out, rs2)"
  shows "client_ok s h (c\<lparr>flv_hdr_off := off, got := got c @ out\<rparr>)"
proof (cases "\<not> flv_hdr_sent c \<and> flv_header s \<noteq> []")
  case True
  then have "replay_loop rs (flv_header s) (flv_hdr_off c) = (r, off, out, rs2)"
    using rep by (simp add: replay_step_def)
  then have sl: "flv_hdr_off c \<le> off \<and> off \<le> length (flv_header s)
      \<and> out = take (off - flv_hdr_off c) (drop (flv_hdr_off c) (flv_header s))"
    using replay_loop_slice ok unfolding client_ok_def by blast
  then have "take off (flv_header s) = take (flv_hdr_off c) (flv_header s) @ out"
    using take_add [of "flv_hdr_off c" "off - flv_hdr_off c" "flv_header s"] by simp
  moreover have "cursor c = joined c" using ok True by (auto simp: client_ok_def)
  ultimately show ?thesis using ok sl by (simp add: client_ok_def)
next
  case False
  then show ?thesis using ok rep by (auto simp: replay_step_def client_ok_def)
qed

lemma live_step_ok:
  assumes ok: "client_ok s h c" and rel: "ring_rel s h" and win: "length h \<le> cursor c + scap s"
    and sent: "flv_hdr_sent c \<or> h = []" and l: "live_step rs s c = (b, c')"
  shows "client_ok s h c' \<and> c_fd c' = c_fd c \<and> joined c' = joined c"
proof -
  obtain r cur out where data: "data_loop rs s (cursor c) = (r, cur, out)"
    by (cases "data_loop rs s (cursor c)") auto
  have c': "c' = c\<lparr>cursor := cur, got := got c @ out\<rparr>"
    using l data by (auto simp: live_step_def)
  have sl: "cursor c \<le> cur \<and> cur \<le> length h \<and> out = take (cur - cursor c) (drop (cursor c) h)"
    using data_loop_slice [OF rel _ win data] ok by (simp add: client_ok_def)
  have "take (cur - joined c) (drop (joined c) h)
      = take (cursor c - joined c) (drop (joined c) h) @ out"
    using sl ok take_add [of "cursor c - joined c" "cur - cursor c" "drop (joined c) h"]
    by (simp add: client_ok_def)
  then show ?thesis using c' sl sent ok by (auto simp: client_ok_def)
qed

lemma drain_client_ok:
  assumes ok: "client_ok s h c" and rel: "ring_rel s h" and win: "length h \<le> cursor c + scap s"
    and hdr: "flv_header s = take header_cache_size h"
    and d: "drain_client rs s c = (b, c')"
  shows "client_ok s h c' \<and> c_fd c' = c_fd c \<and> joined c' = joined c"
proof -
  define c1 where "c1 = c\<lparr>header_sent := True\<rparr>"
  have ok1: "client_ok s h c1" using ok by (simp add: c1_def client_ok_def)
  obtain k rs1 where h: "http_step rs c = (k, rs1)" by (cases "http_step rs c")
  obtain r off out rs2 where rep: "replay_step rs1 s c1 = (r, off, out, rs2)"
    by (cases "replay_step rs1 s c1") auto
  define c2 where "c2 = c1\<lparr>flv_hdr_off := off, got := got c1 @ out\<rparr>"
  define c3 where "c3 = (if flv_header s \<noteq> [] then c2\<lparr>flv_hdr_sent := True\<rparr> else c2)"
  have unfold: "drain_client rs s c = (if \<not> k then (False, c) else case r of
      Blocked \<Rightarrow> (True, c2) | Errored \<Rightarrow> (False, c2) | Done \<Rightarrow> live_step rs2 s c3)"
    using h rep by (simp add: drain_client_def Let_def c1_def c2_def c3_def split: drain_outcome.split)
  have ok2: "client_ok s h c2" unfolding c2_def by (rule replay_step_ok [OF ok1 rep])
  have same: "c_fd c2 = c_fd c" "joined c2 = joined c" "cursor c3 = cursor c"
    "c_fd c3 = c_fd c" "joined c3 = joined c"
    by (simp_all add: c3_def c2_def c1_def)
  have ok3: "client_ok s h c3" using ok2 by (auto simp: c3_def client_ok_def)
  have sent: "flv_hdr_sent c3 \<or> h = []"
    using hdr by (auto simp: c3_def header_cache_size_def)
  show ?thesis
  proof (cases "k \<and> r = Done")
    case True
    then show ?thesis
      using live_step_ok [OF ok3 rel _ sent, of rs2 b c'] win d unfold same by simp
  next
    case False
    then show ?thesis
      using d unfold ok ok2 same by (cases r) (auto split: if_splits)
  qed
qed

subsection \<open>Compaction\<close>

definition alive :: "'a http_client \<Rightarrow> bool" where "alive c \<longleftrightarrow> c_fd c \<ge> 0"

lemma compact_move_spec:
  assumes "j \<le> i" "i \<le> n" "n \<le> length cs" "take j cs = filter alive (take i os)"
    "drop i cs = drop i os" "length os = length cs" "compact_move i j n cs = (j', cs')"
  shows "j' \<le> n \<and> length cs' = length cs \<and> take j' cs' = filter alive (take n os) \<and> drop n cs' = drop n os"
  using assms
proof (induction i j n cs rule: compact_move.induct)
  case (1 i j n cs)
  show ?case
  proof (cases "i < n")
    case False
    then show ?thesis using 1 by (simp add: compact_move.simps)
  next
    case True
    then have il: "i < length cs" using "1.prems" by simp
    then have ci: "cs ! i = os ! i"
      using "1.prems"(5,6) by (metis hd_drop_conv_nth)
    have dr: "drop (Suc i) cs = drop (Suc i) os"
      using "1.prems"(5) by (metis drop_Suc drop_tl)
    have tk: "take (Suc i) os = take i os @ [os ! i]"
      using il "1.prems"(6) by (simp add: take_Suc_conv_app_nth)
    show ?thesis
    proof (cases "c_fd (cs ! i) \<ge> 0")
      case al: True
      define cs2 where "cs2 = (if i \<noteq> j then cs[j := cs ! i] else cs)"
      have jl: "j < length cs" using "1.prems"(1) il by simp
      have "cs2 = cs[j := cs ! i]" by (simp add: cs2_def)
      then have "take (Suc j) cs2 = take j cs @ [cs ! i]"
        using jl by (simp add: take_Suc_conv_app_nth)
      moreover have "drop (Suc i) cs2 = drop (Suc i) cs"
        using "1.prems"(1) by (simp add: cs2_def)
      moreover have "length cs2 = length cs" by (simp add: cs2_def)
      ultimately show ?thesis
        using "1.IH"(1) [OF True al] "1.prems" True al tk ci dr
        by (simp add: cs2_def [symmetric] compact_move.simps [of i j n cs] alive_def)
    next
      case dead: False
      show ?thesis
        using "1.IH"(2) [OF True dead] "1.prems" True dead tk ci dr
        by (simp add: compact_move.simps [of i j n cs] alive_def)
    qed
  qed
qed

lemma compact_clients_spec:
  assumes "n_clients s \<le> length (clients s)"
  shows "active (compact_clients s) = filter alive (active s)
    \<and> n_clients (compact_clients s) = length (filter alive (active s))
    \<and> length (clients (compact_clients s)) = length (clients s)
    \<and> sbuf (compact_clients s) = sbuf s \<and> total_bytes (compact_clients s) = total_bytes s
    \<and> flv_header (compact_clients s) = flv_header s \<and> srt_sock (compact_clients s) = srt_sock s"
proof -
  obtain j cs where m: "compact_move 0 0 (n_clients s) (clients s) = (j, cs)"
    by (cases "compact_move 0 0 (n_clients s) (clients s)")
  then have j: "j \<le> n_clients s" "length cs = length (clients s)"
    "take j cs = filter alive (take (n_clients s) (clients s))"
    using compact_move_spec [of 0 0 "n_clients s" "clients s" "clients s"] assms by auto
  then have len: "length (filter alive (take (n_clients s) (clients s))) = j"
    using assms by (metis length_take min.absorb2 le_trans)
  show ?thesis
    using m j len assms by (simp add: compact_clients_def active_def Let_def)
qed

subsection \<open>One SRT message\<close>

definition prunes :: "'a stream \<Rightarrow> 'a http_client \<Rightarrow> bool" where
  "prunes s c \<longleftrightarrow> c_fd c \<ge> 0 \<and> total_bytes s - cursor c > scap s"

lemma prune_lagged_spec:
  assumes "n_clients s \<le> length (clients s)" "prune_lagged s = (closed, s')"
  shows "closed = map c_fd (filter (prunes s) (active s))
    \<and> active s' = map (\<lambda>c. if prunes s c then c\<lparr>c_fd := -1\<rparr> else c) (active s)
    \<and> length (clients s') = length (clients s) \<and> n_clients s' = n_clients s
    \<and> sbuf s' = sbuf s \<and> total_bytes s' = total_bytes s \<and> flv_header s' = flv_header s
    \<and> srt_sock s' = srt_sock s"
  using assms by (auto simp: prune_lagged_def prunes_def [abs_def] active_def Let_def)

lemma drain_client_frame:
  "drain_client rs s c = (b, c') \<Longrightarrow> c_fd c' = c_fd c \<and> joined c' = joined c"
  by (auto simp: drain_client_def Let_def live_step_def split: prod.splits if_splits drain_outcome.splits)

lemma drain_list_alive:
  assumes "drain_list s rss cs = (closed, cs')"
    "\<forall>c \<in> set cs. alive c \<longrightarrow> client_ok s h c \<and> length h \<le> cursor c + scap s"
    "ring_rel s h" "flv_header s = take header_cache_size h"
  shows "length cs' = length cs \<and> (\<forall>c \<in> set (filter alive cs'). client_ok s h c)
    \<and> mset (map c_fd (filter alive cs)) = mset closed + mset (map c_fd (filter alive cs'))"
  using assms
proof (induction s rss cs arbitrary: closed cs' rule: drain_list.induct)
  case (2 s rss c cs)
  obtain cl cs2 where rec: "drain_list s (tl rss) cs = (cl, cs2)" by (cases "drain_list s (tl rss) cs")
  have IH: "length cs2 = length cs \<and> (\<forall>c \<in> set (filter alive cs2). client_ok s h c)
    \<and> mset (map c_fd (filter alive cs)) = mset cl + mset (map c_fd (filter alive cs2))"
    using "2.IH" rec "2.prems" by simp
  define rs where "rs = (case rss of [] \<Rightarrow> [] | r # _ \<Rightarrow> r)"
  show ?case
  proof (cases "c_fd c < 0")
    case True
    then show ?thesis using "2.prems"(1) IH rec by (auto simp: alive_def)
  next
    case False
    obtain b c' where d: "drain_client rs s c = (b, c')" by (cases "drain_client rs s c")
    have "client_ok s h c' \<and> c_fd c' = c_fd c"
      using drain_client_ok [OF _ "2.prems"(3) _ "2.prems"(4) d] "2.prems"(2) False
      by (auto simp: alive_def)
    then show ?thesis
      using "2.prems"(1) IH rec d False
      by (auto simp: alive_def rs_def [symmetric] split: if_splits)
  qed
qed simp

lemma mset_closed:
  "\<forall>c \<in> set cs. c_fd c \<ge> 0 \<Longrightarrow> mset (map c_fd cs) = mset (map c_fd (filter P cs))
     + mset (map c_fd (filter alive (map (\<lambda>c. if P c then c\<lparr>c_fd := -1\<rparr> else c) cs)))"
  by (induction cs) (auto simp: alive_def)

text \<open>The message's effect in one lemma: the invariant, and the sockets closed.\<close>

lemma srt_message_step:
  assumes ok: "stream_ok s h" and len: "length d \<le> scap s" and m: "srt_message s d rss = (closed, s')"
  shows "stream_ok s' (h @ d) \<and> scap s' = scap s \<and> srt_sock s' = srt_sock s
    \<and> mset (map c_fd (active s)) = mset closed + mset (map c_fd (active s'))"
proof -
  define s1 where "s1 = ring_write (cache_header s d) d"
  obtain cl1 s2 where p: "prune_lagged s1 = (cl1, s2)" by (cases "prune_lagged s1")
  obtain cl2 cs where dl: "drain_list s2 rss (active s2) = (cl2, cs)"
    by (cases "drain_list s2 rss (active s2)")
  define s3 where "s3 = s2\<lparr>clients := cs @ drop (n_clients s2) (clients s2)\<rparr>"
  have closed: "closed = cl1 @ cl2" and s': "s' = compact_clients s3"
    using m p dl by (simp_all add: srt_message_def s1_def [symmetric] s3_def active_def Let_def)
  have rel1: "ring_rel s1 (h @ d)" and cap1: "scap s1 = scap s"
    using ring.write_log [of "cache_header s d" h d] ring.write_cap [of "cache_header s d" h d] ok len
      ring_rel_cong [of "cache_header s d" s h]
    by (auto simp: s1_def stream_ok_def)
  have hdr1: "flv_header s1 = take header_cache_size (h @ d)"
    using ok cache_header_eq [of s h d] by (simp add: s1_def stream_ok_def)
  have cl: "client_ok s1 (h @ d) c \<and> c_fd c \<ge> 0" if "c \<in> set (active s)" for c
    using client_ok_more [of s h c s1 d] ok hdr1 that by (simp add: stream_ok_def)
  have fr1: "clients s1 = clients s" "n_clients s1 = n_clients s" "srt_sock s1 = srt_sock s"
    by (simp_all add: s1_def)
  have act1: "active s1 = active s" by (simp add: active_def fr1)
  have bnd: "n_clients s \<le> length (clients s)" "length (clients s) = max_http_clients"
    using ok by (auto simp: stream_ok_def)
  have pr: "cl1 = map c_fd (filter (prunes s1) (active s))"
    "active s2 = map (\<lambda>c. if prunes s1 c then c\<lparr>c_fd := -1\<rparr> else c) (active s)"
    "length (clients s2) = max_http_clients" "n_clients s2 = n_clients s" "sbuf s2 = sbuf s1"
    "total_bytes s2 = total_bytes s1" "flv_header s2 = flv_header s1" "srt_sock s2 = srt_sock s"
    using prune_lagged_spec [OF _ p] bnd fr1 act1 by auto
  have rel2: "ring_rel s2 (h @ d)" using rel1 ring_rel_cong [OF pr(5,6)] by simp
  have tot: "total_bytes s1 = length (h @ d)" using rel1 by (simp add: ring_rel_def)
  have ok2: "\<forall>c \<in> set (active s2). alive c \<longrightarrow> client_ok s2 (h @ d) c \<and> length (h @ d) \<le> cursor c + scap s2"
  proof
    fix c assume "c \<in> set (active s2)"
    then obtain c0 where c0: "c0 \<in> set (active s)" "c = (if prunes s1 c0 then c0\<lparr>c_fd := -1\<rparr> else c0)"
      using pr(2) by auto
    show "alive c \<longrightarrow> client_ok s2 (h @ d) c \<and> length (h @ d) \<le> cursor c + scap s2"
    proof
      assume al: "alive c"
      then have n: "\<not> prunes s1 c0" "c = c0" using c0 by (auto simp: alive_def split: if_splits)
      then have "length (h @ d) \<le> cursor c + scap s2"
        using tot al pr(5) by (auto simp: prunes_def alive_def)
      then show "client_ok s2 (h @ d) c \<and> length (h @ d) \<le> cursor c + scap s2"
        using cl [OF c0(1)] n client_ok_cong [OF pr(7)] by simp
    qed
  qed
  have dr: "length cs = length (active s2)" "\<forall>c \<in> set (filter alive cs). client_ok s2 (h @ d) c"
    "mset (map c_fd (filter alive (active s2))) = mset cl2 + mset (map c_fd (filter alive cs))"
    using drain_list_alive [OF dl ok2 rel2] hdr1 pr(7) by auto
  have act3: "active s3 = cs" "n_clients s3 = n_clients s" "length (clients s3) = max_http_clients"
    using dr(1) pr(3,4) bnd by (auto simp: s3_def active_def)
  have c4: "active s' = filter alive cs" "n_clients s' = length (filter alive cs)"
    "length (clients s') = max_http_clients" "sbuf s' = sbuf s1" "total_bytes s' = total_bytes s1"
    "flv_header s' = flv_header s1" "srt_sock s' = srt_sock s"
    using compact_clients_spec [of s3] act3 bnd pr by (auto simp: s' s3_def)
  have "length (filter alive cs) \<le> max_http_clients"
    using length_filter_le [of alive cs] dr(1) bnd pr(3) by (simp add: active_def)
  then have "stream_ok s' (h @ d)"
    using ring_rel_cong [OF c4(4,5)] rel1 hdr1 c4 dr(2) client_ok_cong [of s' s2] pr(7)
    by (auto simp: stream_ok_def alive_def)
  moreover have "mset (map c_fd (active s)) = mset cl1 + mset (map c_fd (filter alive (active s2)))"
  proof -
    have "\<forall>c \<in> set (active s). c_fd c \<ge> 0" using cl by blast
    then show ?thesis using mset_closed [of "active s" "prunes s1"] pr by simp
  qed
  ultimately show ?thesis using dr(3) closed c4 cap1 by (simp add: ac_simps)
qed

lemma srt_attach_ok:
  assumes "stream_ok s h" "srt_attach s sock = (old, s')"
  shows "stream_ok s' [] \<and> scap s' = scap s \<and> srt_sock s' = sock
    \<and> map c_fd (active s') = map c_fd (active s)"
proof -
  define reset where "reset = (\<lambda>c :: 'a http_client. if c_fd c \<ge> 0
     then c\<lparr>cursor := 0, flv_hdr_sent := False, flv_hdr_off := 0, got := [], joined := 0\<rparr> else c)"
  have s': "s' = s\<lparr>srt_sock := sock, clients := map reset (active s) @ drop (n_clients s) (clients s),
      total_bytes := 0, flv_header := []\<rparr>"
    using assms(2) by (simp add: srt_attach_def reset_def active_def Let_def)
  have n: "n_clients s \<le> length (clients s)" using assms(1) by (simp add: stream_ok_def)
  then have act: "active s' = map reset (active s)" by (simp add: s' active_def)
  have fd: "c_fd (reset c) = c_fd c" for c by (simp add: reset_def)
  have "client_ok s' [] (reset c)" if "c \<in> set (active s)" for c
    using that assms(1) by (auto simp: stream_ok_def client_ok_def reset_def s')
  then have "stream_ok s' []"
    using assms(1) act fd n by (auto simp: stream_ok_def ring_rel_def s' active_def)
  then show ?thesis using act fd by (simp add: s')
qed

lemma srt_detach_ok:
  "stream_ok (srt_detach s sock) h = stream_ok s h" "active (srt_detach s sock) = active s"
  "sbuf (srt_detach s sock) = sbuf s"
  by (simp_all add: srt_detach_def stream_ok_def ring_rel_def byte_at_def active_def client_ok_def)

lemma install_client_ok:
  assumes "stream_ok s h" "0 \<le> cli" "install_client s cli = (b, s')"
  shows "stream_ok s' h \<and> sbuf s' = sbuf s \<and> srt_sock s' = srt_sock s
    \<and> map c_fd (active s') = map c_fd (active s) @ (if b then [cli] else [])"
proof (cases "n_clients s \<ge> max_http_clients")
  case True
  then show ?thesis using assms by (simp add: install_client_def)
next
  case False
  define c where "c = \<lparr>c_fd = cli, cursor = total_bytes s, header_sent = False, flv_hdr_sent = False,
    flv_hdr_off = 0, got = [] :: 'a list, joined = total_bytes s\<rparr>"
  have s': "b" "s' = s\<lparr>clients := (clients s)[n_clients s := c], n_clients := n_clients s + 1\<rparr>"
    using assms(3) False by (simp_all add: install_client_def c_def)
  have n: "n_clients s < length (clients s)" using assms(1) False by (simp add: stream_ok_def)
  then have act: "active s' = active s @ [c]"
    by (simp add: s' active_def take_Suc_conv_app_nth)
  have "client_ok s' h c" using assms(1) by (simp add: c_def client_ok_def stream_ok_def ring_rel_def)
  moreover have "client_ok s' h x = client_ok s h x" for x by (simp add: s' client_ok_def)
  ultimately have "stream_ok s' h"
    using assms(1,2) act False by (auto simp: stream_ok_def ring_rel_def byte_at_def s' c_def)
  then show ?thesis using act s' by (simp add: c_def)
qed

subsection \<open>Runs\<close>

text \<open>
  The critical sections of the producer thread and of the handshake threads, in the order they take
  the mutex.  \<open>hist\<close> is what the current SRT session delivered; \<open>opened\<close> the viewer sockets handed to the
  fan-out, \<open>closed\<close> those it closed (a viewer turned away with 503 included), \<open>replaced\<close> the SRT
  sockets an attach found still registered.
\<close>

datatype 'a fan_event = SrtAttach int | SrtMessage "'a list" "send_res list list" | SrtDetach int | HttpJoin int

record 'a fan =
  strm :: "'a stream"
  hist :: "'a list"
  opened :: "int list"
  closed :: "int list"
  replaced :: "int list"

definition fan_init :: "'a list \<Rightarrow> 'a fan" where
  "fan_init mem = \<lparr>strm = stream_init mem, hist = [], opened = [], closed = [], replaced = []\<rparr>"

primrec fan_step :: "'a fan_event \<Rightarrow> 'a fan \<Rightarrow> 'a fan" where
  "fan_step (SrtAttach sock) f =
     (let (old, s) = srt_attach (strm f) sock
      in f\<lparr>strm := s, hist := [], replaced := replaced f @ old\<rparr>)"
| "fan_step (SrtMessage d rss) f =
     (let (cl, s) = srt_message (strm f) d rss
      in f\<lparr>strm := s, hist := hist f @ d, closed := closed f @ cl\<rparr>)"
| "fan_step (SrtDetach sock) f = f\<lparr>strm := srt_detach (strm f) sock\<rparr>"
| "fan_step (HttpJoin cli) f =
     (let (ok, s) = install_client (strm f) cli
      in f\<lparr>strm := s, opened := opened f @ [cli], closed := (if ok then closed f else closed f @ [cli])\<rparr>)"

definition fan_run :: "'a fan_event list \<Rightarrow> 'a fan \<Rightarrow> 'a fan" where
  "fan_run evs f = foldl (\<lambda>f e. fan_step e f) f evs"

text \<open>The kernel hands out non-negative descriptors, \<open>srt_recvmsg\<close> at most \<open>sizeof(buf)\<close> bytes.\<close>

definition recv_buf_size :: nat where "recv_buf_size = 2048"

primrec fan_legal :: "'a fan_event \<Rightarrow> bool" where
  "fan_legal (SrtAttach sock) \<longleftrightarrow> True"
| "fan_legal (SrtMessage d rss) \<longleftrightarrow> length d \<le> recv_buf_size"
| "fan_legal (SrtDetach sock) \<longleftrightarrow> True"
| "fan_legal (HttpJoin cli) \<longleftrightarrow> 0 \<le> cli"

definition fan_ok :: "'a fan \<Rightarrow> bool" where
  "fan_ok f \<longleftrightarrow> stream_ok (strm f) (hist f) \<and> recv_buf_size \<le> scap (strm f)
     \<and> mset (opened f) = mset (closed f) + mset (map c_fd (active (strm f)))"

lemma fan_init_ok: "recv_buf_size \<le> length mem \<Longrightarrow> fan_ok (fan_init mem)"
  by (auto simp: fan_ok_def fan_init_def stream_init_def stream_ok_def ring_rel_def active_def recv_buf_size_def)

lemma fan_step_ok:
  assumes ok: "fan_ok f" and "fan_legal e"
  shows "fan_ok (fan_step e f)"
proof (cases e)
  case (SrtAttach sock)
  then show ?thesis
    using ok srt_attach_ok [of "strm f" "hist f" sock]
    by (auto simp: fan_ok_def simp del: mset_map split: prod.splits)
next
  case (SrtMessage d rss)
  obtain cl s where m: "srt_message (strm f) d rss = (cl, s)" by (cases "srt_message (strm f) d rss")
  have "length d \<le> scap (strm f)" using ok assms(2) SrtMessage by (simp add: fan_ok_def)
  then show ?thesis
    using ok srt_message_step [OF _ _ m, of "hist f"] by (auto simp: fan_ok_def SrtMessage m)
next
  case (SrtDetach sock)
  then show ?thesis using ok by (simp add: fan_ok_def srt_detach_ok)
next
  case (HttpJoin cli)
  obtain b s where i: "install_client (strm f) cli = (b, s)" by (cases "install_client (strm f) cli")
  have "stream_ok s (hist f) \<and> sbuf s = sbuf (strm f) \<and> srt_sock s = srt_sock (strm f)
    \<and> map c_fd (active s) = map c_fd (active (strm f)) @ (if b then [cli] else [])"
    using install_client_ok [OF _ _ i, of "hist f"] ok assms(2) HttpJoin by (simp add: fan_ok_def)
  then show ?thesis using ok by (simp add: fan_ok_def HttpJoin i del: mset_map)
qed

lemma fan_run_ok: "fan_ok f \<Longrightarrow> \<forall>e \<in> set evs. fan_legal e \<Longrightarrow> fan_ok (fan_run evs f)"
  by (induction evs arbitrary: f) (simp_all add: fan_run_def fan_step_ok)

text \<open>
  One accepted connection of the producer thread: a wrong \<open>SRTO_STREAMID\<close> is closed at once, else the
  session attaches, receives until it ends (viewers join meanwhile) and detaches.
\<close>

definition sid_accepted :: "string \<Rightarrow> string \<Rightarrow> bool" where
  "sid_accepted want sid \<longleftrightarrow> want = [] \<or> sid = want"

primrec in_session :: "'a fan_event \<Rightarrow> bool" where
  "in_session (SrtAttach sock) \<longleftrightarrow> False"
| "in_session (SrtMessage d rss) \<longleftrightarrow> True"
| "in_session (SrtDetach sock) \<longleftrightarrow> False"
| "in_session (HttpJoin cli) \<longleftrightarrow> True"

definition producer_conn :: "string \<Rightarrow> string \<times> int \<times> 'a fan_event list \<Rightarrow> 'a fan_event list" where
  "producer_conn want conn =
     (case conn of (sid, sock, evs) \<Rightarrow>
        if sid_accepted want sid then SrtAttach sock # filter in_session evs @ [SrtDetach sock]
        else filter (\<lambda>e. \<exists>c. e = HttpJoin c) evs)"

lemma fan_run_append: "fan_run (es @ fs) f = fan_run fs (fan_run es f)"
  by (simp add: fan_run_def)

lemma fan_run_Cons: "fan_run (e # es) f = fan_run es (fan_step e f)"
  by (simp add: fan_run_def)

lemma fan_run_Nil [simp]: "fan_run [] f = f"
  by (simp add: fan_run_def)

lemma srt_message_sock: "srt_message s d rss = (cl, s') \<Longrightarrow> srt_sock s' = srt_sock s"
  by (auto simp: srt_message_def compact_clients_def prune_lagged_def Let_def split: prod.splits)

lemma fan_step_in_session:
  "in_session e \<Longrightarrow> replaced (fan_step e f) = replaced f \<and> srt_sock (strm (fan_step e f)) = srt_sock (strm f)"
  by (cases e) (auto simp: install_client_def dest: srt_message_sock split: prod.splits)

lemma fan_run_in_session:
  "\<forall>e \<in> set es. in_session e
    \<Longrightarrow> replaced (fan_run es f) = replaced f \<and> srt_sock (strm (fan_run es f)) = srt_sock (strm f)"
  by (induction es arbitrary: f) (simp_all add: fan_run_Cons fan_step_in_session)

lemma producer_conn_sock:
  assumes "srt_sock (strm f) = srt_invalid_sock"
  shows "replaced (fan_run (producer_conn want conn) f) = replaced f
    \<and> srt_sock (strm (fan_run (producer_conn want conn) f)) = srt_invalid_sock"
proof -
  obtain sid sock evs where c: "conn = (sid, sock, evs)" by (cases conn) auto
  show ?thesis
  proof (cases "sid_accepted want sid")
    case True
    define g where "g = fan_step (SrtAttach sock) f"
    have g: "replaced g = replaced f" "srt_sock (strm g) = sock"
      using assms by (simp_all add: g_def srt_attach_def Let_def)
    define k where "k = fan_run (filter in_session evs) g"
    have "replaced k = replaced f" "srt_sock (strm k) = sock"
      using fan_run_in_session [of "filter in_session evs" g] g by (simp_all add: k_def)
    moreover have "fan_run (producer_conn want conn) f = fan_step (SrtDetach sock) k"
      by (simp add: c True producer_conn_def fan_run_Cons fan_run_append g_def k_def del: fan_step.simps)
    ultimately show ?thesis by (simp add: srt_detach_def)
  next
    case False
    have "\<forall>e \<in> set (filter (\<lambda>e. \<exists>c. e = HttpJoin c) evs). in_session e" by auto
    then show ?thesis
      using fan_run_in_session [of "filter (\<lambda>e. \<exists>c. e = HttpJoin c) evs" f] assms
      by (simp add: c False producer_conn_def)
  qed
qed

subsection \<open>Catching up\<close>

lemma data_loop_all:
  assumes "0 < scap s" "\<forall>r \<in> set rs. \<exists>k. r = Sent k" "total_bytes s - cur \<le> length rs" "cur \<le> total_bytes s"
  shows "fst (data_loop rs s cur) = Done \<and> fst (snd (data_loop rs s cur)) = total_bytes s"
  using assms(2-4)
proof (induction rs arbitrary: cur)
  case (Cons x rs)
  obtain k where x: "x = Sent k" using Cons.prems(1) by auto
  show ?case
  proof (cases "cur < total_bytes s")
    case True
    define m where "m = min (max 1 k) (chunk_len s cur)"
    have "cur mod scap s < scap s" using assms(1) by simp
    then have m: "1 \<le> m" "cur + m \<le> total_bytes s"
      using True by (auto simp: m_def chunk_len_def Let_def min_def max_def)
    have "fst (data_loop rs s (cur + m)) = Done \<and> fst (snd (data_loop rs s (cur + m))) = total_bytes s"
      by (rule Cons.IH) (use Cons.prems m in auto)
    then show ?thesis using True by (simp add: x m_def split_def Let_def)
  qed (use Cons.prems in simp)
qed simp

lemma replay_loop_all:
  assumes "\<forall>r \<in> set rs. \<exists>k. r = Sent k" "length hdr - off \<le> length rs"
    "replay_loop rs hdr off = (r, off', out, rest)"
  shows "r = Done \<and> set rest \<subseteq> set rs \<and> length rs \<le> length rest + (length hdr - off)"
  using assms
proof (induction rs arbitrary: off r off' out rest)
  case (Cons x rs)
  obtain k where x: "x = Sent k" using Cons.prems(1) by auto
  show ?case
  proof (cases "off < length hdr")
    case True
    define m where "m = min (max 1 k) (length hdr - off)"
    have m: "1 \<le> m" "off + m \<le> length hdr" using True by (auto simp: m_def)
    obtain r2 o2 out2 q where e: "replay_loop rs hdr (off + m) = (r2, o2, out2, q)"
      by (cases "replay_loop rs hdr (off + m)") auto
    then have "r = r2" "rest = q" using Cons.prems(3) True by (auto simp: x m_def Let_def)
    moreover have "length hdr - (off + m) \<le> length rs" using Cons.prems(2) m by simp
    then have "r2 = Done \<and> set q \<subseteq> set rs \<and> length rs \<le> length q + (length hdr - (off + m))"
      using Cons.IH [OF _ _ e] Cons.prems(1) by simp
    ultimately show ?thesis using m by auto
  qed (use Cons.prems in simp)
qed (auto split: if_splits)

lemma write_all_all:
  assumes "\<forall>r \<in> set rs. \<exists>k. r = Sent k" "left \<le> length rs"
  shows "\<exists>rest. write_all rs left = (True, rest) \<and> set rest \<subseteq> set rs \<and> length rs \<le> length rest + left"
  using assms
proof (induction rs arbitrary: left)
  case (Cons x rs)
  obtain k where x: "x = Sent k" using Cons.prems(1) by auto
  show ?case
  proof (cases "left = 0")
    case False
    have "left - max 1 k \<le> length rs" using Cons.prems(2) by (auto simp: max_def)
    then obtain rest where r: "write_all rs (left - max 1 k) = (True, rest)" "set rest \<subseteq> set rs" "length rs \<le> length rest + (left - max 1 k)"
      using Cons.IH [of "left - max 1 k"] Cons.prems(1) by auto
    have "length (x # rs) \<le> length rest + left" using r(3) False by (auto simp: max_def split: if_splits)
    then show ?thesis using r False x by auto
  qed (use Cons.prems x in auto)
qed simp

text \<open>A viewer whose socket takes everything is brought up to date by one drain.\<close>

lemma drain_client_all:
  assumes ok: "client_ok s h c" and rel: "ring_rel s h" and win: "length h \<le> cursor c + scap s"
    and hdr: "flv_header s = take header_cache_size h"
    and rs0: "\<forall>r \<in> set rs0. \<exists>k. r = Sent k"
    and len0: "length HTTP_FLV_HDR + length (flv_header s) + (length h - cursor c) \<le> length rs0"
    and d: "drain_client rs0 s c = (b, c')"
  shows "b \<and> header_sent c' \<and> cursor c' = length h
    \<and> flv_hdr_off c' = (if flv_hdr_sent c then flv_hdr_off c else length (flv_header s))"
proof -
  obtain rs where http: "http_step rs0 c = (True, rs)" and sub: "set rs \<subseteq> set rs0" and len: "length (flv_header s) + (length h - cursor c) \<le> length rs"
    using write_all_all [OF rs0, of "length HTTP_FLV_HDR"] len0 by (cases "header_sent c") (auto simp: http_step_def)
  have rs: "\<forall>r \<in> set rs. \<exists>k. r = Sent k" using rs0 sub by blast
  define c1 where "c1 = c\<lparr>header_sent := True\<rparr>"
  obtain r off out rs2 where rep: "replay_step rs s c1 = (r, off, out, rs2)"
    by (cases "replay_step rs s c1") auto
  have fields: "flv_hdr_off c1 = flv_hdr_off c" "flv_hdr_sent c1 = flv_hdr_sent c"
    by (simp_all add: c1_def)
  have replay: "r = Done \<and> (\<forall>x \<in> set rs2. \<exists>k. x = Sent k) \<and> length h - cursor c \<le> length rs2
    \<and> off = (if flv_hdr_sent c then flv_hdr_off c else length (flv_header s))"
  proof (cases "\<not> flv_hdr_sent c \<and> flv_header s \<noteq> []")
    case True
    then have rl: "replay_loop rs (flv_header s) (flv_hdr_off c) = (r, off, out, rs2)"
      using rep by (simp add: replay_step_def fields)
    have le: "length (flv_header s) - flv_hdr_off c \<le> length rs" using len by simp
    show ?thesis
      using replay_loop_all [OF rs le rl] replay_loop_slice [OF rl] ok rs len True
      by (auto simp: client_ok_def)
  next
    case False
    then show ?thesis using rep rs len ok by (auto simp: replay_step_def fields client_ok_def)
  qed
  define c2 where "c2 = c1\<lparr>flv_hdr_off := off, got := got c1 @ out\<rparr>"
  define c3 where "c3 = (if flv_header s \<noteq> [] then c2\<lparr>flv_hdr_sent := True\<rparr> else c2)"
  have "drain_client rs0 s c = live_step rs2 s c3"
    using rep replay http
    by (simp add: drain_client_def http_step_def Let_def c1_def c2_def c3_def)
  then have "live_step rs2 s c3 = (b, c')" using d by simp
  moreover have "cursor c3 = cursor c" "flv_hdr_off c3 = off" "header_sent c3" by (simp_all add: c3_def c2_def c1_def)
  moreover have "fst (data_loop rs2 s (cursor c)) = Done \<and> fst (snd (data_loop rs2 s (cursor c))) = length h"
    using data_loop_all [of s rs2 "cursor c"] rel replay ok by (simp add: ring_rel_def client_ok_def)
  ultimately show ?thesis using replay by (auto simp: live_step_def split: prod.splits)
qed

subsection \<open>Properties\<close>

text \<open>A run in which two bytes arrive for a viewer that joined before them; it gets them twice.\<close>

definition demo_events :: "nat fan_event list" where
  "demo_events = [SrtAttach 3, HttpJoin 5, SrtMessage [7, 8] [[Sent 1000, Sent 1, Sent 9, Sent 9]]]"

definition demo_run :: "nat fan" where
  "demo_run = fan_run demo_events (fan_init (replicate 2048 0))"

lemma http_hdr_len: "length HTTP_FLV_HDR = 151"
  by (simp add: HTTP_FLV_HDR_def crlf_def)

lemma replicate_8: "replicate 8 x = [x, x, x, x, x, x, x, x]"
  by (simp add: numeral_eq_Suc)

lemmas demo_simps = fan_init_def stream_init_def srt_attach_def install_client_def
  srt_message_def cache_header_def ring_write_def prune_lagged_def drain_client_def http_step_def
  replay_step_def live_step_def compact_clients_def compact_move.simps active_def max_http_clients_def
  header_cache_size_def empty_client_def chunk_len_def Let_def http_hdr_len replicate_8
  numeral_2_eq_2 [symmetric]

lemma demo_legal: "\<forall>e \<in> set demo_events. fan_legal e"
  by (simp add: demo_events_def recv_buf_size_def)

lemma demo_active:
  "active (strm demo_run) = [\<lparr>c_fd = 5, cursor = 2, header_sent = True, flv_hdr_sent = True,
     flv_hdr_off = 2, got = [7, 8, 7, 8], joined = 0\<rparr>]"
  "hist demo_run = [7, 8]" "closed demo_run = []" "opened demo_run = [5]" "n_clients (strm demo_run) = 1"
  by (simp_all add: demo_run_def demo_events_def fan_run_def demo_simps)

text \<open>
  C1. Whatever the order of the SRT messages, reconnects and viewer arrivals and however the sockets
  behave, what a viewer has received after the HTTP header is a prefix of the session's first 2,048
  bytes followed by a gap-free slice of the session that starts where the viewer joined: the ring,
  its wrap-around and the partial sends lose, repeat or reorder nothing inside the slice.
\<close>

theorem viewer_receives_slice:
  assumes "recv_buf_size \<le> length mem" "\<forall>e \<in> set evs. fan_legal e"
    "f = fan_run evs (fan_init mem)" "c \<in> set (active (strm f))"
  shows "got c = take (flv_hdr_off c) (take header_cache_size (hist f))
             @ take (cursor c - joined c) (drop (joined c) (hist f))
    \<and> joined c \<le> cursor c \<and> cursor c \<le> length (hist f)"
proof -
  have "fan_ok f" using fan_run_ok [OF fan_init_ok] assms by blast
  then have "client_ok (strm f) (hist f) c \<and> flv_header (strm f) = take header_cache_size (hist f)"
    using assms(4) by (simp add: fan_ok_def stream_ok_def)
  then show ?thesis by (simp add: client_ok_def)
qed

theorem viewer_receives_slice_witness:
  "[7, 8, 7, 8] = take 2 (take header_cache_size [7, 8]) @ take (2 - 0) (drop 0 [7, 8 :: nat]) \<and> (0::nat) \<le> 2 \<and> (2::nat) \<le> length [7, 8 :: nat]"
  using viewer_receives_slice [of "replicate 2048 0" demo_events demo_run "hd (active (strm demo_run))"] demo_legal
  by (simp add: demo_active recv_buf_size_def demo_run_def [symmetric])

text \<open>
  Viewer sockets are neither leaked nor closed twice, and there are at most eight of them: at any
  moment the sockets accepted are exactly those closed plus those in the table.
\<close>

theorem viewer_sockets_accounted:
  assumes "recv_buf_size \<le> length mem" "\<forall>e \<in> set evs. fan_legal e"
    "f = fan_run evs (fan_init mem)"
  shows "mset (opened f) = mset (closed f) + mset (map c_fd (active (strm f)))
    \<and> length (active (strm f)) = n_clients (strm f) \<and> n_clients (strm f) \<le> max_http_clients"
proof -
  have "fan_ok f" using fan_run_ok [OF fan_init_ok] assms by blast
  then show ?thesis by (simp add: fan_ok_def stream_ok_def active_def)
qed

theorem viewer_sockets_accounted_witness:
  "mset [5 :: int] = mset [] + mset (map c_fd (active (strm demo_run))) \<and> n_clients (strm demo_run) = 1
    \<and> n_clients (strm demo_run) \<le> max_http_clients"
  using viewer_sockets_accounted [of "replicate 2048 0" demo_events demo_run] demo_legal
  by (simp add: demo_active recv_buf_size_def demo_run_def [symmetric])

text \<open>
  The branch of the accept loop that replaces a registered provider is dead: with the one producer
  thread, a second provider is accepted only after the first connection has ended, so no attach ever
  finds a socket to close, and every connection leaves the slot empty.
\<close>

theorem provider_never_replaced:
  "replaced (fan_run (concat (map (producer_conn want) conns)) (fan_init mem)) = []
    \<and> srt_sock (strm (fan_run (concat (map (producer_conn want) conns)) (fan_init mem))) = srt_invalid_sock"
proof (induction conns rule: rev_induct)
  case Nil
  show ?case by (simp add: fan_init_def stream_init_def)
next
  case (snoc conn conns)
  then show ?case by (simp add: fan_run_append producer_conn_sock)
qed

text \<open>
  C33. A viewer within the ring's window, newly joined or not, whose socket accepts the data is brought fully up
  to date by one drain: HTTP header, cached prefix and live data.  It then has the prefix that was
  replayed to it and everything from the point where it joined; one whose prefix had not been
  replayed and which stands at the start of the session - every viewer after a provider's reconnect -
  has received the first (up to) 2,048 bytes twice.
\<close>

theorem drain_catches_up:
  assumes "stream_ok s h" "c \<in> set (active s)" "length h \<le> cursor c + scap s"
    "\<forall>r \<in> set rs. \<exists>k. r = Sent k" "length HTTP_FLV_HDR + header_cache_size + length h \<le> length rs"
    "drain_client rs s c = (b, c')"
  shows "b \<and> header_sent c' \<and> cursor c' = length h
    \<and> got c' = take (if flv_hdr_sent c then flv_hdr_off c else header_cache_size) h @ drop (joined c) h"
proof -
  have ok: "client_ok s h c" and rel: "ring_rel s h" and hdr: "flv_header s = take header_cache_size h"
    using assms(1,2) by (simp_all add: stream_ok_def)
  have "length HTTP_FLV_HDR + length (flv_header s) + (length h - cursor c) \<le> length rs" using hdr assms(5) by simp
  from drain_client_all [OF ok rel assms(3) hdr assms(4) this assms(6)] drain_client_ok [OF ok rel assms(3) hdr assms(6)]
  have d: "client_ok s h c'" "joined c' = joined c" "b" "header_sent c'" "cursor c' = length h"
    "flv_hdr_off c' = (if flv_hdr_sent c then flv_hdr_off c else length (flv_header s))"
    by simp_all
  have "flv_hdr_off c \<le> length (flv_header s)" using ok by (simp add: client_ok_def)
  then have "take (flv_hdr_off c') (flv_header s) = take (if flv_hdr_sent c then flv_hdr_off c else header_cache_size) h"
    using d(6) hdr by (auto simp: min_def)
  then show ?thesis using d by (simp add: client_ok_def)
qed

definition demo_viewer :: "nat http_client" where
  "demo_viewer = \<lparr>c_fd = 5, cursor = 0, header_sent = False, flv_hdr_sent = False, flv_hdr_off = 0,
     got = [], joined = 0\<rparr>"

definition demo_stream :: "nat stream" where
  "demo_stream = \<lparr>sbuf = [7, 8, 0, 0], total_bytes = 2, clients = demo_viewer # replicate 7 empty_client,
     n_clients = 1, srt_sock = 3, flv_header = [7, 8]\<rparr>"

theorem drain_catches_up_witness:
  "\<exists>b c'. drain_client (replicate 3000 (Sent 1)) demo_stream demo_viewer = (b, c')
     \<and> b \<and> got c' = [7, 8, 7, 8 :: nat]"
proof -
  obtain b c' where d: "drain_client (replicate 3000 (Sent 1)) demo_stream demo_viewer = (b, c')"
    by (cases "drain_client (replicate 3000 (Sent 1)) demo_stream demo_viewer") auto
  have "stream_ok demo_stream [7, 8]" "demo_viewer \<in> set (active demo_stream)"
    by (auto simp: demo_stream_def demo_viewer_def stream_ok_def ring_rel_def active_def client_ok_def
        byte_at_def header_cache_size_def max_http_clients_def less_Suc_eq)
  from drain_catches_up [OF this _ _ _ d] have "b \<and> got c' = [7, 8, 7, 8]"
    by (simp add: demo_stream_def demo_viewer_def header_cache_size_def HTTP_FLV_HDR_def crlf_def)
  with d show ?thesis by blast
qed

end
