(* ===== verification/SrtSource.thy ===== *)
theory SrtSource
  imports Config "HOL-Library.Sublist"
begin

text \<open>
  The media side of \<open>srt_thread.c\<close>: the configuration snapshot a session works from, the HTTP request
  to the camera's own server and the parser of its response head, the rendezvous connect with its
  hand-over of the UDP descriptor, and the pump from the HTTP source to the SRT socket.
\<close>

subsection \<open>The configuration snapshot\<close>

record srt_cfg =
  sc_ctrl_host :: string
  sc_ctrl_port :: int
  sc_ctrl_scheme :: string
  sc_ctrl_token :: string
  sc_edge_host :: string
  sc_edge_port :: int
  sc_relay_host :: string
  sc_relay_port :: int
  sc_relay_user :: string
  sc_relay_pass :: string
  sc_src_host :: string
  sc_src_port :: int
  sc_src_path :: string
  sc_src_auth :: string
  sc_node_id :: string
  sc_latency_ms :: int
  sc_verbose :: int

definition snapshot_config :: "ap2p_state \<Rightarrow> srt_cfg" where
  "snapshot_config st = \<lparr>
     sc_ctrl_host = bcopy 128 (ctrl_host st), sc_ctrl_port = ctrl_port st,
     sc_ctrl_scheme = bcopy 8 (if ctrl_scheme st \<noteq> [] then ctrl_scheme st else ''plain''),
     sc_ctrl_token = bcopy 128 (ctrl_token st),
     sc_edge_host = bcopy 128 (edge_host st),
     sc_edge_port = (if edge_port st > 0 then edge_port st else 3478),
     sc_relay_host = bcopy 128 (relay_host st),
     sc_relay_port = (if relay_port st > 0 then relay_port st else 3478),
     sc_relay_user = bcopy 128 (relay_user st), sc_relay_pass = bcopy 128 (relay_pass st),
     sc_src_host = bcopy 128 (if src_host st \<noteq> [] then src_host st else ''127.0.0.1''),
     sc_src_port = (if src_port st > 0 then src_port st else 80),
     sc_src_path = bcopy 512 (src_path st), sc_src_auth = bcopy 256 (src_auth st),
     sc_node_id = bcopy 256 (node_id st),
     sc_latency_ms = (if latency_ms st > 0 then latency_ms st else 300),
     sc_verbose = verbose st\<rparr>"

subsection \<open>TCP connects\<close>

text \<open>
  \<open>ctrl_tcp_connect\<close> and \<open>connect_src\<close> differ in socket options only: name resolution, \<open>socket\<close>,
  \<open>connect\<close>.  The result is the descriptor, and those closed on the way.
\<close>

definition tcp_connect :: "bool \<Rightarrow> int option \<Rightarrow> bool \<Rightarrow> int option \<times> int list" where
  "tcp_connect resolved sock conn_ok =
     (if \<not> resolved then (None, [])
      else case sock of None \<Rightarrow> (None, [])
        | Some fd \<Rightarrow> if \<not> conn_ok then (None, [fd]) else (Some fd, []))"

subsection \<open>The HTTP source\<close>

definition cr_lf :: string where "cr_lf = [CHR 0x0D, CHR 0x0A]"

definition http_get_text :: "srt_cfg \<Rightarrow> string" where
  "http_get_text cfg =
     ''GET '' @ sc_src_path cfg @ '' HTTP/1.1'' @ cr_lf @ ''Host: '' @ sc_src_host cfg @ '':''
     @ show_int (sc_src_port cfg) @ cr_lf @ ''User-Agent: ap2p/2.0'' @ cr_lf
     @ ''Accept: */*'' @ cr_lf @ ''Connection: keep-alive'' @ cr_lf
     @ (if sc_src_auth cfg \<noteq> [] then ''Authorization: '' else []) @ sc_src_auth cfg
     @ (if sc_src_auth cfg \<noteq> [] then cr_lf else []) @ cr_lf"

text \<open>\<open>send_http_get\<close>: the text must fit \<open>req[1024]\<close> and go out in one \<open>send\<close>; \<open>sent\<close> is its result.\<close>

definition send_http_get :: "srt_cfg \<Rightarrow> int \<Rightarrow> string option" where
  "send_http_get cfg sent =
     (let req = http_get_text cfg in
      if length req \<ge> 1024 then None else if sent \<noteq> int (length req) then None else Some req)"

text \<open>
  The scan for the blank line: the offset after it in the bytes scanned, and the parser's memory of
  a line end (\<open>prev_was_le\<close>); a carriage return is ignored wherever it stands.
\<close>

primrec scan_head :: "bool \<Rightarrow> string \<Rightarrow> nat option" where
  "scan_head le [] = None"
| "scan_head le (c # cs) =
     (if c = CHR 0x0A then (if le then Some 1 else map_option Suc (scan_head True cs))
      else map_option Suc (scan_head (if c \<noteq> CHR 0x0D then False else le) cs))"

primrec scan_le :: "bool \<Rightarrow> string \<Rightarrow> bool" where
  "scan_le le [] = le"
| "scan_le le (c # cs) = scan_le (if c = CHR 0x0A then True else if c \<noteq> CHR 0x0D then False else le) cs"

text \<open>
  The receive loop of \<open>read_http_response_headers\<close> over what \<open>recv\<close> returns (no bytes, or the end of
  the list, is a closed or failed connection): the buffer filled so far and the body's offset in it.
\<close>

fun head_loop :: "nat \<Rightarrow> string list \<Rightarrow> string \<Rightarrow> bool \<Rightarrow> (string \<times> nat \<times> string list) option" where
  "head_loop cap [] buf le = None"
| "head_loop cap (k # ks) buf le =
     (if length buf < cap \<and> k \<noteq> [] then
        (let seg = take (cap - length buf) k in
         case scan_head le seg of
           Some i \<Rightarrow> Some (buf @ seg, length buf + i, ks)
         | None \<Rightarrow> head_loop cap ks (buf @ seg) (scan_le le seg))
      else None)"

text \<open>\<open>mem\<close> is the rest of the heap block behind the bytes received, which \<open>atoi\<close> may look at.\<close>

definition read_http_response_headers ::
    "string \<Rightarrow> nat \<Rightarrow> string list \<Rightarrow> (string \<times> string list) option" where
  "read_http_response_headers mem cap segs =
     (case head_loop cap segs [] False of
        None \<Rightarrow> None
      | Some (buf, body_off, rest) \<Rightarrow>
          if length buf < 12 \<or> take 7 buf \<noteq> ''HTTP/1.'' then None
          else if atoi (cstr (drop 9 buf @ mem)) \<noteq> 200 then None
          else Some (drop body_off buf, rest))"

subsection \<open>The rendezvous connect\<close>

text \<open>
  What happens to the handed-over UDP descriptor and the SRT socket.  \<open>Acquired\<close> is the moment libsrt
  owns the descriptor: from then on closing the SRT socket closes it.
\<close>

datatype rdv_event = SrtCreated int | Acquired int int | SrtClosed int | FdClosed int

record rdv_calls =
  rv_create :: "int option"
  rv_options :: "bool list"
  rv_acquire :: bool
  rv_resolve :: bool
  rv_connect :: bool

text \<open>The seven options are set in order, and the stream id when there is a node id.\<close>

definition set_srt_options_caller :: "srt_cfg \<Rightarrow> bool list \<Rightarrow> bool" where
  "set_srt_options_caller cfg oks \<longleftrightarrow>
     (\<forall>b \<in> set (take (if sc_node_id cfg \<noteq> [] then 8 else 7) oks). b)"

definition srt_rendezvous_connect :: "srt_cfg \<Rightarrow> int \<Rightarrow> rdv_calls \<Rightarrow> int option \<times> rdv_event list" where
  "srt_rendezvous_connect cfg fd r =
     (case rv_create r of
        None \<Rightarrow> (None, [FdClosed fd])
      | Some s \<Rightarrow>
          if \<not> set_srt_options_caller cfg (rv_options r) then (None, [SrtCreated s, SrtClosed s, FdClosed fd])
          else if \<not> rv_acquire r then (None, [SrtCreated s, SrtClosed s, FdClosed fd])
          else if \<not> rv_resolve r then (None, [SrtCreated s, Acquired s fd, SrtClosed s])
          else if \<not> rv_connect r then (None, [SrtCreated s, Acquired s fd, SrtClosed s])
          else (Some s, [SrtCreated s, Acquired s fd]))"

subsection \<open>The pump\<close>

definition srt_payload_size :: nat where "srt_payload_size = 1316"
definition local_buffer_size :: nat where "local_buffer_size = 256 * 1024"

text \<open>
  One iteration of \<open>srt_pump_bytes\<close>: the shutdown flag is seen, or \<open>srt_send\<close> takes up to \<open>k\<close> bytes of
  the chunk, or it fails.  A list that has run out is the flag, which never goes back: a caller whose
  loop also tests it stops at its next test, so the two ways of returning 0 are kept apart.
\<close>

datatype srt_ans = StopSeen | SrtSent nat | SrtFail
datatype pump_res = PumpOk | PumpStopped | PumpFailed

primrec srt_pump_bytes :: "srt_ans list \<Rightarrow> string \<Rightarrow> pump_res \<times> string \<times> srt_ans list" where
  "srt_pump_bytes [] buf = (if buf = [] then PumpOk else PumpStopped, [], [])"
| "srt_pump_bytes (a # as) buf =
     (if buf = [] then (PumpOk, [], a # as)
      else case a of
        StopSeen \<Rightarrow> (PumpStopped, [], as)
      | SrtFail \<Rightarrow> (PumpFailed, [], as)
      | SrtSent k \<Rightarrow>
          (let m = min k (min srt_payload_size (length buf));
               (res, out, rest) = srt_pump_bytes as (drop m buf)
           in (res, take m buf @ out, rest)))"

text \<open>One turn of the drain loop: the stop or cancel flag, the result of \<open>poll\<close>, or that of \<open>recv\<close>.\<close>

datatype src_obs = Stopped | PollIntr | PollFailed | PollTimeout | PollHup
  | RecvClosed | RecvRetry | RecvFailed | RecvData string

primrec pump_loop :: "src_obs list \<Rightarrow> srt_ans list \<Rightarrow> string" where
  "pump_loop [] ans = []"
| "pump_loop (e # es) ans =
     (case e of
        Stopped \<Rightarrow> []
      | PollIntr \<Rightarrow> pump_loop es ans
      | PollFailed \<Rightarrow> []
      | PollTimeout \<Rightarrow> pump_loop es ans
      | PollHup \<Rightarrow> []
      | RecvClosed \<Rightarrow> []
      | RecvRetry \<Rightarrow> pump_loop es ans
      | RecvFailed \<Rightarrow> []
      | RecvData d \<Rightarrow>
          (let (res, out, rest) = srt_pump_bytes ans (take local_buffer_size d)
           in if res = PumpOk then out @ pump_loop es rest else out))"

text \<open>\<open>pump_src_to_srt\<close>: the return value (true for 0) and the bytes handed to SRT.\<close>

definition pump_src_to_srt ::
    "srt_cfg \<Rightarrow> bool \<Rightarrow> int \<Rightarrow> string \<Rightarrow> string list \<Rightarrow> src_obs list \<Rightarrow> srt_ans list \<Rightarrow> bool \<times> string" where
  "pump_src_to_srt cfg have_mem sent mem segs obs ans =
     (if \<not> have_mem then (False, [])
      else if sc_src_path cfg = [] then (True, pump_loop obs ans)
      else case send_http_get cfg sent of
        None \<Rightarrow> (False, [])
      | Some _ \<Rightarrow>
          (case read_http_response_headers mem local_buffer_size segs of
             None \<Rightarrow> (False, [])
           | Some (body, _) \<Rightarrow>
               (let (res, out, rest) = srt_pump_bytes ans body in
                case res of
                  PumpFailed \<Rightarrow> (False, out)
                | PumpStopped \<Rightarrow> (True, out)
                | PumpOk \<Rightarrow> (True, out @ pump_loop obs rest))))"

subsection \<open>The response head, however it is cut up\<close>

lemma scan_head_append:
  "scan_head le (a @ b) = (case scan_head le a of Some i \<Rightarrow> Some i
     | None \<Rightarrow> map_option (\<lambda>i. length a + i) (scan_head (scan_le le a) b))"
proof (induction a arbitrary: le)
  case Nil
  show ?case by (cases "scan_head le b") simp_all
next
  case (Cons c a)
  define le' where "le' = (if c = CHR 0x0A then True else if c \<noteq> CHR 0x0D then False else le)"
  show ?case
  proof (cases "c = CHR 0x0A \<and> le")
    case False
    then have "scan_head le (c # x) = map_option Suc (scan_head le' x)" for x by (auto simp: le'_def)
    moreover have "scan_le le (c # a) = scan_le le' a" by (simp add: le'_def)
    ultimately show ?thesis
      using Cons.IH [of le']
      by (cases "scan_head le' a"; cases "scan_head (scan_le le' a) b") simp_all
  qed simp
qed

lemma scan_le_append: "scan_le le (a @ b) = scan_le (scan_le le a) b"
  by (induction a arbitrary: le) auto

lemma scan_head_le_length: "scan_head le s = Some i \<Longrightarrow> 0 < i \<and> i \<le> length s"
  by (induction s arbitrary: le i) (auto split: if_splits)

lemma head_loop_whole:
  assumes "head_loop cap segs buf le = Some (buf', off, rest)" "length buf + length (concat segs) \<le> cap"
    "scan_head False buf = None" "scan_le False buf = le"
  shows "\<exists>used. segs = used @ rest \<and> buf' = buf @ concat used \<and> scan_head False buf' = Some off"
  using assms
proof (induction cap segs buf le rule: head_loop.induct)
  case (2 cap k ks buf le)
  have c: "length buf < cap" "k \<noteq> []" using "2.prems"(1) by (auto split: if_splits)
  have t: "take (cap - length buf) k = k" using "2.prems"(2) by simp
  show ?case
  proof (cases "scan_head le k")
    case (Some i)
    then have "buf' = buf @ k" "off = length buf + i" "rest = ks" using "2.prems"(1) c t by simp_all
    moreover have "scan_head False (buf @ k) = Some (length buf + i)"
      using "2.prems"(3,4) Some by (simp add: scan_head_append)
    ultimately show ?thesis by (intro exI [of _ "[k]"]) simp
  next
    case None
    have "\<exists>used. ks = used @ rest \<and> buf' = (buf @ take (cap - length buf) k) @ concat used
        \<and> scan_head False buf' = Some off"
    proof (rule "2.IH" [OF _ refl])
      show "length buf < cap \<and> k \<noteq> []" using c by simp
      show "scan_head le (take (cap - length buf) k) = None" using None t by simp
      show "head_loop cap ks (buf @ take (cap - length buf) k) (scan_le le (take (cap - length buf) k)) = Some (buf', off, rest)"
        using "2.prems"(1) c t None by simp
      show "length (buf @ take (cap - length buf) k) + length (concat ks) \<le> cap"
        using "2.prems"(2) t by simp
      show "scan_head False (buf @ take (cap - length buf) k) = None"
        "scan_le False (buf @ take (cap - length buf) k) = scan_le le (take (cap - length buf) k)"
        using None t "2.prems"(3,4) by (simp_all add: scan_head_append scan_le_append)
    qed
    then obtain used where "ks = used @ rest" "buf' = (buf @ k) @ concat used" "scan_head False buf' = Some off"
      unfolding t by blast
    then show ?thesis by (intro exI [of _ "k # used"]) simp
  qed
qed simp

lemma head_loop_finds:
  assumes "[] \<notin> set segs" "length buf + length (concat segs) \<le> cap"
    "scan_head le (concat segs) \<noteq> None"
  shows "head_loop cap segs buf le \<noteq> None"
  using assms
proof (induction segs arbitrary: buf le)
  case (Cons k ks)
  have k: "k \<noteq> []" "length buf < cap" "take (cap - length buf) k = k"
    using Cons.prems(1,2) by (cases k; auto)+
  show ?case
  proof (cases "scan_head le k")
    case None
    then have "head_loop cap ks (buf @ k) (scan_le le k) \<noteq> None"
      using Cons.prems by (intro Cons.IH) (auto simp: scan_head_append)
    then show ?thesis using k None by simp
  qed (use k in simp)
qed simp

subsection \<open>The pump forwards a prefix\<close>

lemma srt_pump_bytes_prefix:
  "srt_pump_bytes ans buf = (res, out, rest) \<Longrightarrow> prefix out buf \<and> (res = PumpOk \<longrightarrow> out = buf)"
proof (induction ans arbitrary: buf res out rest)
  case (Cons a as)
  show ?case
  proof (cases "buf \<noteq> [] \<and> (\<exists>k. a = SrtSent k)")
    case True
    then obtain k where a: "a = SrtSent k" by blast
    define m where "m = min k (min srt_payload_size (length buf))"
    obtain r2 o2 t2 where e: "srt_pump_bytes as (drop m buf) = (r2, o2, t2)"
      by (cases "srt_pump_bytes as (drop m buf)") auto
    then have "res = r2" "out = take m buf @ o2"
      using Cons.prems True a by (auto simp: m_def Let_def)
    moreover have "prefix o2 (drop m buf) \<and> (r2 = PumpOk \<longrightarrow> o2 = drop m buf)"
      by (rule Cons.IH [OF e])
    ultimately show ?thesis by (metis append_take_drop_id same_prefix_prefix)
  next
    case False
    then show ?thesis using Cons.prems by (cases a) (auto split: if_splits)
  qed
qed (auto split: if_splits)

text \<open>What the drain loop receives before it ends.\<close>

primrec obs_data :: "src_obs list \<Rightarrow> string" where
  "obs_data [] = []"
| "obs_data (e # es) =
     (case e of
        RecvData d \<Rightarrow> take local_buffer_size d @ obs_data es
      | PollIntr \<Rightarrow> obs_data es
      | PollTimeout \<Rightarrow> obs_data es
      | RecvRetry \<Rightarrow> obs_data es
      | _ \<Rightarrow> [])"

lemma pump_loop_prefix: "prefix (pump_loop es ans) (obs_data es)"
proof (induction es arbitrary: ans)
  case (Cons e es)
  show ?case
  proof (cases e)
    case (RecvData d)
    obtain res out rest where p: "srt_pump_bytes ans (take local_buffer_size d) = (res, out, rest)"
      by (cases "srt_pump_bytes ans (take local_buffer_size d)") auto
    then show ?thesis
      using srt_pump_bytes_prefix [OF p] Cons.IH [of rest] RecvData
      by (auto simp: prefix_def)
  qed (use Cons.IH in auto)
qed simp

text \<open>An SRT socket that keeps sending: each answer takes at least a byte.\<close>

definition sending :: "srt_ans list \<Rightarrow> bool" where
  "sending ans \<longleftrightarrow> (\<forall>a \<in> set ans. \<exists>k. a = SrtSent k \<and> 0 < k)"

lemma srt_pump_bytes_sending:
  "sending ans \<Longrightarrow> length buf \<le> length ans \<Longrightarrow> srt_pump_bytes ans buf = (res, out, rest) \<Longrightarrow>
    res = PumpOk \<and> out = buf \<and> sending rest \<and> length ans \<le> length rest + length buf"
proof (induction ans arbitrary: buf res out rest)
  case (Cons a as)
  obtain k where a: "a = SrtSent k" "0 < k" using Cons.prems(1) by (auto simp: sending_def)
  show ?case
  proof (cases "buf = []")
    case False
    define m where "m = min k (min srt_payload_size (length buf))"
    have m: "0 < m" "m \<le> length buf" using False a by (auto simp: m_def srt_payload_size_def)
    obtain r2 o2 t2 where e: "srt_pump_bytes as (drop m buf) = (r2, o2, t2)"
      by (cases "srt_pump_bytes as (drop m buf)") auto
    then have r: "res = r2" "out = take m buf @ o2" "rest = t2"
      using Cons.prems(3) False a by (auto simp: m_def Let_def)
    have "length (drop m buf) \<le> length as" using Cons.prems(2) m by simp
    moreover have "sending as" using Cons.prems(1) by (simp add: sending_def)
    ultimately have "r2 = PumpOk \<and> o2 = drop m buf \<and> sending t2 \<and> length as \<le> length t2 + length (drop m buf)"
      using Cons.IH e by blast
    then show ?thesis using r m by auto
  qed (use Cons.prems in \<open>auto simp: sending_def\<close>)
qed (auto split: if_splits)

lemma pump_loop_sending:
  "sending ans \<Longrightarrow> length (obs_data es) \<le> length ans \<Longrightarrow> pump_loop es ans = obs_data es"
proof (induction es arbitrary: ans)
  case (Cons e es)
  show ?case
  proof (cases e)
    case (RecvData d)
    obtain res out rest where p: "srt_pump_bytes ans (take local_buffer_size d) = (res, out, rest)"
      by (cases "srt_pump_bytes ans (take local_buffer_size d)") auto
    have "res = PumpOk \<and> out = take local_buffer_size d \<and> sending rest
      \<and> length ans \<le> length rest + length (take local_buffer_size d)"
      using srt_pump_bytes_sending [OF Cons.prems(1) _ p] Cons.prems(2) RecvData by simp
    then show ?thesis using Cons.IH [of rest] Cons.prems(2) RecvData p by simp
  qed (use Cons in auto)
qed simp

subsection \<open>The snapshot\<close>

lemma snapshot_exact:
  assumes "wf_state st"
  shows "snapshot_config st = \<lparr>
     sc_ctrl_host = ctrl_host st, sc_ctrl_port = ctrl_port st,
     sc_ctrl_scheme = (if ctrl_scheme st \<noteq> [] then ctrl_scheme st else ''plain''),
     sc_ctrl_token = ctrl_token st, sc_edge_host = edge_host st,
     sc_edge_port = (if edge_port st > 0 then edge_port st else 3478),
     sc_relay_host = relay_host st,
     sc_relay_port = (if relay_port st > 0 then relay_port st else 3478),
     sc_relay_user = relay_user st, sc_relay_pass = relay_pass st,
     sc_src_host = (if src_host st \<noteq> [] then src_host st else ''127.0.0.1''),
     sc_src_port = (if src_port st > 0 then src_port st else 80),
     sc_src_path = src_path st, sc_src_auth = src_auth st, sc_node_id = node_id st,
     sc_latency_ms = (if latency_ms st > 0 then latency_ms st else 300), sc_verbose = verbose st\<rparr>"
proof -
  have f: "fits (str_size x) (get_str x st)" for x using assms by (simp add: wf_state_iff)
  show ?thesis
    using f [of F_ctrl_host] f [of F_ctrl_scheme] f [of F_ctrl_token] f [of F_edge_host] f [of F_relay_host]
      f [of F_relay_user] f [of F_relay_pass] f [of F_src_host] f [of F_src_path] f [of F_src_auth] f [of F_node_id]
    by (auto simp: snapshot_config_def bcopy_def fits_def)
qed

lemma http_get_length:
  assumes "wf_state st"
  shows "length (http_get_text (snapshot_config st)) < 1024"
proof -
  have f: "length (get_str x st) < str_size x" for x using assms by (simp add: wf_state_iff fits_def)
  have p: "int_min \<le> src_port st" "src_port st \<le> int_max"
    using assms wf_state_iff [of st] get_int.simps(4) [of st] by metis+
  have "length (show_int (src_port st)) \<le> 11" "length (show_int 80) \<le> 11"
    using length_show_int p by (auto simp: int_min_def int_max_def)
  then show ?thesis
    using f [of F_src_path] f [of F_src_host] f [of F_src_auth]
    by (simp add: http_get_text_def snapshot_exact [OF assms] cr_lf_def)
qed

subsection \<open>Properties\<close>

text \<open>
  On a well-formed state the session's snapshot truncates nothing, and the request it sends to the
  camera's server always fits its 1,024-byte buffer, so \<open>send_http_get\<close> fails only on a short send.
\<close>

theorem http_request_never_truncated:
  assumes "wf_state st"
  shows "send_http_get (snapshot_config st) (int (length (http_get_text (snapshot_config st))))
      = Some (http_get_text (snapshot_config st))
    \<and> sc_ctrl_host (snapshot_config st) = ctrl_host st \<and> sc_src_path (snapshot_config st) = src_path st
    \<and> sc_src_auth (snapshot_config st) = src_auth st \<and> sc_node_id (snapshot_config st) = node_id st"
  using http_get_length [OF assms] by (simp add: send_http_get_def Let_def snapshot_exact [OF assms])

theorem http_request_never_truncated_witness:
  "send_http_get (snapshot_config ap2p_state_init) 99 = None
    \<and> send_http_get (snapshot_config ap2p_state_init)
        (int (length (http_get_text (snapshot_config ap2p_state_init)))) \<noteq> None"
  using http_request_never_truncated [of ap2p_state_init]
  by (auto simp: wf_state_def all_str_fields_def all_int_fields_def ap2p_state_init_def int_min_def int_max_def
      send_http_get_def Let_def http_get_text_def snapshot_config_def bcopy_def cr_lf_def show_int_def
      show_nat.simps)

text \<open>
  The response head is found however the connection cuts the stream into segments: if the bytes
  hold a blank line, the parser stops at the first one and the body it keeps is what follows it in the
  segments read; nothing is lost and nothing of the head leaks into the stream.
\<close>

theorem response_head_split_invariant:
  assumes "concat segs = ''HTTP/1.1 200 '' @ tail" "[] \<notin> set segs" "length (concat segs) \<le> cap"
    "scan_head False (concat segs) = Some off"
  shows "\<exists>used rest. segs = used @ rest \<and> off \<le> length (concat used)
    \<and> read_http_response_headers mem cap segs = Some (drop off (concat used), rest)"
proof -
  have "head_loop cap segs [] False \<noteq> None" using head_loop_finds assms(2-4) by simp
  then obtain buf off' rest where h: "head_loop cap segs [] False = Some (buf, off', rest)" by auto
  then obtain used where u: "segs = used @ rest" "buf = concat used" "scan_head False buf = Some off'"
    using head_loop_whole [OF h] assms(3) by auto
  have "scan_head False (concat segs) = Some off'" using u by (simp add: scan_head_append)
  then have off: "off' = off" "off \<le> length buf"
    using assms(4) scan_head_le_length [OF u(3)] by auto
  have "13 \<le> off"
    using assms(4) by (auto simp: assms(1))
  then have len: "13 \<le> length buf" using off by simp
  have "take (length buf) (concat segs) = buf" using u by simp
  then have "buf = ''HTTP/1.1 200 '' @ take (length buf - length ''HTTP/1.1 200 '') tail"
    using len take_append [of "length buf" "''HTTP/1.1 200 ''" tail] unfolding assms(1) by simp
  then obtain t where t: "buf = ''HTTP/1.1 200 '' @ t" by blast
  then have "atoi (cstr (drop 9 buf @ mem)) = 200"
    by (simp add: cstr_def atoi_def isspace_def isdigit_def digit_val_def clamp_def int_min_def int_max_def)
  moreover have "\<not> length buf < 12" "take 7 buf = ''HTTP/1.''" using t by simp_all
  ultimately have "read_http_response_headers mem cap segs = Some (drop off buf, rest)"
    using h off by (simp add: read_http_response_headers_def)
  then show ?thesis using u(1,2) off by blast
qed

definition sample_segs :: "string list" where
  "sample_segs = [''HTTP/1.1 2'', ''00 OK'' @ cr_lf @ [CHR 0x0D], CHR 0x0A # ''ab'', ''cd'']"

theorem response_head_split_invariant_witness:
  "\<exists>used rest. sample_segs = used @ rest \<and> 19 \<le> length (concat used)
     \<and> read_http_response_headers [] 4096 sample_segs = Some (drop 19 (concat used), rest)"
  by (rule response_head_split_invariant [of _ "''OK'' @ cr_lf @ cr_lf @ ''abcd''"])
    (simp_all add: sample_segs_def cr_lf_def)

text \<open>
  The pump is a faithful pipe: what reaches the SRT socket is always a prefix of the response body
  followed by what was received afterwards, and all of it when the socket keeps sending.
\<close>

theorem pump_forwards_in_order:
  assumes "sc_src_path cfg \<noteq> []" "send_http_get cfg sent = Some req"
    "read_http_response_headers mem local_buffer_size segs = Some (body, rest)"
  shows "prefix (snd (pump_src_to_srt cfg True sent mem segs obs ans)) (body @ obs_data obs)
    \<and> (sending ans \<longrightarrow> length (body @ obs_data obs) \<le> length ans \<longrightarrow>
         pump_src_to_srt cfg True sent mem segs obs ans = (True, body @ obs_data obs))"
proof -
  obtain res out t where p: "srt_pump_bytes ans body = (res, out, t)" by (cases "srt_pump_bytes ans body") auto
  have "prefix (snd (pump_src_to_srt cfg True sent mem segs obs ans)) (body @ obs_data obs)"
    using srt_pump_bytes_prefix [OF p] pump_loop_prefix [of obs t] assms p
    by (cases res) (auto simp: pump_src_to_srt_def)
  moreover have "pump_src_to_srt cfg True sent mem segs obs ans = (True, body @ obs_data obs)"
    if s: "sending ans" "length (body @ obs_data obs) \<le> length ans"
  proof -
    have r: "res = PumpOk \<and> out = body \<and> sending t \<and> length ans \<le> length t + length body"
      using srt_pump_bytes_sending [OF s(1) _ p] s(2) by simp
    then have "pump_loop obs t = obs_data obs" using pump_loop_sending s(2) by simp
    then show ?thesis using assms p r by (simp add: pump_src_to_srt_def)
  qed
  ultimately show ?thesis by blast
qed

theorem pump_forwards_in_order_witness:
  "snd (pump_src_to_srt (snapshot_config (ap2p_state_init\<lparr>src_path := ''/s''\<rparr>)) True 98 [] 
      sample_segs [PollTimeout, RecvData ''cd'', RecvClosed] (replicate 4 (SrtSent 1))) = ''abcd''"
proof -
  let ?cfg = "snapshot_config (ap2p_state_init\<lparr>src_path := ''/s''\<rparr>)"
  have a: "sc_src_path ?cfg \<noteq> []" by (simp add: snapshot_config_def bcopy_def)
  have b: "send_http_get ?cfg 98 = Some (http_get_text ?cfg)"
    by (simp add: send_http_get_def Let_def http_get_text_def snapshot_config_def bcopy_def cr_lf_def show_int_def
      show_nat.simps ap2p_state_init_def)
  have c: "read_http_response_headers [] local_buffer_size sample_segs = Some (''ab'', [''cd''])"
    by (simp add: read_http_response_headers_def sample_segs_def cr_lf_def local_buffer_size_def cstr_def atoi_def
      isspace_def isdigit_def digit_val_def clamp_def int_min_def int_max_def)
  show ?thesis
    using pump_forwards_in_order [OF a b c, of "[PollTimeout, RecvData ''cd'', RecvClosed]" "replicate 4 (SrtSent 1)"]
    by (simp add: sending_def local_buffer_size_def)
qed

text \<open>
  The handed-over UDP descriptor is never leaked and never closed twice: a failed rendezvous has
  closed it exactly once, directly or through the SRT socket that had acquired it, and a successful one
  leaves it open inside the SRT socket it returns.
\<close>

theorem rendezvous_owns_fd:
  "case srt_rendezvous_connect cfg fd r of
     (None, ev) \<Rightarrow> count_list ev (FdClosed fd)
         + length (filter (\<lambda>e. \<exists>s. e = SrtClosed s \<and> Acquired s fd \<in> set ev) ev) = 1
   | (Some s, ev) \<Rightarrow> rv_create r = Some s \<and> Acquired s fd \<in> set ev
         \<and> SrtClosed s \<notin> set ev \<and> FdClosed fd \<notin> set ev"
  by (auto simp: srt_rendezvous_connect_def split: option.split)

end
