(* ===== verification/Pump.thy ===== *)
theory Pump
  imports SrtSource "HOL-Library.Multiset"
begin

text \<open>
  The mailbox between the control thread and the pump thread of \<open>srt_thread.c\<close>: one pending request,
  the cancel flag, the active SRT socket, and the pump thread's position.  Each event below is one
  stretch of code between two points where the other thread can run; the mutex makes it atomic.  The
  ghost fields follow the UDP descriptors the control thread hands over: \<open>posted\<close>, \<open>closed_fds\<close>,
  those of requests overwritten before the pump took them (\<open>lost\<close>), the open SRT sockets with the
  descriptor each owns, and the SRT sockets that \<open>srt_close\<close> was called on again.
\<close>

record pump_request =
  pr_peer_ip :: string
  pr_peer_port :: int
  pr_local_port :: int
  pr_my_srflx_ip :: string
  pr_udp_fd :: int

text \<open>\<open>Opened\<close> is after the connect and before the socket is published, \<open>Closing\<close> after it is withdrawn.\<close>

datatype pump_pc =
    Waiting
  | Connecting pump_request
  | Opened pump_request int
  | Pumping pump_request int
  | Closing pump_request int
  | Exited

record pump =
  pending :: "pump_request option"
  cancel :: bool
  running :: bool
  active_srt :: int
  pc :: pump_pc
  sockets :: "(int \<times> int) list"
  posted :: "int list"
  closed_fds :: "int list"
  lost :: "int list"
  reclosed :: "int list"

definition pump_init :: pump where
  "pump_init = \<lparr>pending = None, cancel = False, running = False, active_srt = -1, pc = Waiting,
     sockets = [], posted = [], closed_fds = [], lost = [], reclosed = []\<rparr>"

definition fds :: "pump_request \<Rightarrow> int list" where
  "fds r = (if 0 \<le> pr_udp_fd r then [pr_udp_fd r] else [])"

text \<open>\<open>srt_close\<close>: an open socket takes its descriptor with it.\<close>

definition srt_close :: "int \<Rightarrow> pump \<Rightarrow> pump" where
  "srt_close s p =
     (case map_of (sockets p) s of
        Some fd \<Rightarrow> p\<lparr>sockets := filter (\<lambda>(x, _). x \<noteq> s) (sockets p), closed_fds := closed_fds p @ [fd]\<rparr>
      | None \<Rightarrow> p\<lparr>reclosed := reclosed p @ [s]\<rparr>)"

definition post_pump_request :: "pump_request \<Rightarrow> pump \<Rightarrow> pump" where
  "post_pump_request req p =
     (let p1 = p\<lparr>cancel := True\<rparr>;
          p2 = (if active_srt p1 \<noteq> -1 then (srt_close (active_srt p1) p1)\<lparr>active_srt := -1\<rparr> else p1)
      in p2\<lparr>pending := Some req, posted := posted p2 @ fds req,
            lost := lost p2 @ (case pending p2 of None \<Rightarrow> [] | Some r \<Rightarrow> fds r)\<rparr>)"

text \<open>\<open>pump_thread_main\<close>: it takes the request and refuses one without a descriptor.\<close>

definition pump_take :: "pump_request \<Rightarrow> pump \<Rightarrow> pump" where
  "pump_take r p =
     (let p1 = p\<lparr>pending := None, cancel := False, running := True\<rparr>
      in if pr_udp_fd r < 0 then p1\<lparr>running := False\<rparr> else p1\<lparr>pc := Connecting r\<rparr>)"

datatype pump_event = Post pump_request | Take | ConnectFailed | ConnectOk int | Publish | Withdraw | CloseSrt | Stop

text \<open>\<open>None\<close> is an event that is not possible there; a new SRT socket is one that is not open.\<close>

definition pump_exec :: "pump_event \<Rightarrow> pump \<Rightarrow> pump option" where
  "pump_exec e p =
     (case e of
        Post req \<Rightarrow> Some (post_pump_request req p)
      | Take \<Rightarrow>
          (case (pc p, pending p) of (Waiting, Some r) \<Rightarrow> Some (pump_take r p) | _ \<Rightarrow> None)
      | ConnectFailed \<Rightarrow>
          (case pc p of
             Connecting r \<Rightarrow> Some (p\<lparr>pc := Waiting, running := False, closed_fds := closed_fds p @ fds r\<rparr>)
           | _ \<Rightarrow> None)
      | ConnectOk s \<Rightarrow>
          (case pc p of
             Connecting r \<Rightarrow>
               if 0 \<le> s \<and> s \<notin> fst ` set (sockets p)
               then Some (p\<lparr>pc := Opened r s, sockets := (s, pr_udp_fd r) # sockets p\<rparr>) else None
           | _ \<Rightarrow> None)
      | Publish \<Rightarrow> (case pc p of Opened r s \<Rightarrow> Some (p\<lparr>active_srt := s, pc := Pumping r s\<rparr>) | _ \<Rightarrow> None)
      | Withdraw \<Rightarrow> (case pc p of Pumping r s \<Rightarrow> Some (p\<lparr>active_srt := -1, pc := Closing r s\<rparr>) | _ \<Rightarrow> None)
      | CloseSrt \<Rightarrow>
          (case pc p of Closing r s \<Rightarrow> Some ((srt_close s p)\<lparr>running := False, pc := Waiting\<rparr>) | _ \<Rightarrow> None)
      | Stop \<Rightarrow> (case pc p of Waiting \<Rightarrow> Some (p\<lparr>pc := Exited\<rparr>) | _ \<Rightarrow> None))"

fun pump_run :: "pump_event list \<Rightarrow> pump \<Rightarrow> pump option" where
  "pump_run [] p = Some p"
| "pump_run (e # es) p = (case pump_exec e p of None \<Rightarrow> None | Some p' \<Rightarrow> pump_run es p')"

inductive pump_reach :: "pump \<Rightarrow> bool" where
  reach_init: "pump_reach pump_init"
| reach_step: "pump_reach p \<Longrightarrow> pump_exec e p = Some p' \<Longrightarrow> pump_reach p'"

lemma pump_run_reach: "pump_reach p \<Longrightarrow> pump_run es p = Some p' \<Longrightarrow> pump_reach p'"
  by (induction es arbitrary: p) (auto intro: reach_step split: option.splits)

subsection \<open>The invariant\<close>

text \<open>The descriptors in flight: pending, being connected, or inside an open SRT socket.\<close>

definition inflight :: "pump \<Rightarrow> int list" where
  "inflight p = (case pending p of None \<Rightarrow> [] | Some r \<Rightarrow> fds r)
     @ (case pc p of Connecting r \<Rightarrow> fds r | _ \<Rightarrow> []) @ map snd (sockets p)"

definition position_ok :: "pump \<Rightarrow> bool" where
  "position_ok p \<longleftrightarrow>
     (case pc p of
        Waiting \<Rightarrow> sockets p = [] \<and> active_srt p = -1 \<and> \<not> running p
      | Exited \<Rightarrow> sockets p = [] \<and> active_srt p = -1 \<and> \<not> running p
      | Connecting r \<Rightarrow> sockets p = [] \<and> active_srt p = -1 \<and> running p \<and> 0 \<le> pr_udp_fd r
      | Opened r s \<Rightarrow> sockets p = [(s, pr_udp_fd r)] \<and> active_srt p = -1 \<and> running p \<and> 0 \<le> s
      | Pumping r s \<Rightarrow> running p \<and> 0 \<le> s \<and>
          (active_srt p = s \<and> sockets p = [(s, pr_udp_fd r)] \<or> active_srt p = -1 \<and> sockets p = [] \<and> cancel p)
      | Closing r s \<Rightarrow> active_srt p = -1 \<and> running p \<and> 0 \<le> s \<and> (sockets p = [(s, pr_udp_fd r)] \<or> sockets p = []))"

definition pump_inv :: "pump \<Rightarrow> bool" where
  "pump_inv p \<longleftrightarrow> position_ok p \<and> (pending p \<noteq> None \<longrightarrow> cancel p)
     \<and> mset (posted p) = mset (lost p) + mset (inflight p) + mset (closed_fds p)"

lemmas pump_inv_defs = pump_inv_def position_ok_def inflight_def fds_def srt_close_def

lemma post_inv: "pump_inv p \<Longrightarrow> pump_inv (post_pump_request req p)"
  by (cases "pc p"; cases "pending p")
    (auto simp: pump_inv_defs post_pump_request_def Let_def)

lemma take_inv: "pump_inv p \<Longrightarrow> pc p = Waiting \<Longrightarrow> pending p = Some r \<Longrightarrow> pump_inv (pump_take r p)"
  by (auto simp: pump_inv_defs pump_take_def Let_def)

lemma pump_exec_inv:
  assumes inv: "pump_inv p" and ex: "pump_exec e p = Some p'"
  shows "pump_inv p'"
proof (cases e)
  case (Post req)
  then show ?thesis using assms post_inv [of p req] by (auto simp: pump_exec_def)
next
  case Take
  then show ?thesis
    using assms take_inv by (auto simp: pump_exec_def split: pump_pc.splits option.splits)
next
  case ConnectFailed
  then obtain r where "pc p = Connecting r"
    "p' = p\<lparr>pc := Waiting, running := False, closed_fds := closed_fds p @ fds r\<rparr>"
    using ex by (auto simp: pump_exec_def split: pump_pc.splits)
  then show ?thesis using inv by (simp add: pump_inv_defs)
next
  case (ConnectOk s)
  then obtain r where "pc p = Connecting r" "0 \<le> s"
    "p' = p\<lparr>pc := Opened r s, sockets := (s, pr_udp_fd r) # sockets p\<rparr>"
    using ex by (auto simp: pump_exec_def split: pump_pc.splits if_splits)
  then show ?thesis using inv by (simp add: pump_inv_defs)
next
  case Publish
  then obtain r s where "pc p = Opened r s" "p' = p\<lparr>active_srt := s, pc := Pumping r s\<rparr>"
    using ex by (auto simp: pump_exec_def split: pump_pc.splits)
  then show ?thesis using inv by (simp add: pump_inv_defs)
next
  case Withdraw
  then obtain r s where "pc p = Pumping r s" "p' = p\<lparr>active_srt := -1, pc := Closing r s\<rparr>"
    using ex by (auto simp: pump_exec_def split: pump_pc.splits)
  then show ?thesis using inv by (auto simp: pump_inv_defs)
next
  case CloseSrt
  then obtain r s where "pc p = Closing r s" "p' = (srt_close s p)\<lparr>running := False, pc := Waiting\<rparr>"
    using ex by (auto simp: pump_exec_def split: pump_pc.splits)
  then show ?thesis using inv by (auto simp: pump_inv_defs)
next
  case Stop
  then have "pc p = Waiting" "p' = p\<lparr>pc := Exited\<rparr>"
    using ex by (auto simp: pump_exec_def split: pump_pc.splits)
  then show ?thesis using inv by (simp add: pump_inv_defs)
qed

lemma reach_inv: "pump_reach p \<Longrightarrow> pump_inv p"
proof (induction rule: pump_reach.induct)
  case reach_init
  show ?case by (simp add: pump_inv_defs pump_init_def)
qed (rule pump_exec_inv)

lemma pump_exec_lost: "pump_exec e p = Some p' \<Longrightarrow> set (lost p) \<subseteq> set (lost p')"
  by (auto simp: pump_exec_def post_pump_request_def pump_take_def srt_close_def Let_def
      split: pump_event.splits pump_pc.splits option.splits if_splits)

lemma pump_run_lost: "pump_run es p = Some p' \<Longrightarrow> set (lost p) \<subseteq> set (lost p')"
proof (induction es arbitrary: p)
  case (Cons e es)
  then obtain q where "pump_exec e p = Some q" "pump_run es q = Some p'"
    by (auto split: option.splits)
  then show ?case using pump_exec_lost [of e p q] Cons.IH [of q] by blast
qed simp

subsection \<open>Properties\<close>

text \<open>
  C5. In every interleaving of the control thread's posts with the pump thread: at most one SRT socket
  is open, the published socket is the one being pumped, a waiting pump holds nothing, and every UDP
  descriptor handed over is in exactly one place: pending, being connected, inside the open SRT socket,
  closed, or lost with an overwritten request.
\<close>

theorem pump_descriptors_accounted:
  assumes "pump_reach p"
  shows "mset (posted p) = mset (lost p) + mset (inflight p) + mset (closed_fds p)
    \<and> length (sockets p) \<le> 1 \<and> (active_srt p \<noteq> -1 \<longrightarrow> (\<exists>r. pc p = Pumping r (active_srt p)))
    \<and> (pc p = Waiting \<longrightarrow> sockets p = [] \<and> active_srt p = -1 \<and> \<not> running p)"
  using reach_inv [OF assms] by (auto simp: pump_inv_def position_ok_def split: pump_pc.splits)

definition sample_req :: "int \<Rightarrow> pump_request" where
  "sample_req fd = \<lparr>pr_peer_ip = ''10.0.0.9'', pr_peer_port = 5000, pr_local_port = 4000,
     pr_my_srflx_ip = ''1.2.3.4'', pr_udp_fd = fd\<rparr>"

text \<open>A viewer is preempted by a second one.\<close>

definition sample_pump :: pump where
  "sample_pump = the (pump_run [Post (sample_req 7), Take, ConnectOk 3, Publish, Post (sample_req 8)] pump_init)"

lemmas pump_eval = pump_exec_def post_pump_request_def pump_take_def srt_close_def fds_def Let_def
  pump_init_def sample_req_def

lemma sample_pump_reach: "pump_reach sample_pump"
proof -
  have "pump_run [Post (sample_req 7), Take, ConnectOk 3, Publish, Post (sample_req 8)] pump_init \<noteq> None"
    by (simp add: pump_eval)
  then show ?thesis
    unfolding sample_pump_def using pump_run_reach [OF reach_init] by (metis option.collapse)
qed

theorem pump_descriptors_accounted_witness:
  "mset (posted sample_pump) = mset (lost sample_pump) + mset (inflight sample_pump) + mset (closed_fds sample_pump)
    \<and> posted sample_pump = [7, 8] \<and> closed_fds sample_pump = [7]"
proof -
  have "posted sample_pump = [7, 8] \<and> closed_fds sample_pump = [7]"
    by (simp add: sample_pump_def pump_eval)
  then show ?thesis using pump_descriptors_accounted [OF sample_pump_reach] by blast
qed

text \<open>
  A new viewer preempts: while a request is pending the cancel flag is up and no SRT socket is
  published to be used, so the running session ends; only taking the request lowers the flag.
\<close>

theorem pending_request_preempts:
  assumes "pump_reach p" "pending p \<noteq> None"
  shows "cancel p \<and> (\<forall>e p'. pump_exec e p = Some p' \<longrightarrow> e \<noteq> Take \<longrightarrow> pending p' \<noteq> None \<and> cancel p')"
proof -
  have "cancel p" using reach_inv [OF assms(1)] assms(2) by (simp add: pump_inv_def)
  moreover have "pending p' \<noteq> None" if "pump_exec e p = Some p'" "e \<noteq> Take" for e p'
    using that assms(2)
    by (auto simp: pump_exec_def post_pump_request_def srt_close_def Let_def
        split: pump_event.splits pump_pc.splits option.splits if_splits)
  ultimately show ?thesis
    using reach_inv [OF reach_step [OF assms(1)]] by (auto simp: pump_inv_def)
qed

theorem pending_request_preempts_witness: "cancel sample_pump"
proof -
  have "pending sample_pump \<noteq> None" by (simp add: sample_pump_def pump_eval)
  then show ?thesis using pending_request_preempts [OF sample_pump_reach] by blast
qed

text \<open>
  When a second peer arrives before the pump took the first one's request, the request is replaced
  and its UDP descriptor is leaked: with distinct descriptors, no later event ever closes it.
\<close>

theorem overwritten_request_leaks:
  assumes "pump_reach p" "pending p = Some r" "0 \<le> pr_udp_fd r"
    "pump_run es (post_pump_request req p) = Some p'" "distinct (posted p')"
  shows "pr_udp_fd r \<notin> set (closed_fds p') \<and> pr_udp_fd r \<notin> set (inflight p')"
proof -
  have "pump_exec (Post req) p = Some (post_pump_request req p)" by (simp add: pump_exec_def)
  then have "pump_reach (post_pump_request req p)" using assms(1) reach_step by blast
  then have inv: "pump_inv p'" using pump_run_reach assms(4) reach_inv by blast
  have "pr_udp_fd r \<in> set (lost (post_pump_request req p))"
    using assms(2,3) by (auto simp: post_pump_request_def srt_close_def fds_def Let_def split: option.split)
  then have l: "pr_udp_fd r \<in> set (lost p')" using pump_run_lost [OF assms(4)] by blast
  have "mset (posted p') = mset (lost p' @ inflight p' @ closed_fds p')"
    using inv by (simp add: pump_inv_def ac_simps)
  then have "distinct (lost p' @ inflight p' @ closed_fds p')"
    using assms(5) by (metis mset_eq_imp_distinct_iff)
  then show ?thesis using l by auto
qed

theorem overwritten_request_leaks_witness:
  "\<exists>p'. pump_run [Withdraw, CloseSrt, Take, ConnectFailed, Stop] (post_pump_request (sample_req 9) sample_pump) = Some p'
     \<and> 8 \<notin> set (closed_fds p') \<and> posted p' = [7, 8, 9] \<and> closed_fds p' = [7, 9] \<and> pc p' = Exited"
proof -
  obtain p' where p': "pump_run [Withdraw, CloseSrt, Take, ConnectFailed, Stop]
      (post_pump_request (sample_req 9) sample_pump) = Some p'"
    "posted p' = [7, 8, 9]" "closed_fds p' = [7, 9]" "pc p' = Exited"
    by (simp add: sample_pump_def pump_eval)
  have "pending sample_pump = Some (sample_req 8)" by (simp add: sample_pump_def pump_eval)
  then show ?thesis
    using overwritten_request_leaks [OF sample_pump_reach _ _ p'(1), of "sample_req 8"] p'
    by (simp add: sample_req_def)
qed

end
