(* ===== verification/CtrlSession.thy ===== *)
theory CtrlSession
  imports Edge Ctrl Pump
begin

text \<open>
  The control thread of \<open>srt_thread.c\<close>: one control session (\<open>run_ctrl_session\<close>: discovery, register,
  then a loop of keep-alives, address refreshes and peer announcements) and the thread around it with
  its reconnect backoff.  A session's loop is a function from what one turn observes to the session's
  next state and what it does; what it does is a list of \<open>ctrl_out\<close>.  Closing descriptor -1 does
  nothing and is no event.
\<close>

subsection \<open>Messages\<close>

definition nl :: string where "nl = [CHR 0x0A]"

definition register_text :: "srt_cfg \<Rightarrow> binding \<Rightarrow> string \<Rightarrow> string" where
  "register_text cfg b lan =
     ''type=SRT_REGISTER'' @ nl @ ''service_id='' @ sc_node_id cfg @ nl @ ''srflx_ip='' @ srflx_ip b @ nl
     @ ''srflx_port='' @ show_int (srflx_port b) @ nl
     @ (if lan \<noteq> [] then ''lan_ip='' else []) @ lan @ (if lan \<noteq> [] then nl else [])
     @ (if sc_ctrl_token cfg \<noteq> [] then ''api_token='' else []) @ sc_ctrl_token cfg
     @ (if sc_ctrl_token cfg \<noteq> [] then nl else [])"

definition register_msg :: "srt_cfg \<Rightarrow> binding \<Rightarrow> string \<Rightarrow> string" where
  "register_msg cfg b lan = bcopy 1024 (register_text cfg b lan)"

definition ping_msg :: "srt_cfg \<Rightarrow> string" where
  "ping_msg cfg = bcopy 256 (''type=PING'' @ nl @ ''service_id='' @ sc_node_id cfg @ nl)"

definition pong_msg :: string where
  "pong_msg = ''type=PONG'' @ nl"

subsection \<open>The discovery socket\<close>

record alloc_calls =
  al_sock :: "int option"
  al_bind :: bool
  al_sock2 :: "int option"
  al_bind2 :: bool

datatype ctrl_out =
    UdpOpened int
  | UdpClosed int
  | CtrlOpened
  | CtrlClosed
  | SendMsg string
  | SendFailed string
  | MarkBt bt_milestone
  | PublishBoot string
  | PostPump pump_request

text \<open>\<open>ctrl_send\<close> by its result: a message the library took, or one that failed.\<close>

definition ctrl_sending :: "bool \<Rightarrow> string \<Rightarrow> ctrl_out" where
  "ctrl_sending ok m = (if ok then SendMsg m else SendFailed m)"

text \<open>\<open>allocate_edge_socket\<close>: the wanted port, else an ephemeral one; the result is -1 on failure.\<close>

definition allocate_edge_socket :: "alloc_calls \<Rightarrow> int \<times> ctrl_out list" where
  "allocate_edge_socket a =
     (case al_sock a of
        None \<Rightarrow> (-1, [])
      | Some s \<Rightarrow>
          if al_bind a then (s, [UdpOpened s])
          else (case al_sock2 a of
                  None \<Rightarrow> (-1, [UdpOpened s, UdpClosed s])
                | Some s2 \<Rightarrow>
                    if al_bind2 a then (s2, [UdpOpened s, UdpClosed s, UdpOpened s2])
                    else (-1, [UdpOpened s, UdpClosed s, UdpOpened s2, UdpClosed s2])))"

definition close_udp :: "int \<Rightarrow> ctrl_out list" where
  "close_udp fd = (if 0 \<le> fd then [UdpClosed fd] else [])"

subsection \<open>Setting a session up\<close>

record ctrl_sess =
  cs_udp :: int
  cs_port :: int
  cs_srflx :: binding
  cs_tick :: nat

text \<open>What the set-up observes; the acknowledgement is \<open>None\<close> when \<open>ctrl_recv\<close> fails.\<close>

record setup_obs =
  su_alloc :: alloc_calls
  su_port :: int
  su_srflx :: "binding option"
  su_ctrl :: bool
  su_sent :: bool
  su_ack :: "string option"

definition ctrl_setup :: "srt_cfg \<Rightarrow> string \<Rightarrow> setup_obs \<Rightarrow> ctrl_sess option \<times> ctrl_out list" where
  "ctrl_setup cfg lan o1 =
     (let (udp, ev) = allocate_edge_socket (su_alloc o1) in
      if udp < 0 then (None, ev)
      else case su_srflx o1 of
        None \<Rightarrow> (None, ev @ close_udp udp)
      | Some b \<Rightarrow>
          let ev1 = ev @ [MarkBt BT_EDGE_SRFLX] in
          if \<not> su_ctrl o1 then (None, ev1 @ close_udp udp)
          else let ev2 = ev1 @ [CtrlOpened, ctrl_sending (su_sent o1) (register_msg cfg b lan)] in
            if \<not> su_sent o1 then (None, ev2 @ [CtrlClosed] @ close_udp udp)
            else case su_ack o1 of
              None \<Rightarrow> (None, ev2 @ [CtrlClosed] @ close_udp udp)
            | Some msg \<Rightarrow>
                if msg = [] then (None, ev2 @ [CtrlClosed] @ close_udp udp)
                else if snd (kv_get msg ''type'' 64) \<noteq> ''SRT_REGISTERED''
                then (None, ev2 @ [CtrlClosed] @ close_udp udp)
                else (Some \<lparr>cs_udp = udp, cs_port = su_port o1, cs_srflx = b, cs_tick = 0\<rparr>,
                      ev2 @ [MarkBt BT_CTRL_REGISTERED, PublishBoot (sc_node_id cfg)]))"

subsection \<open>One turn of the loop\<close>

text \<open>
  What one turn observes: the flags, the received message (\<open>None\<close> is -1, the empty one 0), whether the
  keep-alive went out and whether the other message of the turn (a registration or the answer to a ping)
  did, the answer of a discovery, and the calls of a reallocation with the new port.
\<close>

record turn_obs =
  to_shutdown :: bool
  to_reload :: bool
  to_got :: "string option"
  to_ping :: bool
  to_sent :: bool
  to_fresh :: "binding option"
  to_alloc :: alloc_calls
  to_port :: int

text \<open>A discovery on descriptor -1 fails.\<close>

definition refresh :: "int \<Rightarrow> binding option \<Rightarrow> binding option" where
  "refresh udp fresh = (if udp < 0 then None else fresh)"

text \<open>The address is taken over before the registration is sent; that its send failed is only logged.\<close>

definition reregister :: "srt_cfg \<Rightarrow> string \<Rightarrow> bool \<Rightarrow> binding option \<Rightarrow> ctrl_sess \<Rightarrow> ctrl_sess \<times> ctrl_out list" where
  "reregister cfg lan sent fresh cs =
     (case refresh (cs_udp cs) fresh of
        None \<Rightarrow> (cs, [])
      | Some b \<Rightarrow>
          if srflx_ip b \<noteq> srflx_ip (cs_srflx cs) \<or> srflx_port b \<noteq> srflx_port (cs_srflx cs)
          then (cs\<lparr>cs_srflx := b\<rparr>, [ctrl_sending sent (register_msg cfg b lan)])
          else (cs, []))"

text \<open>The keep-alive branch: every third ping refreshes the NAT mapping.\<close>

definition on_idle :: "srt_cfg \<Rightarrow> string \<Rightarrow> turn_obs \<Rightarrow> ctrl_sess \<Rightarrow> bool \<times> ctrl_sess \<times> ctrl_out list" where
  "on_idle cfg lan ob cs =
     (if \<not> to_ping ob then (False, cs, [SendFailed (ping_msg cfg)])
      else let cs1 = cs\<lparr>cs_tick := cs_tick cs + 1\<rparr> in
        if cs_tick cs1 \<ge> 3 then
          (let (cs2, ev) = reregister cfg lan (to_sent ob) (to_fresh ob) (cs1\<lparr>cs_tick := 0\<rparr>)
           in (True, cs2, SendMsg (ping_msg cfg) # ev))
        else (True, cs1, [SendMsg (ping_msg cfg)]))"

text \<open>The request an \<open>SRT_PEER\<close> message asks for, \<open>None\<close> if it names no address.\<close>

definition peer_request :: "ctrl_sess \<Rightarrow> string \<Rightarrow> pump_request option" where
  "peer_request cs msg =
     (let ip = snd (kv_get msg ''srflx_ip'' 64);
          port = atoi (snd (kv_get msg ''srflx_port'' 16));
          peer_lan = snd (kv_get msg ''lan_ip'' 64)
      in if ip = [] \<or> port \<le> 0 then None
         else Some \<lparr>pr_peer_ip = bcopy 64 (if peer_lan \<noteq> [] \<and> srflx_ip (cs_srflx cs) = ip then peer_lan else ip),
                    pr_peer_port = port, pr_local_port = cs_port cs,
                    pr_my_srflx_ip = bcopy 64 (srflx_ip (cs_srflx cs)), pr_udp_fd = -1\<rparr>)"

text \<open>The hand-over of the discovery socket, and the new one for the next viewer.\<close>

definition hand_over :: "srt_cfg \<Rightarrow> string \<Rightarrow> turn_obs \<Rightarrow> ctrl_sess \<Rightarrow> pump_request \<Rightarrow> ctrl_sess \<times> ctrl_out list" where
  "hand_over cfg lan ob cs req =
     (if cs_udp cs < 0 then (cs, [])
      else let ev = [PostPump (req\<lparr>pr_udp_fd := cs_udp cs\<rparr>)];
               (udp, ev1) = allocate_edge_socket (to_alloc ob);
               cs1 = cs\<lparr>cs_udp := udp\<rparr>
        in if udp \<ge> 0 then
             (let (cs2, ev2) = reregister cfg lan (to_sent ob) (to_fresh ob) (cs1\<lparr>cs_port := to_port ob\<rparr>)
              in (cs2, ev @ ev1 @ ev2))
           else (cs1, ev @ ev1))"

definition on_message :: "srt_cfg \<Rightarrow> string \<Rightarrow> turn_obs \<Rightarrow> string \<Rightarrow> ctrl_sess \<Rightarrow> ctrl_sess \<times> ctrl_out list" where
  "on_message cfg lan ob msg cs =
     (let t = snd (kv_get msg ''type'' 64) in
      if t = [] then (cs, [])
      else if t = ''SRT_PEER'' then
        (case peer_request cs msg of None \<Rightarrow> (cs, []) | Some req \<Rightarrow> hand_over cfg lan ob cs req)
      else if t = ''PING'' then (cs, [ctrl_sending (to_sent ob) pong_msg])
      else (cs, []))"

text \<open>A turn, \<open>False\<close> when it leaves the loop; the session is then torn down.\<close>

definition ctrl_turn :: "srt_cfg \<Rightarrow> string \<Rightarrow> turn_obs \<Rightarrow> ctrl_sess \<Rightarrow> bool \<times> ctrl_sess \<times> ctrl_out list" where
  "ctrl_turn cfg lan ob cs =
     (if to_shutdown ob \<or> to_reload ob then (False, cs, [])
      else case to_got ob of
        None \<Rightarrow> (False, cs, [])
      | Some msg \<Rightarrow>
          if msg = [] then on_idle cfg lan ob cs
          else let (cs', ev) = on_message cfg lan ob msg cs in (True, cs', ev))"

definition tear_down :: "ctrl_sess \<Rightarrow> ctrl_out list" where
  "tear_down cs = CtrlClosed # close_udp (cs_udp cs)"

text \<open>The loop; \<open>None\<close> is a session that has ended, an exhausted list one that still runs.\<close>

primrec ctrl_loop :: "srt_cfg \<Rightarrow> string \<Rightarrow> turn_obs list \<Rightarrow> ctrl_sess \<Rightarrow> ctrl_sess option \<times> ctrl_out list" where
  "ctrl_loop cfg lan [] cs = (Some cs, [])"
| "ctrl_loop cfg lan (ob # obs) cs =
     (let (go, cs', ev) = ctrl_turn cfg lan ob cs in
      if go then (let (r, ev') = ctrl_loop cfg lan obs cs' in (r, ev @ ev'))
      else (None, ev @ tear_down cs'))"

definition run_ctrl_session ::
    "srt_cfg \<Rightarrow> string \<Rightarrow> setup_obs \<Rightarrow> turn_obs list \<Rightarrow> ctrl_sess option \<times> ctrl_out list" where
  "run_ctrl_session cfg lan o1 obs =
     (case ctrl_setup cfg lan o1 of
        (None, ev) \<Rightarrow> (None, ev)
      | (Some cs, ev) \<Rightarrow> (let (r, ev') = ctrl_loop cfg lan obs cs in (r, ev @ ev')))"

subsection \<open>The thread\<close>

datatype thread_out = SrtStartup | SrtCleanup | PumpStarted | PumpJoined | Session | Sleep nat

definition reconnect_min_ms :: nat where "reconnect_min_ms = 1000"
definition reconnect_max_ms :: nat where "reconnect_max_ms = 5000"
definition long_session_s :: nat where "long_session_s = 30"

text \<open>
  The reconnect loop over the sessions' durations in seconds; \<open>True\<close> is a shutdown seen right after
  the session.  The end of the list is the shutdown seen by the loop's own test.
\<close>

primrec reconnect_loop :: "(nat \<times> bool) list \<Rightarrow> nat \<Rightarrow> thread_out list" where
  "reconnect_loop [] backoff = []"
| "reconnect_loop (x # xs) backoff =
     (case x of (lasted, stop) \<Rightarrow>
        if stop then [Session]
        else let b = (if lasted \<ge> long_session_s then reconnect_min_ms else backoff)
             in Session # Sleep b # reconnect_loop xs (min (b * 2) reconnect_max_ms))"

text \<open>\<open>wait_rc\<close> is the result of \<open>ap2p_wait_state_ready\<close>; \<open>started\<close> is the static \<open>g_pump_started\<close>.\<close>

definition srt_thread_main :: "int \<Rightarrow> bool \<Rightarrow> bool \<Rightarrow> bool \<Rightarrow> (nat \<times> bool) list \<Rightarrow> thread_out list" where
  "srt_thread_main wait_rc startup_ok started create_ok sessions =
     (if wait_rc \<noteq> 0 then []
      else if \<not> startup_ok then []
      else if \<not> started \<and> \<not> create_ok then [SrtStartup, SrtCleanup]
      else SrtStartup # (if started then [] else [PumpStarted])
        @ reconnect_loop sessions reconnect_min_ms @ [PumpJoined, SrtCleanup])"

subsection \<open>Following descriptors and messages\<close>

primrec udp_opened :: "ctrl_out list \<Rightarrow> int list" where
  "udp_opened [] = []"
| "udp_opened (e # es) = (case e of UdpOpened f \<Rightarrow> [f] | _ \<Rightarrow> []) @ udp_opened es"

primrec udp_closed :: "ctrl_out list \<Rightarrow> int list" where
  "udp_closed [] = []"
| "udp_closed (e # es) = (case e of UdpClosed f \<Rightarrow> [f] | _ \<Rightarrow> []) @ udp_closed es"

primrec pump_posts :: "ctrl_out list \<Rightarrow> pump_request list" where
  "pump_posts [] = []"
| "pump_posts (e # es) = (case e of PostPump r \<Rightarrow> [r] | _ \<Rightarrow> []) @ pump_posts es"

definition is_register :: "string \<Rightarrow> bool" where
  "is_register m \<longleftrightarrow> starts_with ''type=SRT_REGISTER'' m"

primrec registers :: "ctrl_out list \<Rightarrow> string list" where
  "registers [] = []"
| "registers (e # es) = (case e of SendMsg m \<Rightarrow> if is_register m then [m] else [] | _ \<Rightarrow> []) @ registers es"

text \<open>Every registration that was tried, with the result of its send; \<open>registers\<close> are those that went out.\<close>

primrec attempts :: "ctrl_out list \<Rightarrow> (bool \<times> string) list" where
  "attempts [] = []"
| "attempts (e # es) = (case e of SendMsg m \<Rightarrow> if is_register m then [(True, m)] else []
     | SendFailed m \<Rightarrow> if is_register m then [(False, m)] else [] | _ \<Rightarrow> []) @ attempts es"

lemma registers_attempts: "registers ev = map snd (filter fst (attempts ev))"
  by (induction ev) (auto split: ctrl_out.splits)

lemma trace_append [simp]:
  "udp_opened (a @ b) = udp_opened a @ udp_opened b"
  "udp_closed (a @ b) = udp_closed a @ udp_closed b"
  "pump_posts (a @ b) = pump_posts a @ pump_posts b"
  "registers (a @ b) = registers a @ registers b"
  "attempts (a @ b) = attempts a @ attempts b"
  by (induction a) auto

lemma close_udp_traces [simp]:
  "udp_opened (close_udp fd) = []" "udp_closed (close_udp fd) = (if 0 \<le> fd then [fd] else [])"
  "pump_posts (close_udp fd) = []" "registers (close_udp fd) = []" "attempts (close_udp fd) = []"
  by (simp_all add: close_udp_def)

definition sess_fds :: "ctrl_sess \<Rightarrow> int list" where
  "sess_fds cs = (if 0 \<le> cs_udp cs then [cs_udp cs] else [])"

text \<open>The kernel's descriptors are not negative.\<close>

definition alloc_ok :: "alloc_calls \<Rightarrow> bool" where
  "alloc_ok a \<longleftrightarrow> (\<forall>s. al_sock a = Some s \<or> al_sock2 a = Some s \<longrightarrow> 0 \<le> s)"

lemma allocate_spec:
  assumes "alloc_ok a" "allocate_edge_socket a = (udp, ev)"
  shows "mset (udp_opened ev) = mset (udp_closed ev) + mset (if 0 \<le> udp then [udp] else [])
    \<and> pump_posts ev = [] \<and> attempts ev = [] \<and> -1 \<le> udp"
  using assms by (auto simp: allocate_edge_socket_def alloc_ok_def split: option.splits if_splits)

lemma is_register_msgs [simp]: "is_register (register_msg cfg b lan)" "\<not> is_register (ping_msg cfg)"
    "\<not> is_register pong_msg"
  by (simp_all add: is_register_def register_msg_def register_text_def ping_msg_def pong_msg_def bcopy_def
      starts_with_def)

lemma reregister_spec:
  assumes "reregister cfg lan sent fresh cs = (cs', ev)"
  shows "udp_opened ev = [] \<and> udp_closed ev = [] \<and> pump_posts ev = [] \<and> cs_udp cs' = cs_udp cs
    \<and> (if attempts ev = [] then cs_srflx cs' = cs_srflx cs
       else attempts ev = [(sent, register_msg cfg (cs_srflx cs') lan)])"
  using assms by (auto simp: reregister_def ctrl_sending_def split: option.splits if_splits)

definition post_ok :: "pump_request \<Rightarrow> bool" where
  "post_ok r \<longleftrightarrow> 0 \<le> pr_udp_fd r \<and> 0 < pr_peer_port r \<and> pr_peer_ip r \<noteq> [] \<and> length (pr_peer_ip r) < 64
     \<and> length (pr_my_srflx_ip r) < 64"

lemma peer_request_ok: "peer_request cs msg = Some req \<Longrightarrow> 0 \<le> fd \<Longrightarrow> post_ok (req\<lparr>pr_udp_fd := fd\<rparr>)"
  by (auto simp: peer_request_def post_ok_def bcopy_def Let_def split: if_splits)

text \<open>What every turn keeps: the descriptors' balance, sound requests, the last announced address.\<close>

definition turn_effect :: "srt_cfg \<Rightarrow> string \<Rightarrow> ctrl_sess \<Rightarrow> ctrl_sess \<Rightarrow> ctrl_out list \<Rightarrow> bool" where
  "turn_effect cfg lan cs cs' ev \<longleftrightarrow>
     mset (udp_opened ev) + mset (sess_fds cs)
       = mset (udp_closed ev) + mset (map pr_udp_fd (pump_posts ev)) + mset (sess_fds cs')
     \<and> (\<forall>r \<in> set (pump_posts ev). post_ok r)
     \<and> (if attempts ev = [] then cs_srflx cs' = cs_srflx cs
        else snd (last (attempts ev)) = register_msg cfg (cs_srflx cs') lan)"

lemma turn_effect_refl: "turn_effect cfg lan cs cs []"
  by (simp add: turn_effect_def)

lemma turn_effect_trans:
  assumes "turn_effect cfg lan a b ev" "turn_effect cfg lan b c ev'"
  shows "turn_effect cfg lan a c (ev @ ev')"
proof -
  have "mset (udp_opened ev @ udp_opened ev') + mset (sess_fds a)
    = mset (udp_closed ev @ udp_closed ev') + mset (map pr_udp_fd (pump_posts ev @ pump_posts ev')) + mset (sess_fds c)"
    using assms by (simp add: turn_effect_def) (metis (no_types, lifting) add.assoc add.commute)
  then show ?thesis using assms by (auto simp: turn_effect_def split: if_splits)
qed

lemma on_idle_effect:
  assumes "on_idle cfg lan ob cs = (go, cs', ev)"
  shows "turn_effect cfg lan cs cs' ev"
proof (cases "to_ping ob \<and> cs_tick cs + 1 \<ge> 3")
  case False
  then show ?thesis using assms by (auto simp: on_idle_def turn_effect_def sess_fds_def Let_def split: if_splits)
next
  case True
  obtain cs2 ev2 where r: "reregister cfg lan (to_sent ob) (to_fresh ob) (cs\<lparr>cs_tick := 0\<rparr>) = (cs2, ev2)"
    by (cases "reregister cfg lan (to_sent ob) (to_fresh ob) (cs\<lparr>cs_tick := 0\<rparr>)")
  have "cs' = cs2" "ev = SendMsg (ping_msg cfg) # ev2"
    using assms True r by (auto simp: on_idle_def Let_def)
  then show ?thesis
    using reregister_spec [OF r] by (auto simp: turn_effect_def sess_fds_def split: if_splits)
qed

lemma hand_over_effect:
  assumes ok: "alloc_ok (to_alloc ob)" and req: "peer_request cs0 msg = Some req"
    and h: "hand_over cfg lan ob cs req = (cs', ev)"
  shows "turn_effect cfg lan cs cs' ev"
proof (cases "cs_udp cs < 0")
  case True
  then show ?thesis using h by (simp add: hand_over_def turn_effect_def)
next
  case False
  obtain udp ev1 where a: "allocate_edge_socket (to_alloc ob) = (udp, ev1)"
    by (cases "allocate_edge_socket (to_alloc ob)")
  note al = allocate_spec [OF ok a]
  have po: "post_ok (req\<lparr>pr_udp_fd := cs_udp cs\<rparr>)" using peer_request_ok [OF req] False by simp
  show ?thesis
  proof (cases "0 \<le> udp")
    case neg: False
    then have "cs' = cs\<lparr>cs_udp := udp\<rparr>" "ev = [PostPump (req\<lparr>pr_udp_fd := cs_udp cs\<rparr>)] @ ev1"
      using h False a by (auto simp: hand_over_def Let_def)
    then show ?thesis using al po neg False by (simp add: turn_effect_def sess_fds_def)
  next
    case pos: True
    obtain cs2 ev2 where r: "reregister cfg lan (to_sent ob) (to_fresh ob) (cs\<lparr>cs_udp := udp, cs_port := to_port ob\<rparr>) = (cs2, ev2)"
      by (cases "reregister cfg lan (to_sent ob) (to_fresh ob) (cs\<lparr>cs_udp := udp, cs_port := to_port ob\<rparr>)")
    have "cs' = cs2" "ev = [PostPump (req\<lparr>pr_udp_fd := cs_udp cs\<rparr>)] @ ev1 @ ev2"
      using h False a pos r by (auto simp: hand_over_def Let_def)
    then show ?thesis
      using al po pos False reregister_spec [OF r] by (auto simp: turn_effect_def sess_fds_def split: if_splits)
  qed
qed

lemma ctrl_turn_effect:
  assumes "alloc_ok (to_alloc ob)" "ctrl_turn cfg lan ob cs = (go, cs', ev)"
  shows "turn_effect cfg lan cs cs' ev"
proof -
  have "turn_effect cfg lan cs cs'' ev''" if m: "on_message cfg lan ob msg cs = (cs'', ev'')" for msg cs'' ev''
  proof (cases "snd (kv_get msg ''type'' 64) = ''SRT_PEER''")
    case True
    then show ?thesis
      using m hand_over_effect [OF assms(1)] turn_effect_refl
      by (cases "peer_request cs msg") (auto simp: on_message_def)
  next
    case False
    then show ?thesis using m by (auto simp: on_message_def turn_effect_def ctrl_sending_def Let_def split: if_splits)
  qed
  then show ?thesis
    using assms(2) turn_effect_refl on_idle_effect
    by (auto simp: ctrl_turn_def split: if_splits option.splits prod.splits)
qed

definition ctrl_quiet :: "ctrl_out list \<Rightarrow> bool" where
  "ctrl_quiet ev \<longleftrightarrow> CtrlOpened \<notin> set ev \<and> CtrlClosed \<notin> set ev"

lemma quiet_parts [simp]: "ctrl_quiet []" "ctrl_quiet (close_udp fd)" "ctrl_quiet (a @ b) \<longleftrightarrow> ctrl_quiet a \<and> ctrl_quiet b"
  by (auto simp: ctrl_quiet_def close_udp_def)

lemma quiet_count: "ctrl_quiet ev \<Longrightarrow> count_list ev CtrlOpened = 0 \<and> count_list ev CtrlClosed = 0"
  by (simp add: ctrl_quiet_def count_list_0_iff)

lemma allocate_quiet: "allocate_edge_socket a = (udp, ev) \<Longrightarrow> ctrl_quiet ev"
  by (auto simp: allocate_edge_socket_def ctrl_quiet_def split: option.splits if_splits)

lemma ctrl_turn_quiet: "ctrl_turn cfg lan ob cs = (go, cs', ev) \<Longrightarrow> ctrl_quiet ev"
proof -
  have re: "reregister cfg lan sent fresh cs = (cs', ev) \<Longrightarrow> ctrl_quiet ev" for sent fresh cs cs' ev
    by (auto simp: reregister_def ctrl_quiet_def ctrl_sending_def split: option.splits if_splits)
  have c: "ctrl_quiet (e # ev) \<longleftrightarrow> e \<noteq> CtrlOpened \<and> e \<noteq> CtrlClosed \<and> ctrl_quiet ev" for e ev
    by (auto simp: ctrl_quiet_def)
  have ho: "hand_over cfg lan ob cs req = (cs', ev) \<Longrightarrow> ctrl_quiet ev" for cs req cs' ev
    by (auto simp: hand_over_def Let_def c dest!: re allocate_quiet split: if_splits prod.splits)
  have id: "on_idle cfg lan ob cs = (go, cs', ev) \<Longrightarrow> ctrl_quiet ev" for cs go cs' ev
    by (auto simp: on_idle_def Let_def c dest!: re split: if_splits prod.splits)
  have me: "on_message cfg lan ob msg cs = (cs', ev) \<Longrightarrow> ctrl_quiet ev" for msg cs cs' ev
    by (auto simp: on_message_def Let_def c ctrl_sending_def dest!: ho split: if_splits option.splits)
  assume "ctrl_turn cfg lan ob cs = (go, cs', ev)"
  then show ?thesis
    by (auto simp: ctrl_turn_def dest!: id me split: if_splits option.splits prod.splits)
qed

lemma ctrl_loop_effect:
  assumes "\<forall>ob \<in> set obs. alloc_ok (to_alloc ob)" "ctrl_loop cfg lan obs cs = (r, ev)"
  shows "\<exists>cs' ev'. turn_effect cfg lan cs cs' ev' \<and> ctrl_quiet ev'
    \<and> (r = Some cs' \<and> ev = ev' \<or> r = None \<and> ev = ev' @ tear_down cs')"
  using assms
proof (induction obs arbitrary: cs r ev)
  case Nil
  then show ?case using turn_effect_refl by auto
next
  case (Cons ob obs)
  obtain go cs1 ev1 where t: "ctrl_turn cfg lan ob cs = (go, cs1, ev1)"
    by (cases "ctrl_turn cfg lan ob cs") auto
  have e1: "turn_effect cfg lan cs cs1 ev1" "ctrl_quiet ev1"
    using ctrl_turn_effect [OF _ t] ctrl_turn_quiet [OF t] Cons.prems(1) by auto
  show ?case
  proof (cases go)
    case False
    then show ?thesis using Cons.prems(2) t e1 by auto
  next
    case True
    obtain r2 ev2 where l: "ctrl_loop cfg lan obs cs1 = (r2, ev2)" by (cases "ctrl_loop cfg lan obs cs1")
    then obtain cs' ev' where i: "turn_effect cfg lan cs1 cs' ev'" "ctrl_quiet ev'"
      "r2 = Some cs' \<and> ev2 = ev' \<or> r2 = None \<and> ev2 = ev' @ tear_down cs'"
      using Cons.IH Cons.prems(1) by (metis list.set_intros(2))
    have "r = r2" "ev = ev1 @ ev2" using Cons.prems(2) t l True by auto
    then show ?thesis
      using turn_effect_trans [OF e1(1) i(1)] i e1(2)
      by (intro exI [of _ cs'] exI [of _ "ev1 @ ev'"]) auto
  qed
qed

lemma ctrl_setup_effect:
  assumes "alloc_ok (su_alloc o1)" "ctrl_setup cfg lan o1 = (r, ev)"
  shows "mset (udp_opened ev) = mset (udp_closed ev) + mset (case r of None \<Rightarrow> [] | Some cs \<Rightarrow> sess_fds cs)
    \<and> pump_posts ev = [] \<and> count_list ev CtrlOpened = count_list ev CtrlClosed + (if r = None then 0 else 1)
    \<and> (\<forall>cs. r = Some cs \<longrightarrow> attempts ev = [(True, register_msg cfg (cs_srflx cs) lan)])"
proof -
  obtain udp ev0 where a: "allocate_edge_socket (su_alloc o1) = (udp, ev0)"
    by (cases "allocate_edge_socket (su_alloc o1)")
  have c: "count_list (close_udp fd) CtrlOpened = 0" "count_list (close_udp fd) CtrlClosed = 0" for fd
    by (simp_all add: close_udp_def)
  show ?thesis
    using assms(2) allocate_spec [OF assms(1) a] quiet_count [OF allocate_quiet [OF a]] a
    by (auto simp: ctrl_setup_def Let_def sess_fds_def ctrl_sending_def c split: if_splits option.splits)
qed

lemma count_tear_down: "count_list (tear_down cs) CtrlOpened = 0" "count_list (tear_down cs) CtrlClosed = 1"
  by (simp_all add: tear_down_def close_udp_def)

lemma tear_down_traces: "udp_opened (tear_down cs) = []" "udp_closed (tear_down cs) = sess_fds cs"
    "pump_posts (tear_down cs) = []" "registers (tear_down cs) = []" "attempts (tear_down cs) = []"
  by (simp_all add: tear_down_def sess_fds_def)

lemma session_effect:
  assumes "alloc_ok (su_alloc o1)" "\<forall>ob \<in> set obs. alloc_ok (to_alloc ob)"
    "run_ctrl_session cfg lan o1 obs = (r, ev)"
  shows "mset (udp_opened ev) = mset (udp_closed ev) + mset (map pr_udp_fd (pump_posts ev))
      + mset (case r of None \<Rightarrow> [] | Some cs \<Rightarrow> sess_fds cs)
    \<and> (\<forall>req \<in> set (pump_posts ev). post_ok req)
    \<and> count_list ev CtrlOpened = count_list ev CtrlClosed + (if r = None then 0 else 1)
    \<and> (\<forall>cs. r = Some cs \<longrightarrow> registers ev \<noteq> [] \<and> attempts ev \<noteq> [] \<and> snd (last (attempts ev)) = register_msg cfg (cs_srflx cs) lan)"
proof -
  obtain r1 ev1 where s: "ctrl_setup cfg lan o1 = (r1, ev1)" by (cases "ctrl_setup cfg lan o1")
  note su = ctrl_setup_effect [OF assms(1) s]
  show ?thesis
  proof (cases r1)
    case None
    then show ?thesis using su assms(3) s by (simp add: run_ctrl_session_def)
  next
    case (Some cs)
    obtain r2 ev2 where l: "ctrl_loop cfg lan obs cs = (r2, ev2)" by (cases "ctrl_loop cfg lan obs cs")
    then obtain cs' ev' where e: "turn_effect cfg lan cs cs' ev'" "ctrl_quiet ev'"
      "r2 = Some cs' \<and> ev2 = ev' \<or> r2 = None \<and> ev2 = ev' @ tear_down cs'"
      using ctrl_loop_effect [OF assms(2)] by blast
    have r: "r = r2" "ev = ev1 @ ev2" using assms(3) s l Some by (auto simp: run_ctrl_session_def)
    have bal: "mset (udp_opened (ev1 @ ev')) = mset (udp_closed (ev1 @ ev'))
        + mset (map pr_udp_fd (pump_posts ev')) + mset (sess_fds cs')"
      using su e(1) Some by (simp add: turn_effect_def) (metis (no_types, lifting) add.assoc add.commute)
    have reg: "registers (ev1 @ ev') \<noteq> [] \<and> attempts (ev1 @ ev') \<noteq> []
        \<and> snd (last (attempts (ev1 @ ev'))) = register_msg cfg (cs_srflx cs') lan"
      using su e(1) Some by (auto simp: turn_effect_def registers_attempts split: if_splits)
    show ?thesis
      using e(3)
    proof (elim disjE)
      assume "r2 = Some cs' \<and> ev2 = ev'"
      then show ?thesis
        using r bal reg su e Some quiet_count [OF e(2)] by (auto simp: turn_effect_def)
    next
      assume "r2 = None \<and> ev2 = ev' @ tear_down cs'"
      then show ?thesis
        using r bal su e Some quiet_count [OF e(2)]
        by (simp add: turn_effect_def tear_down_traces count_tear_down)
    qed
  qed
qed

subsection \<open>The register message\<close>

definition register_kvs :: "srt_cfg \<Rightarrow> binding \<Rightarrow> string \<Rightarrow> (string \<times> string) list" where
  "register_kvs cfg b lan =
     [(''type'', ''SRT_REGISTER''), (''service_id'', sc_node_id cfg), (''srflx_ip'', srflx_ip b),
      (''srflx_port'', show_int (srflx_port b))]
     @ (if lan \<noteq> [] then [(''lan_ip'', lan)] else [])
     @ (if sc_ctrl_token cfg \<noteq> [] then [(''api_token'', sc_ctrl_token cfg)] else [])"

lemma register_text_kvs: "register_text cfg b lan = kv_lines (register_kvs cfg b lan)"
  by (simp add: register_text_def register_kvs_def kv_lines_def nl_def)

definition plain :: "string \<Rightarrow> bool" where
  "plain s \<longleftrightarrow> CHR 0x0A \<notin> set s \<and> CHR 0x00 \<notin> set s"

lemma plain_show_int: "plain (show_int i)"
  using show_int_clean [of "CHR 0x0A" i] show_int_clean [of "CHR 0x00" i] by (auto simp: plain_def isspace_def)

lemma register_kvs_clean:
  assumes "plain (sc_node_id cfg)" "plain (srflx_ip b)" "plain lan" "plain (sc_ctrl_token cfg)"
  shows "kv_clean (register_kvs cfg b lan)"
  using assms plain_show_int [of "srflx_port b"] by (simp add: register_kvs_def kv_clean_def plain_def)

lemma register_text_length:
  assumes "length (sc_node_id cfg) < 64" "length (srflx_ip b) < 64" "length lan < 64"
    "length (sc_ctrl_token cfg) < 128" "int_min \<le> srflx_port b" "srflx_port b \<le> int_max"
  shows "length (register_text cfg b lan) < 1024"
  using assms length_show_int [of "srflx_port b"] by (simp add: register_text_def nl_def)

subsection \<open>Properties\<close>

text \<open>
  C6. A control session accounts for everything it opens, whatever the network does: each UDP socket
  is closed by the session, handed to the pump, or still its own, exactly one of them, and the control
  connection is closed exactly when the session ends.  Every request it posts carries a descriptor, a
  positive port and a non-empty address that fit their fields.
\<close>

theorem session_resources:
  assumes "alloc_ok (su_alloc o1)" "\<forall>ob \<in> set obs. alloc_ok (to_alloc ob)"
    "run_ctrl_session cfg lan o1 obs = (r, ev)"
  shows "mset (udp_opened ev) = mset (udp_closed ev) + mset (map pr_udp_fd (pump_posts ev))
      + mset (case r of None \<Rightarrow> [] | Some cs \<Rightarrow> sess_fds cs)
    \<and> count_list ev CtrlOpened = count_list ev CtrlClosed + (if r = None then 0 else 1)
    \<and> (\<forall>req \<in> set (pump_posts ev). post_ok req)"
  using session_effect [OF assms] by blast

definition sample_alloc :: "int \<Rightarrow> alloc_calls" where
  "sample_alloc fd = \<lparr>al_sock = Some fd, al_bind = True, al_sock2 = None, al_bind2 = False\<rparr>"

definition sample_binding :: binding where
  "sample_binding = \<lparr>srflx_ip = ''9.9.9.9'', srflx_port = 40000\<rparr>"

definition sample_setup :: setup_obs where
  "sample_setup = \<lparr>su_alloc = sample_alloc 4, su_port = 4000, su_srflx = Some sample_binding, su_ctrl = True,
     su_sent = True, su_ack = Some (kv_lines [(''type'', ''SRT_REGISTERED'')])\<rparr>"

definition peer_msg :: string where
  "peer_msg = kv_lines [(''type'', ''SRT_PEER''), (''srflx_ip'', ''8.8.8.8''), (''srflx_port'', ''777'')]"

definition sample_turns :: "turn_obs list" where
  "sample_turns =
     [\<lparr>to_shutdown = False, to_reload = False, to_got = Some peer_msg, to_ping = True, to_sent = True,
       to_fresh = Some (sample_binding\<lparr>srflx_port := 40001\<rparr>), to_alloc = sample_alloc 5, to_port = 4001\<rparr>]"

lemma peer_msg_kv:
  "kv_get peer_msg ''type'' 64 = (0, ''SRT_PEER'')" "kv_get peer_msg ''srflx_ip'' 64 = (0, ''8.8.8.8'')"
  "kv_get peer_msg ''srflx_port'' 16 = (0, ''777'')" "kv_get peer_msg ''lan_ip'' 64 = (-1, [])"
  unfolding peer_msg_def by (subst kv_get_lines; simp add: kv_clean_def bcopy_def)+

lemma sample_ack: "kv_get (kv_lines [(''type'', ''SRT_REGISTERED'')]) ''type'' 64 = (0, ''SRT_REGISTERED'')"
  by (subst kv_get_lines; simp add: kv_clean_def bcopy_def)

lemma atoi_777: "atoi ''777'' = 777"
  by (simp add: atoi_def isspace_def isdigit_def digit_val_def clamp_def int_min_def int_max_def)

lemma sample_session:
  "\<exists>cs ev. run_ctrl_session cfg lan sample_setup sample_turns = (Some cs, ev)
     \<and> udp_opened ev = [4, 5] \<and> udp_closed ev = [] \<and> map pr_udp_fd (pump_posts ev) = [4]
     \<and> cs_udp cs = 5 \<and> srflx_port (cs_srflx cs) = 40001"
proof -
  have ne: "kv_lines [(''type'', ''SRT_REGISTERED'')] \<noteq> []" "peer_msg \<noteq> []"
    by (simp_all add: kv_lines_def peer_msg_def)
  show ?thesis
    by (simp add: run_ctrl_session_def ctrl_setup_def sample_setup_def sample_turns_def sample_alloc_def
        allocate_edge_socket_def sample_binding_def ctrl_turn_def on_message_def peer_request_def hand_over_def
        reregister_def refresh_def ctrl_sending_def Let_def peer_msg_kv sample_ack ne atoi_777)
qed

lemma sample_obs_ok: "alloc_ok (su_alloc sample_setup)" "\<forall>ob \<in> set sample_turns. alloc_ok (to_alloc ob)"
  by (simp_all add: alloc_ok_def sample_setup_def sample_turns_def sample_alloc_def)

theorem session_resources_witness:
  "\<exists>cs ev. run_ctrl_session (snapshot_config ap2p_state_init) [] sample_setup sample_turns = (Some cs, ev)
     \<and> pump_posts ev \<noteq> [] \<and> mset (udp_opened ev) = mset (udp_closed ev) + mset (map pr_udp_fd (pump_posts ev))
      + mset (sess_fds cs)"
proof -
  obtain cs ev where e: "run_ctrl_session (snapshot_config ap2p_state_init) [] sample_setup sample_turns = (Some cs, ev)"
    "map pr_udp_fd (pump_posts ev) = [4]"
    using sample_session [of "snapshot_config ap2p_state_init" "[]"] by auto
  then have "pump_posts ev \<noteq> []" by auto
  then show ?thesis using session_resources [OF sample_obs_ok e(1)] e(1) by auto
qed

text \<open>
  C27. While a session runs, the last registration it tried to send carries its current public address: every
  change of the address, on a refresh or after a hand-over, is followed by a new registration.  Where
  that send succeeded, it is also the last registration that went out.
\<close>

theorem registered_address_current:
  assumes "alloc_ok (su_alloc o1)" "\<forall>ob \<in> set obs. alloc_ok (to_alloc ob)"
    "run_ctrl_session cfg lan o1 obs = (Some cs, ev)"
  shows "registers ev \<noteq> [] \<and> attempts ev \<noteq> [] \<and> snd (last (attempts ev)) = register_msg cfg (cs_srflx cs) lan
    \<and> (fst (last (attempts ev)) \<longrightarrow> last (registers ev) = register_msg cfg (cs_srflx cs) lan)"
proof -
  have a: "registers ev \<noteq> []" "attempts ev \<noteq> []" "snd (last (attempts ev)) = register_msg cfg (cs_srflx cs) lan"
    using session_effect [OF assms] by auto
  obtain xs x where x: "attempts ev = xs @ [x]" using a(2) by (meson rev_exhaust)
  show ?thesis using a by (simp add: registers_attempts x)
qed

theorem registered_address_current_witness:
  "\<exists>cs ev. run_ctrl_session (snapshot_config ap2p_state_init) [] sample_setup sample_turns = (Some cs, ev)
     \<and> srflx_port (cs_srflx cs) = 40001
     \<and> snd (last (attempts ev)) = register_msg (snapshot_config ap2p_state_init) (cs_srflx cs) []"
proof -
  obtain cs ev where e: "run_ctrl_session (snapshot_config ap2p_state_init) [] sample_setup sample_turns = (Some cs, ev)"
    "srflx_port (cs_srflx cs) = 40001"
    using sample_session [of "snapshot_config ap2p_state_init" "[]"] by auto
  then show ?thesis using registered_address_current [OF sample_obs_ok e(1)] by blast
qed

text \<open>An answer of the discovery that repeats the address the session already has, or none.\<close>

definition same_address :: "binding \<Rightarrow> turn_obs \<Rightarrow> bool" where
  "same_address b ob \<longleftrightarrow> (\<forall>f. to_fresh ob = Some f \<longrightarrow> srflx_ip f = srflx_ip b \<and> srflx_port f = srflx_port b)"

lemma reregister_same: "same_address (cs_srflx cs) ob \<Longrightarrow> reregister cfg lan sent (to_fresh ob) cs = (cs, [])"
  by (cases "to_fresh ob") (simp_all add: reregister_def refresh_def same_address_def)

lemma allocate_no_attempt: "allocate_edge_socket a = (udp, ev) \<Longrightarrow> attempts ev = []"
  by (auto simp: allocate_edge_socket_def split: option.splits if_splits)

lemma ctrl_turn_same:
  assumes "same_address (cs_srflx cs) ob" "ctrl_turn cfg lan ob cs = (go, cs', ev)"
  shows "attempts ev = [] \<and> cs_srflx cs' = cs_srflx cs"
proof -
  have h: "hand_over cfg lan ob cs req = (cs', ev) \<Longrightarrow> attempts ev = [] \<and> cs_srflx cs' = cs_srflx cs" for req cs' ev
    using assms(1) by (auto simp: hand_over_def Let_def reregister_same dest: allocate_no_attempt split: if_splits prod.splits)
  have m: "on_message cfg lan ob msg cs = (cs', ev) \<Longrightarrow> attempts ev = [] \<and> cs_srflx cs' = cs_srflx cs" for msg cs' ev
    using h by (auto simp: on_message_def ctrl_sending_def Let_def split: if_splits option.splits)
  have i: "on_idle cfg lan ob cs = (go, cs', ev) \<Longrightarrow> attempts ev = [] \<and> cs_srflx cs' = cs_srflx cs" for go cs' ev
    using assms(1) by (auto simp: on_idle_def Let_def reregister_same split: if_splits)
  show ?thesis using assms(2) m i by (auto simp: ctrl_turn_def split: if_splits option.splits prod.splits)
qed

lemma ctrl_loop_same:
  assumes "\<forall>ob \<in> set obs. same_address (cs_srflx cs) ob" "ctrl_loop cfg lan obs cs = (r, ev)"
  shows "attempts ev = []"
  using assms
proof (induction obs arbitrary: cs r ev)
  case (Cons ob obs)
  obtain go cs1 ev1 where t: "ctrl_turn cfg lan ob cs = (go, cs1, ev1)" by (cases "ctrl_turn cfg lan ob cs") auto
  have "attempts ev1 = []" "cs_srflx cs1 = cs_srflx cs" using ctrl_turn_same [OF _ t] Cons.prems(1) by auto
  then show ?case using Cons.IH [of cs1] Cons.prems t by (auto simp: tear_down_traces split: if_splits prod.splits)
qed auto

text \<open>
  A registration that could not be sent is lost: when the discovery reports a new address and the send of the
  new registration fails, no later turn of the session repeats it while the address stays that one, so
  the server goes on handing out the old address until the address changes again or the session ends.
\<close>

theorem failed_reregistration_lost:
  assumes "\<not> to_shutdown ob" "\<not> to_reload ob" "to_got ob = Some []" "to_ping ob" "2 \<le> cs_tick cs" "0 \<le> cs_udp cs"
    "to_fresh ob = Some b" "srflx_ip b \<noteq> srflx_ip (cs_srflx cs) \<or> srflx_port b \<noteq> srflx_port (cs_srflx cs)" "\<not> to_sent ob"
    "\<forall>o' \<in> set obs. same_address b o'" "ctrl_loop cfg lan (ob # obs) cs = (r, ev)"
  shows "attempts ev = [(False, register_msg cfg b lan)] \<and> registers ev = []"
proof -
  let ?cs = "cs\<lparr>cs_tick := 0, cs_srflx := b\<rparr>"
  have t: "ctrl_turn cfg lan ob cs = (True, ?cs, [SendMsg (ping_msg cfg), SendFailed (register_msg cfg b lan)])"
    using assms(1-9) by (auto simp: ctrl_turn_def on_idle_def reregister_def refresh_def ctrl_sending_def Let_def)
  obtain r' ev' where l: "ctrl_loop cfg lan obs ?cs = (r', ev')" by fastforce
  have "attempts ev' = []" by (rule ctrl_loop_same [OF _ l]) (use assms(10) in simp)
  then show ?thesis using assms(11) t l by (auto simp: registers_attempts)
qed

theorem failed_reregistration_lost_witness:
  "registers (snd (ctrl_loop (snapshot_config ap2p_state_init) []
     (replicate 9 \<lparr>to_shutdown = False, to_reload = False, to_got = Some [], to_ping = True, to_sent = False,
       to_fresh = Some (sample_binding\<lparr>srflx_port := 40001\<rparr>), to_alloc = sample_alloc 5, to_port = 4001\<rparr>)
     \<lparr>cs_udp = 4, cs_port = 4000, cs_srflx = sample_binding, cs_tick = 2\<rparr>)) = []"
proof -
  let ?ob = "\<lparr>to_shutdown = False, to_reload = False, to_got = Some [], to_ping = True, to_sent = False,
       to_fresh = Some (sample_binding\<lparr>srflx_port := 40001\<rparr>), to_alloc = sample_alloc 5, to_port = 4001\<rparr>"
  let ?cs = "\<lparr>cs_udp = 4, cs_port = 4000, cs_srflx = sample_binding, cs_tick = 2\<rparr>"
  obtain r ev where l: "ctrl_loop (snapshot_config ap2p_state_init) [] (?ob # replicate 8 ?ob) ?cs = (r, ev)" by fastforce
  have "registers ev = []"
    using failed_reregistration_lost [of ?ob ?cs "sample_binding\<lparr>srflx_port := 40001\<rparr>" "replicate 8 ?ob"
        "snapshot_config ap2p_state_init" "[]" r ev] l by (simp add: same_address_def sample_binding_def)
  moreover have "replicate 9 ?ob = ?ob # replicate 8 ?ob" by (simp add: numeral_eq_Suc)
  ultimately show ?thesis using l by simp
qed

text \<open>
  The registration is never cut by its 1,024-byte buffer, and the signaling server's own lookup
  reads every field back: the node id, the public address and port, the LAN address and the token.
\<close>

theorem register_message_decodes:
  assumes "plain (sc_node_id cfg)" "plain (srflx_ip b)" "plain lan" "plain (sc_ctrl_token cfg)"
    "length (sc_node_id cfg) < 64" "length (srflx_ip b) < 64" "length lan < 64"
    "length (sc_ctrl_token cfg) < 128" "int_min \<le> srflx_port b" "srflx_port b \<le> int_max"
  shows "snd (kv_get (register_msg cfg b lan) ''type'' 64) = ''SRT_REGISTER''
    \<and> snd (kv_get (register_msg cfg b lan) ''service_id'' 64) = sc_node_id cfg
    \<and> snd (kv_get (register_msg cfg b lan) ''srflx_ip'' 64) = srflx_ip b
    \<and> atoi (snd (kv_get (register_msg cfg b lan) ''srflx_port'' 16)) = srflx_port b
    \<and> snd (kv_get (register_msg cfg b lan) ''lan_ip'' 64) = lan
    \<and> snd (kv_get (register_msg cfg b lan) ''api_token'' 128) = sc_ctrl_token cfg"
proof -
  have m: "register_msg cfg b lan = kv_lines (register_kvs cfg b lan)"
    using register_text_length [OF assms(5-10)]
    by (simp add: register_msg_def bcopy_def register_text_kvs [symmetric])
  have k: "CHR ''='' \<notin> set key \<Longrightarrow> kv_get (kv_lines (register_kvs cfg b lan)) key cap
    = (case map_of (filter (\<lambda>(k, v). v \<noteq> []) (register_kvs cfg b lan)) key of
         None \<Rightarrow> (-1, []) | Some v \<Rightarrow> (0, bcopy cap v))" for key cap
    by (rule kv_get_lines [OF register_kvs_clean [OF assms(1-4)]])
  have s: "length (show_int (srflx_port b)) \<le> 11" using length_show_int assms(9,10) by blast
  have a: "atoi (show_int (srflx_port b)) = srflx_port b" using atoi_show_int assms(9,10) by blast
  let ?get = "map_of (filter (\<lambda>(k, v). v \<noteq> []) (register_kvs cfg b lan))"
  have l: "?get ''type'' = Some ''SRT_REGISTER''" "?get ''srflx_port'' = Some (show_int (srflx_port b))"
    "?get ''service_id'' = (if sc_node_id cfg = [] then None else Some (sc_node_id cfg))"
    "?get ''srflx_ip'' = (if srflx_ip b = [] then None else Some (srflx_ip b))"
    "?get ''lan_ip'' = (if lan = [] then None else Some lan)"
    "?get ''api_token'' = (if sc_ctrl_token cfg = [] then None else Some (sc_ctrl_token cfg))"
    by (simp_all add: register_kvs_def)
  show ?thesis
    unfolding m using assms(5-8) s a by (simp add: k l bcopy_def)
qed

theorem register_message_decodes_witness:
  "snd (kv_get (register_msg (snapshot_config ap2p_state_init) sample_binding ''10.0.0.2'') ''lan_ip'' 64) = ''10.0.0.2''"
  using register_message_decodes [of "snapshot_config ap2p_state_init" sample_binding "''10.0.0.2''"]
  by (simp add: snapshot_config_def ap2p_state_init_def bcopy_def plain_def sample_binding_def int_min_def int_max_def)

text \<open>
  A peer announcement in a running session is turned into a pump request for the right target: the
  peer's LAN address when both sides share a public address and the peer named one, else its public
  address, with the port and the discovery socket.
\<close>

theorem peer_announcement_target:
  assumes "plain ip" "plain peer_lan" "ip \<noteq> []" "length ip < 64" "length peer_lan < 64"
    "0 < port" "port \<le> 65535" "0 \<le> cs_udp cs" "to_shutdown ob = False" "to_reload ob = False"
    "to_got ob = Some (kv_lines [(''type'', ''SRT_PEER''), (''srflx_ip'', ip), (''srflx_port'', show_int port),
       (''lan_ip'', peer_lan)])" "alloc_ok (to_alloc ob)"
  shows "\<exists>cs' ev req. ctrl_turn cfg lan ob cs = (True, cs', ev) \<and> pump_posts ev = [req]
    \<and> pr_peer_ip req = (if peer_lan \<noteq> [] \<and> srflx_ip (cs_srflx cs) = ip then peer_lan else ip)
    \<and> pr_peer_port req = port \<and> pr_local_port req = cs_port cs \<and> pr_udp_fd req = cs_udp cs"
proof -
  define kvs where "kvs = [(''type'', ''SRT_PEER''), (''srflx_ip'', ip), (''srflx_port'', show_int port), (''lan_ip'', peer_lan)]"
  have cl: "kv_clean kvs"
    using assms(1,2) plain_show_int [of port] by (simp add: kvs_def kv_clean_def plain_def)
  have k: "CHR ''='' \<notin> set key \<Longrightarrow> kv_get (kv_lines kvs) key cap
    = (case map_of (filter (\<lambda>(k, v). v \<noteq> []) kvs) key of None \<Rightarrow> (-1, []) | Some v \<Rightarrow> (0, bcopy cap v))" for key cap
    by (rule kv_get_lines [OF cl])
  let ?get = "map_of (filter (\<lambda>(k, v). v \<noteq> []) kvs)"
  have l: "?get ''type'' = Some ''SRT_PEER''" "?get ''srflx_port'' = Some (show_int port)"
    "?get ''srflx_ip'' = Some ip" "?get ''lan_ip'' = (if peer_lan = [] then None else Some peer_lan)"
    using assms(3) by (simp_all add: kvs_def)
  have p: "int_min \<le> port" "port \<le> int_max" using assms(6,7) by (auto simp: int_min_def int_max_def)
  have a: "atoi (show_int port) = port" "length (show_int port) \<le> 11"
    using atoi_show_int length_show_int p by auto
  define req where "req = \<lparr>pr_peer_ip = (if peer_lan \<noteq> [] \<and> srflx_ip (cs_srflx cs) = ip then peer_lan else ip),
     pr_peer_port = port, pr_local_port = cs_port cs, pr_my_srflx_ip = bcopy 64 (srflx_ip (cs_srflx cs)),
     pr_udp_fd = -1\<rparr>"
  have r: "peer_request cs (kv_lines kvs) = Some req"
    using assms(3-7) a by (simp add: peer_request_def k l bcopy_def req_def Let_def)
  obtain cs' ev where h: "hand_over cfg lan ob cs req = (cs', ev)" by (cases "hand_over cfg lan ob cs req")
  have "kv_lines kvs \<noteq> []" by (simp add: kvs_def kv_lines_def)
  then have t: "ctrl_turn cfg lan ob cs = (True, cs', ev)"
    using assms(9-11) r h by (simp add: ctrl_turn_def kvs_def [symmetric] on_message_def k l bcopy_def)
  obtain udp ev1 where al: "allocate_edge_socket (to_alloc ob) = (udp, ev1)"
    by (cases "allocate_edge_socket (to_alloc ob)")
  have "pump_posts ev = [req\<lparr>pr_udp_fd := cs_udp cs\<rparr>]"
    using h assms(8) al allocate_spec [OF assms(12) al] reregister_spec
    by (auto simp: hand_over_def Let_def split: if_splits prod.splits)
  then show ?thesis using t by (auto simp: req_def)
qed

theorem peer_announcement_target_witness:
  "\<exists>cs' ev req. ctrl_turn (snapshot_config ap2p_state_init) [] \<lparr>to_shutdown = False, to_reload = False,
       to_got = Some (kv_lines [(''type'', ''SRT_PEER''), (''srflx_ip'', ''9.9.9.9''), (''srflx_port'', show_int 777),
         (''lan_ip'', ''10.0.0.7'')]), to_ping = True, to_sent = True, to_fresh = None, to_alloc = sample_alloc 5, to_port = 4001\<rparr>
       \<lparr>cs_udp = 4, cs_port = 4000, cs_srflx = sample_binding, cs_tick = 0\<rparr> = (True, cs', ev)
     \<and> pump_posts ev = [req] \<and> pr_peer_ip req = ''10.0.0.7''"
  using peer_announcement_target [of "''9.9.9.9''" "''10.0.0.7''" 777 "\<lparr>cs_udp = 4, cs_port = 4000, cs_srflx = sample_binding, cs_tick = 0\<rparr>"
      "\<lparr>to_shutdown = False, to_reload = False,
       to_got = Some (kv_lines [(''type'', ''SRT_PEER''), (''srflx_ip'', ''9.9.9.9''), (''srflx_port'', show_int 777),
         (''lan_ip'', ''10.0.0.7'')]), to_ping = True, to_sent = True, to_fresh = None, to_alloc = sample_alloc 5, to_port = 4001\<rparr>"
      "snapshot_config ap2p_state_init" "[]"]
  by (auto simp: plain_def sample_binding_def alloc_ok_def sample_alloc_def)

text \<open>
  A session that could not reallocate its discovery socket keeps registering itself as alive but
  serves no viewer any more: until it is rebuilt every peer announcement is dropped and no socket is
  opened, although the pings go on.
\<close>

theorem no_discovery_socket_no_viewers:
  assumes "cs_udp cs < 0" "ctrl_loop cfg lan obs cs = (r, ev)"
  shows "pump_posts ev = [] \<and> udp_opened ev = [] \<and> registers ev = [] \<and> (\<forall>cs'. r = Some cs' \<longrightarrow> cs_udp cs' < 0)"
  using assms
proof (induction obs arbitrary: cs r ev)
  case (Cons ob obs)
  obtain go cs1 ev1 where t: "ctrl_turn cfg lan ob cs = (go, cs1, ev1)" by (cases "ctrl_turn cfg lan ob cs") auto
  have "cs_udp cs1 < 0 \<and> pump_posts ev1 = [] \<and> udp_opened ev1 = [] \<and> registers ev1 = []"
    using t Cons.prems(1)
    by (auto simp: ctrl_turn_def on_idle_def on_message_def hand_over_def reregister_def refresh_def ctrl_sending_def Let_def
        split: if_splits option.splits prod.splits)
  then show ?case
    using Cons.IH [of cs1] Cons.prems(2) t
    by (auto simp: tear_down_traces split: if_splits prod.splits)
qed auto

theorem no_discovery_socket_no_viewers_witness:
  "pump_posts (snd (ctrl_loop (snapshot_config ap2p_state_init) [] sample_turns
     \<lparr>cs_udp = -1, cs_port = 4000, cs_srflx = sample_binding, cs_tick = 0\<rparr>)) = []"
  using no_discovery_socket_no_viewers [of "\<lparr>cs_udp = -1, cs_port = 4000, cs_srflx = sample_binding, cs_tick = 0\<rparr>"
      "snapshot_config ap2p_state_init" "[]" sample_turns]
  by (cases "ctrl_loop (snapshot_config ap2p_state_init) [] sample_turns
     \<lparr>cs_udp = -1, cs_port = 4000, cs_srflx = sample_binding, cs_tick = 0\<rparr>") simp

text \<open>How many sessions back the backoff started: at the first session, or at the last long one.\<close>

fun since_reset :: "nat \<Rightarrow> nat list \<Rightarrow> nat list" where
  "since_reset k [] = []"
| "since_reset k (l # ls) =
     (let e = (if l \<ge> long_session_s then 0 else k) in e # since_reset (Suc e) ls)"

primrec sleeps :: "thread_out list \<Rightarrow> nat list" where
  "sleeps [] = []"
| "sleeps (e # es) = (case e of Sleep n \<Rightarrow> [n] | _ \<Rightarrow> []) @ sleeps es"

lemma reconnect_loop_sleeps:
  "sleeps (reconnect_loop (map (\<lambda>l. (l, False)) ls) (min (reconnect_min_ms * 2 ^ k) reconnect_max_ms))
    = map (\<lambda>e. min (reconnect_min_ms * 2 ^ e) reconnect_max_ms) (since_reset k ls)"
proof (induction ls arbitrary: k)
  case (Cons l ls)
  define e where "e = (if l \<ge> long_session_s then 0 else k)"
  have b: "(if l \<ge> long_session_s then reconnect_min_ms else min (reconnect_min_ms * 2 ^ k) reconnect_max_ms)
    = min (reconnect_min_ms * 2 ^ e) reconnect_max_ms"
    by (simp add: e_def reconnect_min_ms_def reconnect_max_ms_def)
  have "min (min (reconnect_min_ms * 2 ^ e) reconnect_max_ms * 2) reconnect_max_ms
    = min (reconnect_min_ms * 2 ^ Suc e) reconnect_max_ms"
    by (auto simp: min_def reconnect_max_ms_def)
  then show ?case
    using Cons.IH [of "Suc e"] by (simp add: b e_def [symmetric] Let_def del: power_Suc)
qed simp

text \<open>
  Reconnect backoff: the pause after a session is \<open>min (1000 * 2\<^sup>e) 5000\<close> ms, where \<open>e\<close> counts the
  sessions since the thread started or since the last one that lasted 30 s; so every pause lies between
  one and five seconds and a flapping server is never retried faster.
\<close>

theorem reconnect_backoff:
  "sleeps (reconnect_loop (map (\<lambda>l. (l, False)) ls) reconnect_min_ms)
      = map (\<lambda>e. min (reconnect_min_ms * 2 ^ e) reconnect_max_ms) (since_reset 0 ls)
    \<and> (\<forall>n \<in> set (sleeps (reconnect_loop (map (\<lambda>l. (l, False)) ls) reconnect_min_ms)). 1000 \<le> n \<and> n \<le> 5000)"
proof -
  have s: "sleeps (reconnect_loop (map (\<lambda>l. (l, False)) ls) reconnect_min_ms)
      = map (\<lambda>e. min (reconnect_min_ms * 2 ^ e) reconnect_max_ms) (since_reset 0 ls)"
    using reconnect_loop_sleeps [of ls 0] by (simp add: reconnect_min_ms_def reconnect_max_ms_def)
  then show ?thesis by (auto simp: reconnect_min_ms_def reconnect_max_ms_def)
qed

theorem reconnect_backoff_witness:
  "sleeps (reconnect_loop (map (\<lambda>l. (l, False)) [1, 2, 3, 4, 60, 1]) reconnect_min_ms)
     = [1000, 2000, 4000, 5000, 1000, 2000]"
  using reconnect_backoff [of "[1, 2, 3, 4, 60, 1]"]
  by (simp add: long_session_s_def reconnect_min_ms_def reconnect_max_ms_def)

text \<open>
  C38. The thread never runs a session before the first configuration has arrived, joins the pump it
  started and cleans the SRT library up exactly as often as it started it, on every path.
\<close>

theorem srt_thread_lifecycle:
  "let ev = srt_thread_main wait_rc startup_ok False create_ok sessions in
     (Session \<in> set ev \<longrightarrow> wait_rc = 0 \<and> startup_ok \<and> create_ok)
     \<and> count_list ev SrtStartup = count_list ev SrtCleanup
     \<and> count_list ev PumpStarted = count_list ev PumpJoined"
proof -
  have n: "count_list (reconnect_loop sessions b) e = 0" if "e \<in> {SrtStartup, SrtCleanup, PumpStarted, PumpJoined}" for b e
    using that by (induction sessions arbitrary: b) (auto simp: Let_def split: prod.splits)
  show ?thesis by (simp add: srt_thread_main_def n)
qed

theorem srt_thread_lifecycle_witness:
  "srt_thread_main (-2) True False True [(5, False)] = [] \<and>
   Session \<in> set (srt_thread_main 0 True False True [(5, False)])"
  using srt_thread_lifecycle [of "-2" True True "[(5, False)]"]
  by (auto simp: srt_thread_main_def)

end
