(* ===== verification/PhoneFanout.thy ===== *)
theory PhoneFanout
  imports Fanout
begin

text \<open>
  The fan-out of the phone-side consumer (\<open>consumer_srt_p2p.c\<close>): one SRT session, up to four local HTTP
  clients.  The struct and the loops are those of the cloud consumer, whose records \<open>http_client\<close> and
  \<open>send_res\<close> and loops over a socket's answers are used again; the operations around them differ - where
  a client starts, what a replayed prefix does to its cursor, no check for a client that has fallen out
  of the ring - and are defined here.  \<open>view\<close> reads the phone's struct as the cloud consumer's.
\<close>

record 'a p2p_stream =
  p_buf :: "'a list"
  p_total_bytes :: nat
  p_clients :: "'a http_client list"
  p_n_clients :: nat
  p_flv_header :: "'a list"
  p_eof :: bool

definition p2p_max_http_clients :: nat where "p2p_max_http_clients = 4"

definition view :: "'a p2p_stream \<Rightarrow> 'a stream" where
  "view s = \<lparr>sbuf = p_buf s, total_bytes = p_total_bytes s, clients = p_clients s, n_clients = p_n_clients s,
     srt_sock = srt_invalid_sock, flv_header = p_flv_header s\<rparr>"

definition p2p_stream_init :: "'a list \<Rightarrow> 'a p2p_stream" where
  "p2p_stream_init mem = \<lparr>p_buf = mem, p_total_bytes = 0, p_clients = replicate p2p_max_http_clients empty_client,
     p_n_clients = 0, p_flv_header = [], p_eof = False\<rparr>"

subsection \<open>Operations\<close>

definition p2p_ring_write :: "'a p2p_stream \<Rightarrow> 'a list \<Rightarrow> 'a p2p_stream" where
  "p2p_ring_write s data =
     (let n = length data; cap = length (p_buf s);
          off = p_total_bytes s mod cap;
          first = (if off + n \<le> cap then n else cap - off);
          b1 = take off (p_buf s) @ take first data @ drop (off + first) (p_buf s);
          b2 = (if first < n then drop first data @ drop (n - first) b1 else b1)
      in s\<lparr>p_buf := b2, p_total_bytes := p_total_bytes s + n\<rparr>)"

definition P2P_FLV_HDR :: string where
  "P2P_FLV_HDR = ''HTTP/1.1 200 OK'' @ crlf @ ''Content-Type: video/x-flv'' @ crlf
     @ ''Connection: close'' @ crlf @ ''Cache-Control: no-cache'' @ crlf
     @ ''Access-Control-Allow-Origin: *'' @ crlf @ crlf"

text \<open>\<open>drain_client_locked\<close>: true when it returns 0.\<close>

definition p2p_http_step :: "send_res list \<Rightarrow> 'a http_client \<Rightarrow> bool \<times> send_res list" where
  "p2p_http_step rs c = (if header_sent c then (True, rs) else write_all rs (length P2P_FLV_HDR))"

definition p2p_drain_client :: "send_res list \<Rightarrow> 'a p2p_stream \<Rightarrow> 'a http_client \<Rightarrow> bool \<times> 'a http_client" where
  "p2p_drain_client rs s c =
     (let (ok, rs1) = p2p_http_step rs c in
      if \<not> ok then (False, c)
      else let c1 = c\<lparr>header_sent := True\<rparr>;
               (r, off, out, rs2) = replay_step rs1 (view s) c1;
               c2 = c1\<lparr>flv_hdr_off := off, got := got c1 @ out\<rparr>
        in case r of
           Blocked \<Rightarrow> (True, c2)
         | Errored \<Rightarrow> (False, c2)
         | Done \<Rightarrow> live_step rs2 (view s)
             (if \<not> flv_hdr_sent c2 \<and> p_flv_header s \<noteq> []
              then c2\<lparr>flv_hdr_sent := True, cursor := (if cursor c2 < flv_hdr_off c2 then flv_hdr_off c2 else cursor c2)\<rparr>
              else c2))"

fun p2p_drain_list :: "'a p2p_stream \<Rightarrow> send_res list list \<Rightarrow> 'a http_client list \<Rightarrow> int list \<times> 'a http_client list" where
  "p2p_drain_list s rss [] = ([], [])"
| "p2p_drain_list s rss (c # cs) =
     (let rs = (case rss of [] \<Rightarrow> [] | r # _ \<Rightarrow> r);
          (shut, cs') = p2p_drain_list s (tl rss) cs
      in if c_fd c < 0 then (shut, c # cs')
         else let (ok, c') = p2p_drain_client rs s c in
           if ok then (shut, c' # cs') else (c_fd c # shut, c'\<lparr>c_fd := -1\<rparr> # cs'))"

text \<open>\<open>prune_locked\<close>: the survivors move down, the slots behind them lose their descriptor.\<close>

definition p2p_prune :: "'a p2p_stream \<Rightarrow> 'a p2p_stream" where
  "p2p_prune s =
     (let n = p_n_clients s; (j, cs) = compact_move 0 0 n (p_clients s)
      in s\<lparr>p_clients := take j cs @ map (\<lambda>c. c\<lparr>c_fd := -1\<rparr>) (take (n - j) (drop j cs)) @ drop n cs, p_n_clients := j\<rparr>)"

definition p2p_cache_header :: "'a p2p_stream \<Rightarrow> 'a list \<Rightarrow> 'a p2p_stream" where
  "p2p_cache_header s data =
     (if length (p_flv_header s) < header_cache_size
      then s\<lparr>p_flv_header := p_flv_header s @ take (header_cache_size - length (p_flv_header s)) data\<rparr>
      else s)"

text \<open>One \<open>srt_recv\<close>: the critical section of \<open>srt_recv_thread\<close>; the descriptors it closed.\<close>

definition p2p_message :: "'a p2p_stream \<Rightarrow> 'a list \<Rightarrow> send_res list list \<Rightarrow> int list \<times> 'a p2p_stream" where
  "p2p_message s data rss =
     (let s1 = p2p_ring_write (p2p_cache_header s data) data;
          (shut, cs) = p2p_drain_list s1 rss (take (p_n_clients s1) (p_clients s1));
          s2 = s1\<lparr>p_clients := cs @ drop (p_n_clients s1) (p_clients s1)\<rparr>
      in (shut, p2p_prune s2))"

text \<open>The end of the session: every client is closed.\<close>

definition p2p_end :: "'a p2p_stream \<Rightarrow> int list \<times> 'a p2p_stream" where
  "p2p_end s =
     (let act = take (p_n_clients s) (p_clients s)
      in (map c_fd (filter (\<lambda>c. c_fd c \<ge> 0) act),
          s\<lparr>p_eof := True, p_n_clients := 0,
             p_clients := map (\<lambda>c. if c_fd c \<ge> 0 then c\<lparr>c_fd := -1\<rparr> else c) act @ drop (p_n_clients s) (p_clients s)\<rparr>))"

definition p2p_install :: "'a p2p_stream \<Rightarrow> int \<Rightarrow> bool \<times> 'a p2p_stream" where
  "p2p_install s cli =
     (if p_n_clients s \<ge> p2p_max_http_clients then (False, s)
      else (True, s\<lparr>p_clients := (p_clients s)[p_n_clients s := \<lparr>c_fd = cli, cursor = length (p_flv_header s),
                      header_sent = False, flv_hdr_sent = False, flv_hdr_off = 0, got = [],
                      joined = length (p_flv_header s)\<rparr>],
                    p_n_clients := p_n_clients s + 1\<rparr>))"

subsection \<open>The ring, as the cloud consumer's\<close>

lemma view_simps [simp]:
  "sbuf (view s) = p_buf s" "total_bytes (view s) = p_total_bytes s" "flv_header (view s) = p_flv_header s"
  by (simp_all add: view_def)

lemma view_ring_write: "view (p2p_ring_write s d) = ring_write (view s) d"
  by (simp add: view_def p2p_ring_write_def ring_write_def Let_def split del: if_split cong del: if_weak_cong)

lemma length_p2p_write: "length (p_buf (p2p_ring_write s d)) = scap (ring_write (view s) d)"
  by (subst view_ring_write [symmetric]) simp

interpretation phone_ring: ring_log p2p_ring_write "\<lambda>s. byte_at (view s)" "\<lambda>s. length (p_buf s)" "\<lambda>s. ring_rel (view s)"
proof unfold_locales
  fix s :: "'a p2p_stream" and h d :: "'a list" and i
  assume r: "ring_rel (view s) h"
  show "length d \<le> length (p_buf s) \<Longrightarrow> length (p_buf (p2p_ring_write s d)) = length (p_buf s)"
    using ring.write_cap [OF r, of d] by (simp add: length_p2p_write)
  show "length d \<le> length (p_buf s) \<Longrightarrow> ring_rel (view (p2p_ring_write s d)) (h @ d)"
    using ring.write_log [OF r, of d] by (simp add: view_ring_write)
  show "i < length h \<Longrightarrow> length h \<le> i + length (p_buf s) \<Longrightarrow> byte_at (view s) i = h ! i"
    using ring.read_log [OF r, of i] by simp
qed

subsection \<open>What a client has received\<close>

text \<open>How much of the stream a client that kept up has: the prefix replayed so far, then everything up to its cursor.\<close>

definition reach :: "'a http_client \<Rightarrow> nat" where
  "reach c = (if flv_hdr_sent c then cursor c else flv_hdr_off c)"

definition phone_client :: "'a list \<Rightarrow> 'a http_client \<Rightarrow> bool" where
  "phone_client h c \<longleftrightarrow> cursor c \<le> length h \<and> got c = take (reach c) h \<and> reach c \<le> length h
     \<and> (\<not> flv_hdr_sent c \<longrightarrow> cursor c \<le> header_cache_size \<and> flv_hdr_off c \<le> header_cache_size)"

definition in_window :: "'a p2p_stream \<Rightarrow> 'a list \<Rightarrow> 'a http_client \<Rightarrow> bool" where
  "in_window s h c \<longleftrightarrow> length h \<le> cursor c + length (p_buf s)"

lemma phone_client_fd [simp]: "phone_client h (c\<lparr>c_fd := x\<rparr>) = phone_client h c"
  by (simp add: phone_client_def reach_def)

lemma phone_client_more: "phone_client h c \<Longrightarrow> phone_client (h @ d) c"
  by (auto simp: phone_client_def)

lemma phone_live_step:
  assumes "ring_rel (view s) h" "flv_hdr_sent c \<or> h = []" "phone_client h c" "in_window s h c" "live_step rs (view s) c = (b, c')"
  shows "phone_client h c' \<and> c_fd c' = c_fd c"
proof -
  obtain r cur out where l: "data_loop rs (view s) (cursor c) = (r, cur, out)" by (cases "data_loop rs (view s) (cursor c)") auto
  have c': "c' = c\<lparr>cursor := cur, got := got c @ out\<rparr>" using assms(5) l by (auto simp: live_step_def)
  have "cursor c \<le> cur \<and> cur \<le> length h \<and> out = take (cur - cursor c) (drop (cursor c) h)"
    using data_loop_slice [OF assms(1) _ _ l] assms(3,4) by (simp add: phone_client_def in_window_def)
  moreover have "take (cursor c) h @ take (cur - cursor c) (drop (cursor c) h) = take cur h" if "cursor c \<le> cur"
    using that take_add [of "cursor c" "cur - cursor c" h] by simp
  ultimately show ?thesis using assms(2,3) c' by (auto simp: phone_client_def reach_def)
qed

lemma phone_replay:
  assumes "p_flv_header s = take header_cache_size h" "phone_client h c" "replay_step rs (view s) c = (r, off, out, rs2)"
  shows "phone_client h (c\<lparr>flv_hdr_off := off, got := got c @ out\<rparr>)
    \<and> (r = Done \<longrightarrow> \<not> flv_hdr_sent c \<longrightarrow> h \<noteq> [] \<longrightarrow> off = length (p_flv_header s))"
proof (cases "\<not> flv_hdr_sent c \<and> h \<noteq> []")
  case True
  then have "p_flv_header s \<noteq> []" using assms(1) by (simp add: header_cache_size_def)
  then have "replay_loop rs (p_flv_header s) (flv_hdr_off c) = (r, off, out, rs2)"
    using assms(3) True by (simp add: replay_step_def)
  moreover have o': "flv_hdr_off c \<le> length (p_flv_header s)"
    using assms(1,2) True by (auto simp: phone_client_def reach_def)
  ultimately have sl: "flv_hdr_off c \<le> off \<and> off \<le> length (p_flv_header s)
      \<and> out = take (off - flv_hdr_off c) (drop (flv_hdr_off c) (p_flv_header s)) \<and> (r = Done \<longrightarrow> off = length (p_flv_header s))"
    using replay_loop_slice by blast
  have "take off (p_flv_header s) = take (flv_hdr_off c) (p_flv_header s) @ out"
    using sl take_add [of "flv_hdr_off c" "off - flv_hdr_off c" "p_flv_header s"] by simp
  moreover have "take n (p_flv_header s) = take n h" if "n \<le> length (p_flv_header s)" for n
    using that assms(1) by (simp add: min.absorb1)
  ultimately have "take (flv_hdr_off c) h @ out = take off h" using o' sl by metis
  then show ?thesis using assms(1,2) True sl by (auto simp: phone_client_def reach_def)
next
  case False
  then have "out = [] \<and> off = flv_hdr_off c" using assms(1,3) by (auto simp: replay_step_def)
  then show ?thesis using assms(2) False by (auto simp: phone_client_def reach_def)
qed

text \<open>Draining a client inside the window extends what it has to a longer prefix of the stream.\<close>

lemma phone_drain:
  assumes rel: "ring_rel (view s) h" and hdr: "p_flv_header s = take header_cache_size h"
    and ok: "phone_client h c" and win: "in_window s h c" and d: "p2p_drain_client rs s c = (b, c')"
  shows "phone_client h c' \<and> c_fd c' = c_fd c"
proof -
  define c1 where "c1 = c\<lparr>header_sent := True\<rparr>"
  obtain k rs1 where h: "p2p_http_step rs c = (k, rs1)" by fastforce
  obtain r off out rs2 where rep: "replay_step rs1 (view s) c1 = (r, off, out, rs2)" by (cases "replay_step rs1 (view s) c1") auto
  define c2 where "c2 = c1\<lparr>flv_hdr_off := off, got := got c1 @ out\<rparr>"
  define c3 where "c3 = (if \<not> flv_hdr_sent c2 \<and> p_flv_header s \<noteq> []
      then c2\<lparr>flv_hdr_sent := True, cursor := (if cursor c2 < flv_hdr_off c2 then flv_hdr_off c2 else cursor c2)\<rparr> else c2)"
  have unfold: "p2p_drain_client rs s c = (if \<not> k then (False, c) else case r of
      Blocked \<Rightarrow> (True, c2) | Errored \<Rightarrow> (False, c2) | Done \<Rightarrow> live_step rs2 (view s) c3)"
    using h rep by (simp add: p2p_drain_client_def Let_def c1_def c2_def c3_def split: drain_outcome.split)
  have ok1: "phone_client h c1" using ok by (auto simp: c1_def phone_client_def reach_def)
  have ok2: "phone_client h c2" "r = Done \<longrightarrow> \<not> flv_hdr_sent c2 \<longrightarrow> h \<noteq> [] \<longrightarrow> off = length (p_flv_header s)"
    using phone_replay [OF hdr ok1 rep] by (auto simp: c2_def c1_def)
  have f: "c_fd c2 = c_fd c" "c_fd c3 = c_fd c" "cursor c2 = cursor c" "cursor c \<le> cursor c3" "flv_hdr_off c2 = off"
    by (simp_all add: c1_def c2_def c3_def)
  show ?thesis
  proof (cases "k \<and> r = Done")
    case True
    have "phone_client h c3 \<and> (flv_hdr_sent c3 \<or> h = [])"
      using ok2 True hdr f by (auto simp: c3_def phone_client_def reach_def header_cache_size_def)
    moreover have "in_window s h c3" using win f(4) by (simp add: in_window_def)
    ultimately show ?thesis using phone_live_step [OF rel, of c3 rs2 b c'] True d unfold f by simp
  next
    case False
    then show ?thesis using d unfold ok ok2 f by (cases r) (auto split: if_splits)
  qed
qed

subsection \<open>One message\<close>

definition p_active :: "'a p2p_stream \<Rightarrow> 'a http_client list" where
  "p_active s = take (p_n_clients s) (p_clients s)"

definition phone_ok :: "'a p2p_stream \<Rightarrow> 'a list \<Rightarrow> bool" where
  "phone_ok s h \<longleftrightarrow> ring_rel (view s) h \<and> p_flv_header s = take header_cache_size h
     \<and> length (p_clients s) = p2p_max_http_clients \<and> p_n_clients s \<le> p2p_max_http_clients
     \<and> (\<forall>c \<in> set (p_active s). 0 \<le> c_fd c)"

lemma p2p_drain_fd: "p2p_drain_client rs s c = (b, c') \<Longrightarrow> c_fd c' = c_fd c"
  by (auto simp: p2p_drain_client_def Let_def live_step_def split: prod.splits if_splits drain_outcome.splits)

definition drained_from :: "'a p2p_stream \<Rightarrow> 'a http_client list \<Rightarrow> 'a http_client \<Rightarrow> bool" where
  "drained_from s cs c' \<longleftrightarrow> (\<exists>rs. \<exists>c \<in> set cs. p2p_drain_client rs s c = (True, c'))"

lemma drained_from_Cons:
  "p2p_drain_client rs s c = (True, c') \<Longrightarrow> drained_from s (c # cs) c'" "drained_from s cs c' \<Longrightarrow> drained_from s (c # cs) c'"
  by (auto simp: drained_from_def)

lemma p2p_drain_list_spec:
  assumes "p2p_drain_list s rss cs = (shut, cs')" "\<forall>c \<in> set cs. 0 \<le> c_fd c"
  shows "length cs' = length cs \<and> mset (map c_fd cs) = mset shut + mset (map c_fd (filter alive cs'))
    \<and> (\<forall>c' \<in> set (filter alive cs'). drained_from s cs c')"
  using assms
proof (induction s rss cs arbitrary: shut cs' rule: p2p_drain_list.induct)
  case (2 s rss c cs)
  obtain cl cs2 where rec: "p2p_drain_list s (tl rss) cs = (cl, cs2)" by fastforce
  define rs where "rs = (case rss of [] \<Rightarrow> [] | r # _ \<Rightarrow> r)"
  obtain b c' where d: "p2p_drain_client rs s c = (b, c')" by fastforce
  have IH: "length cs2 = length cs \<and> mset (map c_fd cs) = mset cl + mset (map c_fd (filter alive cs2))
    \<and> (\<forall>c' \<in> set (filter alive cs2). drained_from s cs c')"
    using "2.IH" rec "2.prems"(2) by simp
  have "shut = (if b then cl else c_fd c # cl) \<and> cs' = (if b then c' else c'\<lparr>c_fd := -1\<rparr>) # cs2"
    using "2.prems" rec d by (auto simp: rs_def [symmetric])
  moreover have "alive c'" "\<not> alive (c'\<lparr>c_fd := -1\<rparr>)" using p2p_drain_fd [OF d] "2.prems"(2) by (simp_all add: alive_def)
  ultimately show ?case using IH d p2p_drain_fd [OF d]
    by (cases b) (auto simp del: mset_map intro: drained_from_Cons)
qed simp

lemma p2p_prune_spec:
  assumes "p_n_clients s \<le> length (p_clients s)"
  shows "p_active (p2p_prune s) = filter alive (p_active s) \<and> p_n_clients (p2p_prune s) = length (filter alive (p_active s))
    \<and> length (p_clients (p2p_prune s)) = length (p_clients s) \<and> p_buf (p2p_prune s) = p_buf s
    \<and> p_total_bytes (p2p_prune s) = p_total_bytes s \<and> p_flv_header (p2p_prune s) = p_flv_header s"
proof -
  obtain j cs where m: "compact_move 0 0 (p_n_clients s) (p_clients s) = (j, cs)" by fastforce
  then have j: "j \<le> p_n_clients s" "length cs = length (p_clients s)" "take j cs = filter alive (take (p_n_clients s) (p_clients s))"
    using compact_move_spec [of 0 0 "p_n_clients s" "p_clients s" "p_clients s"] assms by auto
  then have len: "length (filter alive (take (p_n_clients s) (p_clients s))) = j"
    using assms by (metis length_take min.absorb2 le_trans)
  show ?thesis using m j len assms by (simp add: p2p_prune_def p_active_def Let_def)
qed

lemma p2p_cache_frame [simp]:
  "p_buf (p2p_cache_header s d) = p_buf s" "p_total_bytes (p2p_cache_header s d) = p_total_bytes s"
  "p_clients (p2p_cache_header s d) = p_clients s" "p_n_clients (p2p_cache_header s d) = p_n_clients s"
  by (simp_all add: p2p_cache_header_def)

lemma p2p_write_frame [simp]:
  "p_clients (p2p_ring_write s d) = p_clients s" "p_n_clients (p2p_ring_write s d) = p_n_clients s"
  "p_flv_header (p2p_ring_write s d) = p_flv_header s"
  by (simp_all add: p2p_ring_write_def Let_def)

lemma p2p_cache_eq:
  "p_flv_header s = take header_cache_size h \<Longrightarrow> p_flv_header (p2p_cache_header s d) = take header_cache_size (h @ d)"
  by (auto simp: p2p_cache_header_def min_def)

lemma view_rel_cong: "p_buf s = p_buf s' \<Longrightarrow> p_total_bytes s = p_total_bytes s' \<Longrightarrow> ring_rel (view s) h = ring_rel (view s') h"
  by (rule ring_rel_cong) simp_all

text \<open>A message keeps the stream well-formed, accounts for every socket, and extends the clients in the window.\<close>

lemma p2p_message_step:
  assumes ok: "phone_ok s h" and len: "length d \<le> length (p_buf s)" and m: "p2p_message s d rss = (shut, s')"
  shows "phone_ok s' (h @ d) \<and> length (p_buf s') = length (p_buf s)
    \<and> mset (map c_fd (p_active s)) = mset shut + mset (map c_fd (p_active s'))
    \<and> (\<forall>c' \<in> set (p_active s'). \<exists>c \<in> set (p_active s). c_fd c = c_fd c'
         \<and> (phone_client h c \<and> in_window s (h @ d) c \<longrightarrow> phone_client (h @ d) c'))"
proof -
  define s1 where "s1 = p2p_ring_write (p2p_cache_header s d) d"
  have fr: "p_clients s1 = p_clients s" "p_n_clients s1 = p_n_clients s" by (simp_all add: s1_def)
  have act1: "p_active s1 = p_active s" by (simp add: p_active_def fr)
  obtain cl cs where dl: "p2p_drain_list s1 rss (p_active s) = (cl, cs)" by fastforce
  define s2 where "s2 = s1\<lparr>p_clients := cs @ drop (p_n_clients s1) (p_clients s1)\<rparr>"
  have r: "shut = cl" "s' = p2p_prune s2"
    using m dl act1 by (simp_all add: p2p_message_def s1_def [symmetric] s2_def p_active_def Let_def)
  have r0: "ring_rel (view (p2p_cache_header s d)) h"
    using ok view_rel_cong [of "p2p_cache_header s d" s] by (simp add: phone_ok_def)
  have rel1: "ring_rel (view s1) (h @ d)" and cap1: "length (p_buf s1) = length (p_buf s)"
    using phone_ring.write_log [OF r0, of d] phone_ring.write_cap [OF r0, of d] len by (simp_all add: s1_def)
  have hdr1: "p_flv_header s1 = take header_cache_size (h @ d)"
    using ok p2p_cache_eq [of s h d] by (simp add: s1_def phone_ok_def)
  have fd: "\<forall>c \<in> set (p_active s). 0 \<le> c_fd c" and bnd: "p_n_clients s \<le> length (p_clients s)" "length (p_clients s) = p2p_max_http_clients"
    using ok by (simp_all add: phone_ok_def)
  note dr = p2p_drain_list_spec [OF dl fd]
  have l: "length cs = p_n_clients s" using dr bnd by (simp add: p_active_def)
  then have act2: "p_active s2 = cs" "p_n_clients s2 = p_n_clients s" "length (p_clients s2) = p2p_max_http_clients"
    using bnd by (simp_all add: s2_def p_active_def fr)
  have pr: "p_active s' = filter alive cs" "p_n_clients s' = length (filter alive cs)" "length (p_clients s') = p2p_max_http_clients"
    "p_buf s' = p_buf s1" "p_total_bytes s' = p_total_bytes s1" "p_flv_header s' = p_flv_header s1"
    using p2p_prune_spec [of s2] act2 bnd unfolding r by (simp_all add: s2_def)
  have "length (filter alive cs) \<le> p2p_max_http_clients" using length_filter_le [of alive cs] l bnd by simp
  then have "phone_ok s' (h @ d)"
    using view_rel_cong [OF pr(4,5)] rel1 hdr1 pr by (auto simp: phone_ok_def alive_def)
  moreover have "\<exists>c \<in> set (p_active s). c_fd c = c_fd c' \<and> (phone_client h c \<and> in_window s (h @ d) c \<longrightarrow> phone_client (h @ d) c')"
    if c': "c' \<in> set (p_active s')" for c'
  proof -
    obtain rs c where c: "c \<in> set (p_active s)" "p2p_drain_client rs s1 c = (True, c')" using c' dr pr(1) by (auto simp: drained_from_def)
    have "phone_client (h @ d) c'" if "phone_client h c" "in_window s (h @ d) c"
      using phone_drain [OF rel1 hdr1 _ _ c(2)] phone_client_more [OF that(1)] that(2) cap1 by (simp add: in_window_def)
    then show ?thesis using c(1) p2p_drain_fd [OF c(2)] by auto
  qed
  ultimately show ?thesis using dr pr(1,4) cap1 r(1) by simp
qed

subsection \<open>Joining and leaving\<close>

lemma p2p_install_step:
  assumes ok: "phone_ok s h" and cli: "0 \<le> cli" and j: "p2p_install s cli = (b, s')"
  shows "phone_ok s' h \<and> p_buf s' = p_buf s \<and> map c_fd (p_active s') = map c_fd (p_active s) @ (if b then [cli] else [])
    \<and> (\<forall>c \<in> set (p_active s'). c \<in> set (p_active s) \<or> phone_client h c)"
proof (cases "p_n_clients s \<ge> p2p_max_http_clients")
  case True
  then show ?thesis using ok j by (simp add: p2p_install_def)
next
  case False
  define c where "c = \<lparr>c_fd = cli, cursor = length (p_flv_header s), header_sent = False, flv_hdr_sent = False,
    flv_hdr_off = 0, got = [] :: 'a list, joined = length (p_flv_header s)\<rparr>"
  have s': "b" "s' = s\<lparr>p_clients := (p_clients s)[p_n_clients s := c], p_n_clients := p_n_clients s + 1\<rparr>"
    using j False by (simp_all add: p2p_install_def c_def)
  have "p_n_clients s < length (p_clients s)" using ok False by (simp add: phone_ok_def)
  then have act: "p_active s' = p_active s @ [c]" by (simp add: s' p_active_def take_Suc_conv_app_nth)
  have "phone_client h c" using ok by (auto simp: c_def phone_client_def reach_def phone_ok_def)
  moreover have "view s' = (view s)\<lparr>clients := p_clients s', n_clients := p_n_clients s'\<rparr>" by (simp add: view_def s')
  then have "ring_rel (view s') h = ring_rel (view s) h" by (simp add: ring_rel_def byte_at_def)
  ultimately show ?thesis using ok cli act s' False by (auto simp: phone_ok_def c_def)
qed

lemma p2p_end_step:
  assumes ok: "phone_ok s h" and e: "p2p_end s = (shut, s')"
  shows "phone_ok s' h \<and> p_buf s' = p_buf s \<and> p_active s' = [] \<and> shut = map c_fd (p_active s)"
proof -
  have "filter (\<lambda>c. 0 \<le> c_fd c) (p_active s) = p_active s" using ok by (simp add: phone_ok_def)
  moreover have "ring_rel (view s') h = ring_rel (view s) h" using e by (intro view_rel_cong) (auto simp: p2p_end_def Let_def)
  ultimately show ?thesis using ok e by (auto simp: p2p_end_def Let_def p_active_def phone_ok_def)
qed

subsection \<open>Runs\<close>

text \<open>The critical sections of the receiving thread and of the handshake threads, in the order they take the mutex.\<close>

datatype 'a phone_event = PhMessage "'a list" "send_res list list" | PhJoin int | PhEnd

record 'a phone_fan =
  ph_strm :: "'a p2p_stream"
  ph_hist :: "'a list"
  ph_opened :: "int list"
  ph_closed :: "int list"

definition phone_init :: "'a list \<Rightarrow> 'a phone_fan" where
  "phone_init mem = \<lparr>ph_strm = p2p_stream_init mem, ph_hist = [], ph_opened = [], ph_closed = []\<rparr>"

primrec phone_step :: "'a phone_event \<Rightarrow> 'a phone_fan \<Rightarrow> 'a phone_fan" where
  "phone_step (PhMessage d rss) f =
     (let (cl, s) = p2p_message (ph_strm f) d rss
      in f\<lparr>ph_strm := s, ph_hist := ph_hist f @ d, ph_closed := ph_closed f @ cl\<rparr>)"
| "phone_step (PhJoin cli) f =
     (let (ok, s) = p2p_install (ph_strm f) cli
      in f\<lparr>ph_strm := s, ph_opened := ph_opened f @ [cli],
           ph_closed := (if ok then ph_closed f else ph_closed f @ [cli])\<rparr>)"
| "phone_step PhEnd f = (let (cl, s) = p2p_end (ph_strm f) in f\<lparr>ph_strm := s, ph_closed := ph_closed f @ cl\<rparr>)"

primrec phone_run :: "'a phone_event list \<Rightarrow> 'a phone_fan \<Rightarrow> 'a phone_fan" where
  "phone_run [] f = f"
| "phone_run (e # es) f = phone_run es (phone_step e f)"

primrec phone_legal :: "'a phone_event \<Rightarrow> bool" where
  "phone_legal (PhMessage d rss) \<longleftrightarrow> length d \<le> recv_buf_size"
| "phone_legal (PhJoin cli) \<longleftrightarrow> 0 \<le> cli"
| "phone_legal PhEnd \<longleftrightarrow> True"

text \<open>At every message the client on descriptor \<open>fd\<close> is no further behind than the ring is long; the others may be anywhere.\<close>

primrec keeps_up :: "int \<Rightarrow> 'a phone_event list \<Rightarrow> 'a phone_fan \<Rightarrow> bool" where
  "keeps_up fd [] f \<longleftrightarrow> True"
| "keeps_up fd (e # es) f \<longleftrightarrow>
     (case e of PhMessage d rss \<Rightarrow> \<forall>c \<in> set (p_active (ph_strm f)). c_fd c = fd \<longrightarrow> in_window (ph_strm f) (ph_hist f @ d) c | _ \<Rightarrow> True)
     \<and> keeps_up fd es (phone_step e f)"

definition phone_inv :: "'a phone_fan \<Rightarrow> bool" where
  "phone_inv f \<longleftrightarrow> phone_ok (ph_strm f) (ph_hist f) \<and> recv_buf_size \<le> length (p_buf (ph_strm f))
     \<and> mset (ph_opened f) = mset (ph_closed f) + mset (map c_fd (p_active (ph_strm f)))"

definition phone_fed :: "int \<Rightarrow> 'a phone_fan \<Rightarrow> bool" where
  "phone_fed fd f \<longleftrightarrow> (\<forall>c \<in> set (p_active (ph_strm f)). c_fd c = fd \<longrightarrow> phone_client (ph_hist f) c)"

lemma phone_init_inv: "recv_buf_size \<le> length mem \<Longrightarrow> phone_inv (phone_init mem) \<and> phone_fed fd (phone_init mem)"
  by (auto simp: phone_inv_def phone_fed_def phone_init_def p2p_stream_init_def phone_ok_def ring_rel_def p_active_def recv_buf_size_def)

lemma phone_step_inv:
  assumes "phone_inv f" "phone_legal e"
  shows "phone_inv (phone_step e f) \<and> (keeps_up fd [e] f \<longrightarrow> phone_fed fd f \<longrightarrow> phone_fed fd (phone_step e f))"
proof (cases e)
  case (PhMessage d rss)
  obtain cl s where m: "p2p_message (ph_strm f) d rss = (cl, s)" by fastforce
  have "length d \<le> length (p_buf (ph_strm f))" using assms PhMessage by (simp add: phone_inv_def)
  note st = p2p_message_step [OF _ this m, of "ph_hist f"]
  have "phone_inv (phone_step e f)" using st assms(1) by (auto simp: phone_inv_def PhMessage m simp del: mset_map)
  moreover have "phone_fed fd (phone_step e f)" if "keeps_up fd [e] f" "phone_fed fd f"
    unfolding phone_fed_def
  proof (intro ballI impI)
    fix c' assume c': "c' \<in> set (p_active (ph_strm (phone_step e f)))" "c_fd c' = fd"
    then obtain c where "c \<in> set (p_active (ph_strm f))" "c_fd c = fd"
      "phone_client (ph_hist f) c \<and> in_window (ph_strm f) (ph_hist f @ d) c \<longrightarrow> phone_client (ph_hist f @ d) c'"
      using st assms(1) by (auto simp: phone_inv_def PhMessage m)
    then show "phone_client (ph_hist (phone_step e f)) c'" using that by (simp add: phone_fed_def PhMessage m)
  qed
  ultimately show ?thesis by blast
next
  case (PhJoin cli)
  obtain b s where j: "p2p_install (ph_strm f) cli = (b, s)" by fastforce
  show ?thesis using p2p_install_step [OF _ _ j, of "ph_hist f"] assms
    by (auto simp: phone_inv_def phone_fed_def PhJoin j simp del: mset_map)
next
  case PhEnd
  obtain cl s where e: "p2p_end (ph_strm f) = (cl, s)" by fastforce
  show ?thesis using p2p_end_step [OF _ e, of "ph_hist f"] assms(1)
    by (auto simp: phone_inv_def phone_fed_def PhEnd e simp del: mset_map)
qed

lemma phone_run_inv:
  "phone_inv f \<Longrightarrow> \<forall>e \<in> set es. phone_legal e
    \<Longrightarrow> phone_inv (phone_run es f) \<and> (keeps_up fd es f \<longrightarrow> phone_fed fd f \<longrightarrow> phone_fed fd (phone_run es f))"
proof (induction es arbitrary: f)
  case (Cons e es)
  then show ?case using phone_step_inv [of f e fd] Cons.IH [of "phone_step e f"] by simp
qed simp

lemma phone_run_cap:
  "phone_inv f \<Longrightarrow> \<forall>e \<in> set es. phone_legal e \<Longrightarrow> length (p_buf (ph_strm (phone_run es f))) = length (p_buf (ph_strm f))"
proof (induction es arbitrary: f)
  case (Cons e es)
  have "length (p_buf (ph_strm (phone_step e f))) = length (p_buf (ph_strm f))"
  proof (cases e)
    case (PhMessage d rss)
    obtain cl s where m: "p2p_message (ph_strm f) d rss = (cl, s)" by fastforce
    have "length d \<le> length (p_buf (ph_strm f))" using Cons.prems PhMessage by (simp add: phone_inv_def)
    then show ?thesis using p2p_message_step [OF _ _ m, of "ph_hist f"] Cons.prems(1) by (simp add: phone_inv_def PhMessage m)
  qed (auto simp: p2p_install_def p2p_end_def Let_def)
  then show ?case using Cons.IH [of "phone_step e f"] phone_step_inv [of f e] Cons.prems by simp
qed simp

subsection \<open>Properties\<close>

definition phone_demo_events :: "nat phone_event list" where
  "phone_demo_events = [PhJoin 5, PhMessage [7, 8] [[Sent 1000, Sent 1, Sent 9]]]"

definition phone_demo :: "nat phone_fan" where
  "phone_demo = phone_run phone_demo_events (phone_init (replicate 2048 0))"

lemma p2p_hdr_len: "length P2P_FLV_HDR = 122"
  by (simp add: P2P_FLV_HDR_def crlf_def)

lemma replicate_4: "replicate 4 x = [x, x, x, x]"
  by (simp add: numeral_eq_Suc)

lemmas phone_demo_simps = phone_demo_events_def phone_init_def p2p_stream_init_def p2p_install_def p2p_message_def p2p_cache_header_def
  p2p_ring_write_def p2p_drain_client_def p2p_http_step_def replay_step_def live_step_def p2p_prune_def compact_move.simps
  p_active_def p2p_max_http_clients_def empty_client_def chunk_len_def p2p_hdr_len replicate_4 view_def srt_invalid_sock_def header_cache_size_def

lemma phone_demo_run: "ph_hist phone_demo = [7, 8] \<and> keeps_up 5 phone_demo_events (phone_init (replicate 2048 0))
   \<and> map c_fd (p_active (ph_strm phone_demo)) = [5] \<and> map got (p_active (ph_strm phone_demo)) = [[7, 8]]"
  by (simp add: phone_demo_def phone_demo_simps in_window_def Let_def)

lemma phone_demo_empty: "p_active (ph_strm (phone_init (replicate 2048 (0 :: nat)))) = []"
  by (simp add: phone_init_def p2p_stream_init_def p_active_def)

lemma phone_demo_legal: "\<forall>e \<in> set phone_demo_events. phone_legal e" "recv_buf_size \<le> length (replicate 2048 (0 :: nat))"
  by (simp_all add: phone_demo_events_def recv_buf_size_def)

lemma phone_run_append: "phone_run (es @ es') f = phone_run es' (phone_run es f)"
  by (induction es arbitrary: f) simp_all

text \<open>
  C12. A local player that, from a time before it joined on, is at no message further behind than the ring is long
  has received exactly a prefix of the camera's stream: no byte is lost, repeated or out of order,
  whenever it joined and however far the other players are behind.  SRT messages are at most 2,048 bytes,
  the ring is no shorter.
\<close>

theorem phone_viewer_gets_prefix:
  assumes "recv_buf_size \<le> length mem" "\<forall>e \<in> set (pre @ post). phone_legal e"
    "\<forall>x \<in> set (p_active (ph_strm (phone_run pre (phone_init mem)))). c_fd x \<noteq> c_fd c"
    "keeps_up (c_fd c) post (phone_run pre (phone_init mem))"
    "c \<in> set (p_active (ph_strm (phone_run (pre @ post) (phone_init mem))))"
  shows "got c = take (if flv_hdr_sent c then cursor c else flv_hdr_off c) (ph_hist (phone_run (pre @ post) (phone_init mem)))"
proof -
  let ?f = "phone_run pre (phone_init mem)"
  have i0: "phone_inv (phone_init mem)" using phone_init_inv [OF assms(1)] by (rule conjunct1)
  have i: "phone_inv ?f" using phone_run_inv [OF i0] assms(2) by simp
  have "phone_fed (c_fd c) ?f" using assms(3) by (auto simp: phone_fed_def)
  then have "phone_fed (c_fd c) (phone_run post ?f)" using phone_run_inv [OF i] assms(2,4) by simp
  then have "phone_client (ph_hist (phone_run (pre @ post) (phone_init mem))) c"
    using assms(5) unfolding phone_fed_def phone_run_append by blast
  then show ?thesis by (simp only: phone_client_def reach_def)
qed

theorem phone_viewer_gets_prefix_witness:
  "\<exists>c. c \<in> set (p_active (ph_strm phone_demo)) \<and> got c = take (if flv_hdr_sent c then cursor c else flv_hdr_off c) [7, 8]"
proof -
  obtain c where "c \<in> set (p_active (ph_strm phone_demo))" "c_fd c = 5"
    using phone_demo_run by (cases "p_active (ph_strm phone_demo)") auto
  moreover have "keeps_up 5 phone_demo_events (phone_init (replicate 2048 0))" "ph_hist phone_demo = [7, 8]"
    using phone_demo_run by blast+
  ultimately show ?thesis
    using phone_viewer_gets_prefix [OF phone_demo_legal(2), of "[]" phone_demo_events, unfolded append_Nil, OF phone_demo_legal(1), folded phone_demo_def]
    by (metis empty_iff list.set(1) phone_demo_empty phone_run.simps(1))
qed

text \<open>
  Every local connection handed to the fan-out is closed once or still held, through every mixture of
  messages, arrivals beyond the four slots and the end of the session; the end closes all of them.
\<close>

theorem phone_sockets_accounted:
  assumes "recv_buf_size \<le> length mem" "\<forall>e \<in> set evs. phone_legal e"
  shows "mset (ph_opened (phone_run evs (phone_init mem)))
      = mset (ph_closed (phone_run evs (phone_init mem))) + mset (map c_fd (p_active (ph_strm (phone_run evs (phone_init mem)))))
    \<and> p_active (ph_strm (phone_step PhEnd (phone_run evs (phone_init mem)))) = []"
proof -
  have i: "phone_inv (phone_run evs (phone_init mem))" using phone_run_inv phone_init_inv [OF assms(1)] assms(2) by blast
  obtain cl s where e: "p2p_end (ph_strm (phone_run evs (phone_init mem))) = (cl, s)" by fastforce
  show ?thesis using i p2p_end_step [OF _ e] e by (auto simp: phone_inv_def simp del: mset_map)
qed

theorem phone_sockets_accounted_witness:
  "mset (ph_opened phone_demo) = mset (ph_closed phone_demo) + mset (map c_fd (p_active (ph_strm phone_demo)))
   \<and> map c_fd (p_active (ph_strm phone_demo)) = [5]"
  using phone_sockets_accounted [OF phone_demo_legal(2,1), folded phone_demo_def] phone_demo_run by blast

text \<open>Which byte of the stream a ring position holds: the latest one that was written there.\<close>

lemma byte_at_latest:
  assumes "ring_rel s h" "i < length h"
  shows "byte_at s i = h ! (i + scap s * ((length h - 1 - i) div scap s))"
proof -
  define k where "k = (length h - 1 - i) div scap s"
  have c: "0 < scap s" using assms(1) by (simp add: ring_rel_def)
  have "scap s * k \<le> length h - 1 - i" by (simp add: k_def)
  then have j: "i + scap s * k < length h" using assms(2) by simp
  have "length h - 1 - i < scap s * k + scap s" unfolding k_def using c
    by (metis add.commute mult.commute mult_div_mod_eq nat_add_left_cancel_less mod_less_divisor)
  then have "byte_at s (i + scap s * k) = h ! (i + scap s * k)"
    using assms j by (simp add: ring_rel_def)
  moreover have "byte_at s (i + scap s * k) = byte_at s i" by (simp add: byte_at_def)
  ultimately show ?thesis by (simp add: k_def)
qed

text \<open>What a client that has just joined gets from one drain whose socket takes everything.\<close>

lemma late_drain:
  assumes "ring_rel (view s) h" "p_flv_header s = take header_cache_size h" "header_cache_size < length h"
    "cursor c = header_cache_size" "\<not> flv_hdr_sent c" "flv_hdr_off c = 0" "got c = []"
    "\<forall>r \<in> set rs0. \<exists>k. r = Sent k" "length P2P_FLV_HDR + header_cache_size + length h \<le> length rs0"
    "p2p_drain_client rs0 s c = (b, c')"
  shows "b \<and> got c' = take header_cache_size h
      @ map (\<lambda>i. h ! (i + length (p_buf s) * ((length h - 1 - i) div length (p_buf s)))) [header_cache_size..<length h]"
proof -
  note rel = assms(1) and hdr = assms(2)
  have hl: "length (p_flv_header s) = header_cache_size" "p_flv_header s \<noteq> []"
    using assms(2,3) by (auto simp: header_cache_size_def)
  obtain rs where http: "p2p_http_step rs0 c = (True, rs)" and sub: "set rs \<subseteq> set rs0" and len: "header_cache_size + length h \<le> length rs"
    using write_all_all [OF assms(8), of "length P2P_FLV_HDR"] assms(9) by (cases "header_sent c") (auto simp: p2p_http_step_def)
  have rs: "\<forall>r \<in> set rs. \<exists>k. r = Sent k" using assms(8) sub by blast
  obtain r off out rs2 where rep: "replay_step rs (view s) (c\<lparr>header_sent := True\<rparr>) = (r, off, out, rs2)"
    by (cases "replay_step rs (view s) (c\<lparr>header_sent := True\<rparr>)") auto
  then have rl: "replay_loop rs (p_flv_header s) 0 = (r, off, out, rs2)" using assms(5,6) hl(2) by (simp add: replay_step_def)
  have l1: "length (p_flv_header s) - 0 \<le> length rs" using len hl(1) by simp
  have a: "r = Done \<and> set rs2 \<subseteq> set rs \<and> length rs \<le> length rs2 + (length (p_flv_header s) - 0)"
    by (rule replay_loop_all [OF rs l1 rl])
  have o': "off = header_cache_size" "out = take header_cache_size h"
    using replay_loop_slice [OF rl] a hl hdr by simp_all
  obtain r3 cur out3 where l: "data_loop rs2 (view s) header_cache_size = (r3, cur, out3)"
    by (cases "data_loop rs2 (view s) header_cache_size") auto
  have t: "0 < scap (view s)" "total_bytes (view s) = length h" using rel by (simp_all add: ring_rel_def)
  have "r3 = Done" using data_loop_all [OF t(1), of rs2 header_cache_size] a assms(3) rs len hl(1) l t(2) by (auto simp: subset_iff)
  then have d: "cur = length h" "out3 = map (byte_at (view s)) [header_cache_size..<length h]"
    using data_loop_bytes [OF t(1) _ l] t(2) assms(3) by simp_all
  have "out3 = map (\<lambda>i. h ! (i + length (p_buf s) * ((length h - 1 - i) div length (p_buf s)))) [header_cache_size..<length h]"
    unfolding d(2) using byte_at_latest [OF rel] by simp
  then show ?thesis
    using assms(4,5,7,10) http rep a o' l \<open>r3 = Done\<close> hl by (auto simp: p2p_drain_client_def live_step_def Let_def)
qed

text \<open>The client at the end of the table is drained over the last of the answers.\<close>

lemma p2p_drain_list_last:
  "length rss = length cs \<Longrightarrow> p2p_drain_list s (rss @ [rs]) (cs @ [c]) = (shut, cs') \<Longrightarrow> 0 \<le> c_fd c
    \<Longrightarrow> p2p_drain_client rs s c = (True, c') \<Longrightarrow> c' \<in> set cs'"
proof (induction cs arbitrary: rss shut cs')
  case Nil
  then show ?case by auto
next
  case (Cons x cs)
  then obtain r rss' where r: "rss = r # rss'" "length rss' = length cs" by (cases rss) auto
  obtain sh cs2 where rec: "p2p_drain_list s (rss' @ [rs]) (cs @ [c]) = (sh, cs2)" by fastforce
  have "c' \<in> set cs2" by (rule Cons.IH [OF r(2) rec Cons.prems(3,4)])
  then show ?case using Cons.prems(2) rec r by (auto split: if_splits prod.splits)
qed

lemma late_join:
  assumes ok: "phone_ok s h" and room: "p_n_clients s < p2p_max_http_clients" and cli: "0 \<le> cli"
    and d: "length d \<le> length (p_buf s)" and long: "header_cache_size < length h" and n: "length rss = p_n_clients s"
    and rs: "\<forall>r \<in> set rs. \<exists>k. r = Sent k" "length P2P_FLV_HDR + header_cache_size + length (h @ d) \<le> length rs"
    and m: "p2p_message (snd (p2p_install s cli)) d (rss @ [rs]) = (shut, s')"
  shows "\<exists>c \<in> set (p_active s'). c_fd c = cli \<and> got c = take header_cache_size h
      @ map (\<lambda>i. (h @ d) ! (i + length (p_buf s) * ((length (h @ d) - 1 - i) div length (p_buf s)))) [header_cache_size..<length (h @ d)]"
proof -
  let ?n = "p_n_clients s"
  have hl: "length (p_flv_header s) = header_cache_size" using ok long by (simp add: phone_ok_def)
  define c where "c = \<lparr>c_fd = cli, cursor = header_cache_size, header_sent = False, flv_hdr_sent = False,
    flv_hdr_off = 0, got = [] :: 'a list, joined = header_cache_size\<rparr>"
  define s1 where "s1 = s\<lparr>p_clients := (p_clients s)[?n := c], p_n_clients := ?n + 1\<rparr>"
  have i: "p2p_install s cli = (True, s1)" using room by (simp add: p2p_install_def s1_def c_def hl)
  have ok1: "phone_ok s1 h" "p_buf s1 = p_buf s" using p2p_install_step [OF ok cli i] by simp_all
  have len: "?n < length (p_clients s)" using ok room by (simp add: phone_ok_def)
  then have act1: "p_active s1 = p_active s @ [c]" by (simp add: s1_def p_active_def take_Suc_conv_app_nth)
  define s2 where "s2 = p2p_ring_write (p2p_cache_header s1 d) d"
  have act2: "p_active s2 = p_active s1" "p_clients s2 = p_clients s1" "p_n_clients s2 = p_n_clients s1" by (simp_all add: s2_def p_active_def)
  have r0: "ring_rel (view (p2p_cache_header s1 d)) h"
    using ok1 view_rel_cong [of "p2p_cache_header s1 d" s1] by (simp add: phone_ok_def)
  have rel2: "ring_rel (view s2) (h @ d)" and cap2: "length (p_buf s2) = length (p_buf s)"
    using phone_ring.write_log [OF r0, of d] phone_ring.write_cap [OF r0, of d] d ok1(2) by (simp_all add: s2_def)
  have hdr2: "p_flv_header s2 = take header_cache_size (h @ d)"
    using ok1 p2p_cache_eq [of s1 h d] by (simp add: s2_def phone_ok_def)
  obtain b c' where dr: "p2p_drain_client rs s2 c = (b, c')" by fastforce
  have g: "b" "got c' = take header_cache_size (h @ d)
      @ map (\<lambda>i. (h @ d) ! (i + length (p_buf s2) * ((length (h @ d) - 1 - i) div length (p_buf s2)))) [header_cache_size..<length (h @ d)]"
    using late_drain [OF rel2 hdr2 _ _ _ _ _ rs dr] long by (simp_all add: c_def)
  have fd: "c_fd c' = cli" using p2p_drain_fd [OF dr] by (simp add: c_def)
  obtain sh cs where dl: "p2p_drain_list s2 (rss @ [rs]) (p_active s @ [c]) = (sh, cs)" by fastforce
  have mem: "c' \<in> set cs"
    by (rule p2p_drain_list_last [OF _ dl]) (use n len dr g(1) cli in \<open>simp_all add: p_active_def c_def\<close>)
  have "\<forall>x \<in> set (p_active s @ [c]). 0 \<le> c_fd x" using ok cli by (auto simp: phone_ok_def c_def)
  then have lcs: "length cs = Suc ?n" using p2p_drain_list_spec [OF dl] len by (simp add: p_active_def)
  define s3 where "s3 = s2\<lparr>p_clients := cs @ drop (p_n_clients s2) (p_clients s2)\<rparr>"
  have n2: "p_n_clients s2 = Suc ?n" "length (p_clients s2) = length (p_clients s)" using act2 by (simp_all add: s1_def)
  have s': "s' = p2p_prune s3"
    using m i dl act1 act2(1) by (simp add: p2p_message_def s2_def [symmetric] s3_def p_active_def Let_def)
  have "p_active s3 = cs" "p_n_clients s3 \<le> length (p_clients s3)" using lcs n2 len by (simp_all add: s3_def p_active_def)
  then have "c' \<in> set (p_active s')" using p2p_prune_spec [of s3] mem fd cli by (simp add: s' alive_def)
  then show ?thesis using fd g(2) long cap2 by (intro bexI [of _ c']) simp_all
qed

text \<open>
  C40. A player that takes a free slot after more than a ring's length beyond the cached prefix has gone by, and
  whose socket takes the data, is not given the newest part: with the next message it is sent the cached prefix and then every position from there to
  the end as the ring holds it, that is, for each old position, the first one included, the byte that has
  since overwritten it.  The stream it gets is out of order and repeats itself; the check that the cloud
  consumer makes for this is missing.
\<close>

theorem phone_late_viewer_misread:
  assumes "recv_buf_size \<le> length mem" "\<forall>e \<in> set evs. phone_legal e" "f = phone_run evs (phone_init mem)" "h = ph_hist f @ d"
    "header_cache_size + length mem < length (ph_hist f)" "p_n_clients (ph_strm f) < p2p_max_http_clients" "0 \<le> cli"
    "length d \<le> recv_buf_size" "length rss = p_n_clients (ph_strm f)"
    "\<forall>r \<in> set rs. \<exists>k. r = Sent k" "length P2P_FLV_HDR + header_cache_size + length h \<le> length rs"
  shows "0 < (length h - 1 - header_cache_size) div length mem
    \<and> (\<exists>c \<in> set (p_active (ph_strm (phone_run [PhJoin cli, PhMessage d (rss @ [rs])] f))). c_fd c = cli
      \<and> got c = take header_cache_size h
          @ map (\<lambda>i. h ! (i + length mem * ((length h - 1 - i) div length mem))) [header_cache_size..<length h])"
proof -
  have i0: "phone_inv (phone_init mem)" using phone_init_inv [OF assms(1)] by (rule conjunct1)
  have inv: "phone_inv f" unfolding assms(3) using phone_run_inv [OF i0 assms(2)] by (rule conjunct1)
  have cap: "length (p_buf (ph_strm f)) = length mem"
    unfolding assms(3) phone_run_cap [OF i0 assms(2)] by (simp add: phone_init_def p2p_stream_init_def)
  have ok: "phone_ok (ph_strm f) (ph_hist f)" using inv by (simp add: phone_inv_def)
  have len: "length d \<le> length (p_buf (ph_strm f))" using assms(1,8) cap by simp
  obtain b s1 where i: "p2p_install (ph_strm f) cli = (b, s1)" by fastforce
  obtain shut s' where m: "p2p_message s1 d (rss @ [rs]) = (shut, s')" by fastforce
  have l: "header_cache_size < length (ph_hist f)" using assms(5) by simp
  have m': "p2p_message (snd (p2p_install (ph_strm f) cli)) d (rss @ [rs]) = (shut, s')" using i m by simp
  note c = late_join [OF ok assms(6,7) len l assms(9,10) assms(11) [unfolded assms(4)] m', folded assms(4), unfolded cap]
  have pr: "ph_strm (phone_run [PhJoin cli, PhMessage d (rss @ [rs])] f) = s'" using i m by simp
  have tk: "take header_cache_size h = take header_cache_size (ph_hist f)" using assms(4) l by simp
  have "length mem \<le> length h - 1 - header_cache_size" "0 < length mem"
    using assms(1,4,5) by (auto simp: recv_buf_size_def)
  then have "0 < (length h - 1 - header_cache_size) div length mem" by (simp add: div_greater_zero_iff)
  then show ?thesis unfolding pr tk using c by blast
qed

text \<open>
  A four-megabyte ring, 4,000 full SRT messages before anybody watches, and a player that joins then: its
  prefix is followed by what overwrote the old bytes.
\<close>

lemma idle_message:
  fixes s :: "'a p2p_stream"
  assumes "p_n_clients s = 0"
  shows "p_n_clients (snd (p2p_message s d [])) = 0"
proof -
  have "compact_move 0 0 0 cs = (0, cs)" for cs :: "'a http_client list" by (simp add: compact_move.simps)
  then show ?thesis using assms by (simp add: p2p_message_def p2p_prune_def)
qed

lemma idle_run:
  "p_n_clients (ph_strm f) = 0 \<Longrightarrow> p_n_clients (ph_strm (phone_run (replicate n (PhMessage d [])) f)) = 0
    \<and> length (ph_hist (phone_run (replicate n (PhMessage d [])) f)) = length (ph_hist f) + n * length d"
  by (induction n arbitrary: f) (simp_all add: split_beta idle_message)

definition full_message :: "nat list" where "full_message = replicate 1316 7"
definition empty_ring :: "nat list" where "empty_ring = replicate ring_size 0"

definition unwatched :: "nat phone_fan" where
  "unwatched = phone_run (replicate 4000 (PhMessage full_message [])) (phone_init empty_ring)"

lemma unwatched_state: "p_n_clients (ph_strm unwatched) = 0" "length (ph_hist unwatched) = 4000 * 1316"
  using idle_run [of "phone_init empty_ring" 4000 full_message]
  by (simp_all add: unwatched_def phone_init_def p2p_stream_init_def full_message_def)

lemma nth_after: "length xs = a \<Longrightarrow> a < b \<Longrightarrow> (xs @ map g [a..<b]) ! a = g a"
  by (simp add: nth_append)

theorem phone_late_viewer_misread_witness:
  "\<exists>c \<in> set (p_active (ph_strm (phone_run [PhJoin 5, PhMessage full_message ([] @ [replicate 6000000 (Sent 1)])] unwatched))).
     c_fd c = 5 \<and> got c ! header_cache_size = (ph_hist unwatched @ full_message) ! (header_cache_size + ring_size)"
proof -
  let ?h = "ph_hist unwatched @ full_message" and ?n = "ring_size" and ?rs = "replicate 6000000 (Sent 1)"
  have len: "length ?h = 4001 * 1316" "length empty_ring = ?n" "length full_message = 1316"
    by (simp_all add: unwatched_state full_message_def empty_ring_def)
  have legal: "\<forall>e \<in> set (replicate 4000 (PhMessage full_message [])). phone_legal e"
    by (simp add: full_message_def recv_buf_size_def)
  have mem: "recv_buf_size \<le> length empty_ring" "header_cache_size + length empty_ring < length (ph_hist unwatched)"
    by (simp_all add: len unwatched_state recv_buf_size_def ring_size_def header_cache_size_def)
  have room: "p_n_clients (ph_strm unwatched) < p2p_max_http_clients" "length [] = p_n_clients (ph_strm unwatched)"
    by (simp_all add: unwatched_state p2p_max_http_clients_def)
  have d: "length full_message \<le> recv_buf_size" by (simp add: len recv_buf_size_def)
  have rs: "\<forall>r \<in> set ?rs. \<exists>k. r = Sent k" "length P2P_FLV_HDR + header_cache_size + length ?h \<le> length ?rs"
    by (simp_all add: len(1) p2p_hdr_len header_cache_size_def del: length_append)
  have cli: "0 \<le> (5 :: int)" by simp
  from phone_late_viewer_misread [OF mem(1) legal unwatched_def refl mem(2) room(1) cli d room(2) rs, THEN conjunct2]
  obtain c where c: "c \<in> set (p_active (ph_strm (phone_run [PhJoin 5, PhMessage full_message ([] @ [?rs])] unwatched)))" "c_fd c = 5"
    "got c = take header_cache_size ?h
      @ map (\<lambda>i. ?h ! (i + length empty_ring * ((length ?h - 1 - i) div length empty_ring))) [header_cache_size..<length ?h]"
    by blast
  have "length (take header_cache_size ?h) = header_cache_size" "header_cache_size < length ?h"
    unfolding length_take len(1) by (simp_all add: header_cache_size_def)
  then have "got c ! header_cache_size = ?h ! (header_cache_size + ?n * ((length ?h - 1 - header_cache_size) div ?n))"
    unfolding c(3) len(2) by (rule nth_after)
  moreover have "(length ?h - 1 - header_cache_size) div ?n = 1" unfolding len(1) by (simp add: header_cache_size_def ring_size_def)
  ultimately show ?thesis using c(1,2) by auto
qed

end
