(* ===== verification/SigMsg.thy ===== *)
theory SigMsg
  imports Ctrl "HOL-Library.List_Lexorder" "HOL-Library.Char_ord"
begin

text \<open>
  The data of the signaling server (\<open>signaling_server.cpp\<close>): \<open>std::map\<close> as a list of pairs in key order
  (\<open>std::string\<close> compares as unsigned bytes, which is the order of \<open>char\<close> here), \<open>std::stoi\<close>, the
  message parser and printer, and the configuration file.  A C++ string is an Isabelle \<open>string\<close>, NUL
  included.  An exception that nothing catches is \<open>None\<close>.
\<close>

subsection \<open>Maps in key order\<close>

fun map_put :: "'k::linorder \<Rightarrow> 'v \<Rightarrow> ('k \<times> 'v) list \<Rightarrow> ('k \<times> 'v) list" where
  "map_put k v [] = [(k, v)]"
| "map_put k v ((k', v') # m) =
     (if k < k' then (k, v) # (k', v') # m else if k = k' then (k, v) # m else (k', v') # map_put k v m)"

definition map_erase :: "'k \<Rightarrow> ('k \<times> 'v) list \<Rightarrow> ('k \<times> 'v) list" where
  "map_erase k m = filter (\<lambda>p. fst p \<noteq> k) m"

text \<open>An assignment to members of an existing entry; nothing when there is none.\<close>

definition map_adjust :: "'k \<Rightarrow> ('v \<Rightarrow> 'v) \<Rightarrow> ('k \<times> 'v) list \<Rightarrow> ('k \<times> 'v) list" where
  "map_adjust k f m = map (\<lambda>p. if fst p = k then (fst p, f (snd p)) else p) m"

definition key_order :: "('k::linorder \<times> 'v) list \<Rightarrow> bool" where
  "key_order m \<longleftrightarrow> sorted_wrt (<) (map fst m)"

text \<open>\<open>m[k]\<close> of a map of strings: the empty string when the key is new.\<close>

definition msg_field :: "(string \<times> string) list \<Rightarrow> string \<Rightarrow> string" where
  "msg_field m k = (case map_of m k of None \<Rightarrow> [] | Some v \<Rightarrow> v)"

definition msg_field_or :: "(string \<times> string) list \<Rightarrow> string \<Rightarrow> string \<Rightarrow> string" where
  "msg_field_or m k d = (case map_of m k of None \<Rightarrow> d | Some v \<Rightarrow> v)"

lemma map_of_put [simp]: "map_of (map_put k v m) = (map_of m)(k \<mapsto> v)"
  by (induction k v m rule: map_put.induct) (auto simp: fun_eq_iff)

lemma map_of_erase [simp]: "map_of (map_erase k m) = (map_of m)(k := None)"
  by (induction m) (auto simp: map_erase_def fun_eq_iff)

lemma map_of_adjust [simp]: "map_of (map_adjust k f m) = (\<lambda>x. if x = k then map_option f (map_of m x) else map_of m x)"
  by (induction m) (auto simp: map_adjust_def fun_eq_iff)

lemma set_map_put: "set (map fst (map_put k v m)) = insert k (set (map fst m))"
  by (induction k v m rule: map_put.induct) auto

lemma key_order_put [intro]: "key_order m \<Longrightarrow> key_order (map_put k v m)"
proof (induction k v m rule: map_put.induct)
  case (2 k v k' v' m)
  then show ?case using set_map_put [of k v m] by (auto simp: key_order_def)
qed (simp add: key_order_def)

lemma key_order_erase [intro]: "key_order m \<Longrightarrow> key_order (map_erase k m)"
  by (induction m) (auto simp: key_order_def map_erase_def)

lemma key_order_distinct: "key_order m \<Longrightarrow> distinct (map fst m)"
  by (induction m) (auto simp: key_order_def)

lemma map_put_last: "\<forall>x \<in> set (map fst m). x < k \<Longrightarrow> map_put k v m = m @ [(k, v)]"
  by (induction k v m rule: map_put.induct) auto

lemma map_put_again: "key_order m \<Longrightarrow> map_of m k = Some v \<Longrightarrow> map_put k v m = m"
proof (induction k v m rule: map_put.induct)
  case (2 k v k' v' m)
  have "k' < k" if "map_of m k = Some v" using that "2.prems"(1) by (auto simp: key_order_def dest!: map_of_SomeD)
  then show ?case using 2 by (auto simp: key_order_def split: if_splits)
qed simp

subsection \<open>Numbers\<close>

text \<open>\<open>std::stoi\<close>: \<open>None\<close> is \<open>invalid_argument\<close> or \<open>out_of_range\<close>, which nobody in the program catches.\<close>

definition stoi :: "string \<Rightarrow> int option" where
  "stoi s =
     (let t = dropWhile isspace s;
          neg = (t \<noteq> [] \<and> hd t = CHR ''-'');
          u = (if t \<noteq> [] \<and> (hd t = CHR ''-'' \<or> hd t = CHR ''+'') then tl t else t);
          ds = takeWhile isdigit u;
          n = (if neg then - dec_acc 0 ds else dec_acc 0 ds)
      in if ds = [] \<or> n < int_min \<or> n > int_max then None else Some n)"

subsection \<open>Messages\<close>

text \<open>\<open>std::getline\<close> until the end of the text; there is no line after a final line break.\<close>

function getlines :: "string \<Rightarrow> string list" where
  "getlines s =
     (if s = [] then []
      else before (CHR 0x0A) s # (case after (CHR 0x0A) s of None \<Rightarrow> [] | Some r \<Rightarrow> getlines r))"
  by pat_completeness auto
termination by (relation "measure length") (auto dest: length_after)

declare getlines.simps [simp del]

record parse_st =
  ps_map :: "(string \<times> string) list"
  ps_key :: string
  ps_val :: string
  ps_multi :: bool

definition split_eq :: "string \<Rightarrow> (string \<times> string) option" where
  "split_eq line = map_option (\<lambda>v. (before (CHR ''='') line, v)) (after (CHR ''='') line)"

definition sdp_keys :: "string list" where
  "sdp_keys = [''sdp'', ''consumer_sdp'']"

definition sdp_line :: "string \<Rightarrow> bool" where
  "sdp_line line \<longleftrightarrow> list_ex (\<lambda>p. starts_with p line) [''a='', ''v='', ''o='', ''s='', ''t='', ''c='', ''m='']"

definition sv_parse_line :: "parse_st \<Rightarrow> string \<Rightarrow> parse_st" where
  "sv_parse_line st line =
     (if \<not> ps_multi st then
        (case split_eq line of
           None \<Rightarrow> st
         | Some (k, v) \<Rightarrow>
             if k \<in> set sdp_keys then st\<lparr>ps_key := k, ps_val := v @ [CHR 0x0A], ps_multi := True\<rparr>
             else st\<lparr>ps_key := k, ps_val := v, ps_map := map_put k v (ps_map st)\<rparr>)
      else
        (case split_eq line of
           None \<Rightarrow> st\<lparr>ps_val := ps_val st @ line @ [CHR 0x0A]\<rparr>
         | Some (k, v) \<Rightarrow>
             if sdp_line line then st\<lparr>ps_val := ps_val st @ line @ [CHR 0x0A]\<rparr>
             else st\<lparr>ps_map := map_put (ps_key st) (ps_val st) (ps_map st), ps_key := k, ps_val := v, ps_multi := False\<rparr>))"

definition parse_message :: "string \<Rightarrow> (string \<times> string) list" where
  "parse_message msg =
     (let st = foldl sv_parse_line \<lparr>ps_map = [], ps_key = [], ps_val = [], ps_multi = False\<rparr> (getlines msg)
      in if ps_key st \<noteq> [] then map_put (ps_key st) (ps_val st) (ps_map st) else ps_map st)"

definition create_message :: "(string \<times> string) list \<Rightarrow> string" where
  "create_message data =
     concat (map (\<lambda>(k, v). k @ CHR ''='' # v @ (if k \<notin> set sdp_keys then [CHR 0x0A] else [])) data)"

subsection \<open>Configuration\<close>

record sv_cfg =
  sv_signaling_port :: int
  sv_http_port :: int
  sv_turn_host :: string
  sv_turn_port :: int
  sv_turn_username :: string
  sv_turn_password :: string
  sv_auth_username :: string
  sv_auth_password :: string
  sv_api_token :: string
  sv_max_providers :: int

definition sv_cfg_default :: sv_cfg where
  "sv_cfg_default = \<lparr>sv_signaling_port = 8888, sv_http_port = 8889, sv_turn_host = [], sv_turn_port = 3478,
     sv_turn_username = [], sv_turn_password = [], sv_auth_username = ''admin'', sv_auth_password = ''admin'',
     sv_api_token = [], sv_max_providers = 0\<rparr>"

definition sv_blank :: "char \<Rightarrow> bool" where
  "sv_blank c \<longleftrightarrow> c \<in> {CHR '' '', CHR 0x09, CHR 0x0D, CHR 0x0A}"

definition sv_trim :: "string \<Rightarrow> string" where
  "sv_trim s = rev (dropWhile sv_blank (rev (dropWhile sv_blank s)))"

definition set_cfg :: "string \<Rightarrow> string \<Rightarrow> sv_cfg \<Rightarrow> sv_cfg option" where
  "set_cfg k v cfg =
     (if k = ''SIGNALING_PORT'' then map_option (\<lambda>n. cfg\<lparr>sv_signaling_port := n\<rparr>) (stoi v)
      else if k = ''HTTP_PORT'' then map_option (\<lambda>n. cfg\<lparr>sv_http_port := n\<rparr>) (stoi v)
      else if k = ''TURN_SERVER_HOST'' then Some (cfg\<lparr>sv_turn_host := v\<rparr>)
      else if k = ''TURN_SERVER_PORT'' then map_option (\<lambda>n. cfg\<lparr>sv_turn_port := n\<rparr>) (stoi v)
      else if k = ''TURN_USERNAME'' then Some (cfg\<lparr>sv_turn_username := v\<rparr>)
      else if k = ''TURN_PASSWORD'' then Some (cfg\<lparr>sv_turn_password := v\<rparr>)
      else if k = ''AUTH_USERNAME'' then Some (cfg\<lparr>sv_auth_username := v\<rparr>)
      else if k = ''AUTH_PASSWORD'' then Some (cfg\<lparr>sv_auth_password := v\<rparr>)
      else if k = ''API_TOKEN'' then Some (cfg\<lparr>sv_api_token := v\<rparr>)
      else if k = ''MAX_PROVIDERS'' then map_option (\<lambda>n. cfg\<lparr>sv_max_providers := n\<rparr>) (stoi v)
      else Some cfg)"

definition cfg_line :: "string \<Rightarrow> sv_cfg \<Rightarrow> sv_cfg option" where
  "cfg_line raw cfg =
     (let line = sv_trim raw in
      if line = [] \<or> hd line = CHR ''#'' then Some cfg
      else case split_eq line of
        None \<Rightarrow> Some cfg
      | Some (k, v) \<Rightarrow> set_cfg (sv_trim k) (sv_trim v) cfg)"

text \<open>\<open>sv_load_config\<close> of the file's text, \<open>None\<close> when it cannot be opened; the flag is its result.\<close>

definition sv_load_config :: "string option \<Rightarrow> sv_cfg \<Rightarrow> (bool \<times> sv_cfg) option" where
  "sv_load_config text cfg =
     (case text of
        None \<Rightarrow> Some (False, cfg)
      | Some s \<Rightarrow> map_option (Pair True) (foldl (\<lambda>r line. Option.bind r (cfg_line line)) (Some cfg) (getlines s)))"

subsection \<open>Reading back what was written\<close>

text \<open>A line of a message outside an SDP block: a key without \<open>=\<close>, no line break inside, not an SDP key.\<close>

definition line_ok :: "string \<times> string \<Rightarrow> bool" where
  "line_ok p \<longleftrightarrow> fst p \<noteq> [] \<and> CHR ''='' \<notin> set (fst p) \<and> CHR 0x0A \<notin> set (fst p) \<and> CHR 0x0A \<notin> set (snd p)
     \<and> fst p \<notin> set sdp_keys"

lemma getlines_Nil [simp]: "getlines [] = []"
  by (simp add: getlines.simps)

lemma getlines_line [simp]: "CHR 0x0A \<notin> set l \<Longrightarrow> getlines (l @ CHR 0x0A # r) = l # getlines r"
  by (subst getlines.simps) (simp add: before_append after_append)

lemma getlines_last: "CHR 0x0A \<notin> set l \<Longrightarrow> l \<noteq> [] \<Longrightarrow> getlines l = [l]"
  by (subst getlines.simps) (simp add: before_no after_None [THEN iffD2])

lemma split_eq_line [simp]: "CHR ''='' \<notin> set k \<Longrightarrow> split_eq (k @ CHR ''='' # v) = Some (k, v)"
  by (simp add: split_eq_def before_append after_append)

lemma getlines_kv: "list_all line_ok kvs \<Longrightarrow> getlines (kv_lines kvs @ r) = map (\<lambda>(k, v). k @ CHR ''='' # v) kvs @ getlines r"
proof (induction kvs)
  case (Cons p kvs)
  obtain k v where p: "p = (k, v)" by fastforce
  have "CHR 0x0A \<notin> set (k @ CHR ''='' # v)" using Cons.prems p by (simp add: line_ok_def)
  from getlines_line [OF this, of "kv_lines kvs @ r"] show ?case
    using Cons p by (simp add: kv_lines_def)
qed (simp add: kv_lines_def)

definition parsed_to :: "(string \<times> string) list \<Rightarrow> parse_st \<Rightarrow> parse_st" where
  "parsed_to kvs st = foldl (\<lambda>s (k, v). s\<lparr>ps_key := k, ps_val := v, ps_map := map_put k v (ps_map s)\<rparr>) st kvs"

lemma fold_kv: "list_all line_ok kvs \<Longrightarrow> \<not> ps_multi st
    \<Longrightarrow> foldl sv_parse_line st (map (\<lambda>(k, v). k @ CHR ''='' # v) kvs) = parsed_to kvs st \<and> \<not> ps_multi (parsed_to kvs st)"
proof (induction kvs arbitrary: st)
  case (Cons p kvs)
  obtain k v where p: "p = (k, v)" by fastforce
  show ?case using Cons by (simp add: p sv_parse_line_def line_ok_def parsed_to_def)
qed (simp add: parsed_to_def)

lemma parsed_to_map: "ps_map (parsed_to kvs st) = foldl (\<lambda>m (k, v). map_put k v m) (ps_map st) kvs"
  by (induction kvs arbitrary: st) (auto simp: parsed_to_def)

lemma parsed_to_snoc: "parsed_to (kvs @ [(k, v)]) st
    = (parsed_to kvs st)\<lparr>ps_key := k, ps_val := v, ps_map := map_put k v (ps_map (parsed_to kvs st))\<rparr>"
  by (simp add: parsed_to_def)

lemma key_order_puts: "key_order m \<Longrightarrow> key_order (foldl (\<lambda>m (k, v). map_put k v m) m kvs)"
  by (induction kvs arbitrary: m) auto

lemma map_of_puts: "map_of (foldl (\<lambda>m (k, v). map_put k v m) m kvs) = map_of m ++ map_of (rev kvs)"
  by (induction kvs arbitrary: m) (auto simp: fun_eq_iff map_add_def split: option.splits)

lemma puts_sorted: "key_order (m @ kvs) \<Longrightarrow> foldl (\<lambda>m (k, v). map_put k v m) m kvs = m @ kvs"
proof (induction kvs arbitrary: m)
  case (Cons p kvs)
  obtain k v where p: "p = (k, v)" by fastforce
  have "map_put k v m = m @ [(k, v)]"
    using Cons.prems p by (intro map_put_last) (auto simp: key_order_def sorted_wrt_append)
  then show ?case using Cons.IH [of "m @ [(k, v)]"] Cons.prems p by simp
qed simp

lemma parse_kv_lines:
  assumes "list_all line_ok kvs"
  shows "parse_message (kv_lines kvs) = foldl (\<lambda>m (k, v). map_put k v m) [] kvs"
proof (cases kvs rule: rev_cases)
  case Nil
  then show ?thesis by (simp add: parse_message_def kv_lines_def)
next
  case (snoc ks p)
  obtain k v where p: "p = (k, v)" by fastforce
  define st0 where "st0 = \<lparr>ps_map = [], ps_key = [], ps_val = [], ps_multi = False\<rparr>"
  have f: "foldl sv_parse_line st0 (getlines (kv_lines kvs)) = parsed_to kvs st0"
    using getlines_kv [OF assms, of "[]"] fold_kv [OF assms, of st0] by (simp add: st0_def)
  define st where "st = parsed_to ks st0"
  have o: "key_order (ps_map st)" unfolding st_def parsed_to_map by (rule key_order_puts) (simp add: st0_def key_order_def)
  have "map_put k v (map_put k v (ps_map st)) = map_put k v (ps_map st)" by (rule map_put_again) (use o in auto)
  moreover have "parsed_to kvs st0 = st\<lparr>ps_key := k, ps_val := v, ps_map := map_put k v (ps_map st)\<rparr>"
    unfolding snoc p parsed_to_snoc st_def ..
  ultimately have "parse_message (kv_lines kvs) = ps_map (parsed_to kvs st0)"
    using f unfolding st0_def by (simp add: parse_message_def Let_def)
  also have "\<dots> = foldl (\<lambda>m (k, v). map_put k v m) [] kvs" unfolding parsed_to_map by (simp add: st0_def)
  finally show ?thesis .
qed

lemma map_of_parse: "list_all line_ok kvs \<Longrightarrow> map_of (parse_message (kv_lines kvs)) = map_of (rev kvs)"
  by (simp add: parse_kv_lines map_of_puts)

lemma create_kv_lines: "list_all (\<lambda>p. fst p \<notin> set sdp_keys) m \<Longrightarrow> create_message m = kv_lines m"
  by (induction m) (auto simp: create_message_def kv_lines_def)

lemma create_kv_ok: "list_all line_ok m \<Longrightarrow> create_message m = kv_lines m"
  by (rule create_kv_lines) (auto simp: list_all_iff line_ok_def)

lemma dec_acc_digits [simp]: "dec_acc a (takeWhile isdigit s) = dec_acc a s"
  by (induction s arbitrary: a) auto

lemma digits_show_nat: "takeWhile isdigit (show_nat n) = show_nat n"
  using show_nat_digits by (metis takeWhile_eq_all_conv)

lemma stoi_show_nat: "int n \<le> int_max \<Longrightarrow> stoi (show_nat n) = Some (int n)"
proof -
  assume le: "int n \<le> int_max"
  obtain c cs where s: "show_nat n = c # cs" using show_nat_not_Nil by (cases "show_nat n") auto
  then have "isdigit c" using show_nat_digits [of c n] by simp
  then show ?thesis
    using s le dec_acc_show_nat [of n] isdigit_not_special [of c] by (simp add: stoi_def Let_def int_min_def int_max_def)
qed

lemma stoi_show_int: "int_min \<le> i \<Longrightarrow> i \<le> int_max \<Longrightarrow> stoi (show_int i) = Some i"
proof (cases "i < 0")
  case True
  moreover assume "int_min \<le> i" "i \<le> int_max"
  ultimately show ?thesis
    by (simp add: show_int_def stoi_def Let_def isspace_def dec_acc_show_nat digits_show_nat int_min_def int_max_def)
qed (simp add: show_int_def stoi_show_nat)

text \<open>What \<open>handle_client\<close> reads from a message of clean lines.\<close>

lemma msg_field_kv:
  assumes "list_all line_ok kvs"
  shows "msg_field (parse_message (kv_lines kvs)) k = (case map_of (rev kvs) k of None \<Rightarrow> [] | Some v \<Rightarrow> v)"
    "msg_field_or (parse_message (kv_lines kvs)) k d = (case map_of (rev kvs) k of None \<Rightarrow> d | Some v \<Rightarrow> v)"
  by (simp_all add: msg_field_def msg_field_or_def map_of_parse [OF assms])

text \<open>A block of SDP lines at the end of a message, as providers and consumers send it.\<close>

lemma fold_sdp_block:
  assumes "ps_multi st" "\<forall>l \<in> set ls. split_eq l = None \<or> sdp_line l"
  shows "foldl sv_parse_line st ls = st\<lparr>ps_val := ps_val st @ concat (map (\<lambda>l. l @ [CHR 0x0A]) ls)\<rparr>"
  using assms by (induction ls arbitrary: st) (auto simp: sv_parse_line_def split: option.split)

lemma getlines_block: "\<forall>l \<in> set ls. CHR 0x0A \<notin> set l \<Longrightarrow> getlines (concat (map (\<lambda>l. l @ [CHR 0x0A]) ls) @ r) = ls @ getlines r"
  by (induction ls) auto

lemma parse_sdp_block:
  assumes "list_all line_ok kvs" "k \<in> set sdp_keys" "CHR 0x0A \<notin> set l0"
    "\<forall>l \<in> set ls. CHR 0x0A \<notin> set l \<and> (split_eq l = None \<or> sdp_line l)"
  shows "foldl sv_parse_line \<lparr>ps_map = [], ps_key = [], ps_val = [], ps_multi = False\<rparr>
       (getlines (kv_lines kvs @ k @ CHR ''='' # l0 @ CHR 0x0A # concat (map (\<lambda>l. l @ [CHR 0x0A]) ls) @ r))
     = foldl sv_parse_line \<lparr>ps_map = foldl (\<lambda>m (k, v). map_put k v m) [] kvs, ps_key = k,
         ps_val = l0 @ CHR 0x0A # concat (map (\<lambda>l. l @ [CHR 0x0A]) ls), ps_multi = True\<rparr> (getlines r)"
proof -
  define st0 where "st0 = \<lparr>ps_map = [], ps_key = [], ps_val = [], ps_multi = False\<rparr>"
  have k: "CHR ''='' \<notin> set k" "CHR 0x0A \<notin> set k" using assms(2) by (auto simp: sdp_keys_def)
  have f: "foldl sv_parse_line st0 (map (\<lambda>(k, v). k @ CHR ''='' # v) kvs) = parsed_to kvs st0" "\<not> ps_multi (parsed_to kvs st0)"
    using fold_kv [OF assms(1), of st0] by (simp_all add: st0_def)
  have "CHR 0x0A \<notin> set (k @ CHR ''='' # l0)" using k assms(3) by simp
  from getlines_line [OF this] have g: "getlines (kv_lines kvs @ k @ CHR ''='' # l0 @ CHR 0x0A # concat (map (\<lambda>l. l @ [CHR 0x0A]) ls) @ r)
      = map (\<lambda>(k, v). k @ CHR ''='' # v) kvs @ (k @ CHR ''='' # l0) # ls @ getlines r"
    using getlines_kv [OF assms(1)] getlines_block [of ls r] assms(4) by simp
  have p: "sv_parse_line (parsed_to kvs st0) (k @ CHR ''='' # l0)
      = (parsed_to kvs st0)\<lparr>ps_key := k, ps_val := l0 @ [CHR 0x0A], ps_multi := True\<rparr>"
    using f(2) k(1) assms(2) by (simp add: sv_parse_line_def)
  have "foldl sv_parse_line ((parsed_to kvs st0)\<lparr>ps_key := k, ps_val := l0 @ [CHR 0x0A], ps_multi := True\<rparr>) ls
      = \<lparr>ps_map = foldl (\<lambda>m (k, v). map_put k v m) [] kvs, ps_key = k,
         ps_val = l0 @ CHR 0x0A # concat (map (\<lambda>l. l @ [CHR 0x0A]) ls), ps_multi = True\<rparr>"
    by (subst fold_sdp_block) (use assms(4) parsed_to_map [of kvs st0] in \<open>auto simp: st0_def\<close>)
  then show ?thesis unfolding st0_def [symmetric] g by (simp add: f p)
qed

end
