(* ===== verification/SigServer.thy ===== *)
theory SigServer
  imports SigMsg
begin

text \<open>
  The signaling server's connections (\<open>signaling_server.cpp\<close>): the two registries, one thread per
  client (\<open>handle_client\<close>) and the ping monitor, over one record \<open>sig_server\<close>.  A thread's program
  counter is a \<open>sig_pc\<close>; one step is one critical section or one \<open>send_all\<close>, so that any
  interleaving of the threads is a list of \<open>sv_event\<close>s.  A message goes out as two chunks, its length
  and its body, because two threads may write to the same socket and nothing orders them.  \<open>ss_out\<close>
  is what reached each descriptor, \<open>ss_closed\<close> every \<open>close\<close>; an uncaught exception sets \<open>ss_down\<close>:
  it ends the process.
\<close>

subsection \<open>State\<close>

record sv_history =
  hi_first_seen :: int
  hi_last_disconnect :: int
  hi_downtime :: "64 word"
  hi_disconnects :: nat

record provider_info =
  pv_peer_id :: string
  pv_ip :: string
  pv_p2p_port :: int
  pv_sdp :: string
  pv_protocol :: string
  pv_codec :: string
  pv_fd :: int
  pv_connected_at :: int
  pv_messages_sent :: nat
  pv_messages_received :: nat
  pv_bytes_sent :: nat
  pv_bytes_received :: nat
  pv_consumer_ip :: string
  pv_has_consumer :: bool
  pv_consumer_port :: int
  pv_desired_port :: int
  pv_history :: sv_history
  pv_last_ping :: int
  pv_last_pong :: int
  pv_missed_pongs :: nat

record srt_info =
  sp_service_id :: string
  sp_srflx_ip :: string
  sp_srflx_port :: int
  sp_lan_ip :: string
  sp_fd :: int
  sp_connected_at :: int
  sp_has_consumer :: bool
  sp_consumer_ip :: string
  sp_last_consumer :: int

text \<open>The fields of a consumer's request that outlive its parsing.\<close>

record srt_req =
  rq_service_id :: string
  rq_srflx_ip :: string
  rq_srflx_port :: int
  rq_lan_ip :: string

text \<open>Where a client's thread is, by the handler it is in, at its critical sections.\<close>

datatype srt_pc = SrtPut srt_info | SrtFind srt_req | SrtMark srt_req srt_info | SrtErase string

datatype reg_pc =
    RegCheck string provider_info
  | RegPut string provider_info
  | RegCount string
  | Notify string
  | NotifySend string "int list" bool "int list"
  | NotifyDrop "int list"
  | SubAdd
  | SubList

datatype req_pc =
    ReqCount string string
  | ReqFind string string
  | ReqReset string string provider_info
  | ReqSlot string string provider_info
  | ReqDropSlot string
  | ReqErase string
  | ReqWait string provider_info nat
  | ReqDone string provider_info string
  | ReqMark string

datatype note_pc =
    PongAt string
  | PortSet string int
  | SdpStore string string
  | SdpGrab string string
  | SdpWake nat string
  | ClearConsumer string

datatype leave_pc = LeaveSubs | LeaveSrt | LeaveProv | LeaveClose

text \<open>
  \<open>SendLen fd msg k1 k2\<close> is before the first \<open>send_all\<close> of \<open>send_message (fd, msg)\<close>, to go on with \<open>k1\<close>
  when it returns true and with \<open>k2\<close> when false; \<open>SendBody\<close> is between its two calls.
\<close>

datatype sig_pc =
    Receive
  | SendLen int string sig_pc sig_pc
  | SendBody int string sig_pc sig_pc
  | Srt srt_pc
  | Reg reg_pc
  | Req req_pc
  | Note note_pc
  | Leave leave_pc
  | Ended

record client_thread =
  th_fd :: int
  th_ip :: string
  th_pc :: sig_pc

datatype mon_pc =
    MonSleep
  | MonSend int "(int \<times> string \<times> string) list" bool "(int \<times> string \<times> string) list" "int list" "int list"
  | MonUpdate int "(int \<times> string \<times> string) list" "int list" "int list"
  | MonErase "int list"
  | MonClose int "int list"

record sig_server =
  ss_srt :: "(string \<times> srt_info) list"
  ss_prov :: "(string \<times> provider_info) list"
  ss_hist :: "(string \<times> sv_history) list"
  ss_pending :: "(string \<times> nat) list"
  ss_slots :: "string option list"
  ss_subs :: "int list"
  ss_total_providers :: nat
  ss_total_consumers :: nat
  ss_total_connections :: nat
  ss_threads :: "client_thread list"
  ss_mon :: mon_pc
  ss_open :: "int list"
  ss_out :: "(int \<times> string) list"
  ss_closed :: "int list"
  ss_down :: bool

definition sv_init :: sig_server where
  "sv_init = \<lparr>ss_srt = [], ss_prov = [], ss_hist = [], ss_pending = [], ss_slots = [], ss_subs = [],
     ss_total_providers = 0, ss_total_consumers = 0, ss_total_connections = 0, ss_threads = [],
     ss_mon = MonSleep, ss_open = [], ss_out = [], ss_closed = [], ss_down = False\<rparr>"

definition max_missed_pongs :: nat where "max_missed_pongs = 3"
definition max_message :: nat where "max_message = 64 * 1024"

subsection \<open>Messages the server writes\<close>

text \<open>A \<open>std::map\<close> filled by assignments, in their order.\<close>

definition mk_map :: "(string \<times> string) list \<Rightarrow> (string \<times> string) list" where
  "mk_map kvs = foldl (\<lambda>m (k, v). map_put k v m) [] kvs"

definition error_msg :: "string \<Rightarrow> string" where
  "error_msg text = create_message (mk_map [(''type'', ''ERROR''), (''message'', text)])"

definition turn_fields :: "sv_cfg \<Rightarrow> (string \<times> string) list" where
  "turn_fields cfg =
     (if sv_turn_host cfg = [] then []
      else [(''turn_host'', sv_turn_host cfg), (''turn_port'', show_int (sv_turn_port cfg)),
            (''turn_username'', sv_turn_username cfg), (''turn_password'', sv_turn_password cfg)])"

definition registered_msg :: "sv_cfg \<Rightarrow> string \<Rightarrow> string" where
  "registered_msg cfg t = create_message (mk_map ([(''type'', t), (''status'', ''ok'')] @ turn_fields cfg))"

definition srt_peer_msg :: "srt_req \<Rightarrow> string" where
  "srt_peer_msg r = create_message (mk_map
     ([(''type'', ''SRT_PEER''), (''service_id'', rq_service_id r), (''srflx_ip'', rq_srflx_ip r),
       (''srflx_port'', show_int (rq_srflx_port r))]
      @ (if rq_lan_ip r \<noteq> [] then [(''lan_ip'', rq_lan_ip r)] else [])))"

definition srt_provider_msg :: "sv_cfg \<Rightarrow> srt_req \<Rightarrow> srt_info \<Rightarrow> string" where
  "srt_provider_msg cfg r info = create_message (mk_map
     ([(''type'', ''SRT_PROVIDER''), (''service_id'', rq_service_id r), (''srflx_ip'', sp_srflx_ip info),
       (''srflx_port'', show_int (sp_srflx_port info))]
      @ (if sp_lan_ip info \<noteq> [] then [(''lan_ip'', sp_lan_ip info)] else []) @ turn_fields cfg))"

definition new_provider_msg :: "string \<Rightarrow> string" where
  "new_provider_msg sid = ''type=NEW_PROVIDER'' @ [CHR 0x0A] @ ''service_id='' @ sid @ [CHR 0x0A]"

definition consumer_connect_msg :: "string \<Rightarrow> string \<Rightarrow> string \<Rightarrow> string" where
  "consumer_connect_msg sid ip sdp = create_message (mk_map
     [(''type'', ''CONSUMER_CONNECT''), (''service_id'', sid), (''consumer_ip'', ip), (''force_reconnect'', ''1''),
      (''consumer_sdp'', sdp)])"

definition provider_info_msg :: "sv_cfg \<Rightarrow> provider_info \<Rightarrow> string \<Rightarrow> string" where
  "provider_info_msg cfg info sdp = create_message (mk_map
     ([(''type'', ''PROVIDER_INFO''), (''provider_ip'', pv_ip info), (''provider_port'', show_int (pv_p2p_port info)),
       (''provider_peer_id'', pv_peer_id info), (''protocol'', pv_protocol info),
       (''codec'', if pv_codec info = [] then ''h264'' else pv_codec info),
       (''consumer_port'', show_int (pv_desired_port info)), (''provider_sdp'', sdp)] @ turn_fields cfg))"

definition ping_text :: "string \<Rightarrow> int \<Rightarrow> string" where
  "ping_text sid now = ''type=PING'' @ [CHR 0x0A] @ ''service_id='' @ sid @ [CHR 0x0A] @ ''timestamp='' @ show_int now @ [CHR 0x0A]"

text \<open>The dash of the texts that ask for a retry, in UTF-8.\<close>

definition dash :: string where "dash = [CHR 0xE2, CHR 0x80, CHR 0x94]"

subsection \<open>What a received message leads to\<close>

text \<open>\<open>recv_message\<close> on what the socket delivers.\<close>

definition sv_recv_message :: "string list \<Rightarrow> (string \<times> string list) option" where
  "sv_recv_message segs =
     (case ctrl_read_all segs 4 of
        None \<Rightarrow> None
      | Some (hdr, segs') \<Rightarrow>
          (let len = ntohl_bytes hdr in if len > max_message then None else ctrl_read_all segs' len))"

definition bad_token :: "sv_cfg \<Rightarrow> (string \<times> string) list \<Rightarrow> bool" where
  "bad_token cfg m \<longleftrightarrow> sv_api_token cfg \<noteq> [] \<and> msg_field_or m ''api_token'' [] \<noteq> sv_api_token cfg"

definition stoi_or :: "(string \<times> string) list \<Rightarrow> string \<Rightarrow> int option" where
  "stoi_or m k = (case map_of m k of None \<Rightarrow> Some 0 | Some v \<Rightarrow> stoi v)"

definition on_register :: "sv_cfg \<Rightarrow> int \<Rightarrow> string \<Rightarrow> (string \<times> string) list \<Rightarrow> sig_pc option" where
  "on_register cfg fd ip m =
     (case stoi (msg_field m ''p2p_port'') of
        None \<Rightarrow> None
      | Some port \<Rightarrow>
          (case stoi_or m ''consumer_port'' of
             None \<Rightarrow> None
           | Some desired \<Rightarrow>
               if bad_token cfg m
               then Some (SendLen fd (error_msg ''Authentication failed'') (Leave LeaveSubs) (Leave LeaveSubs))
               else Some (Reg (RegCheck (msg_field m ''service_id'')
                 \<lparr>pv_peer_id = msg_field m ''peer_id'', pv_ip = ip, pv_p2p_port = port, pv_sdp = msg_field m ''sdp'',
                  pv_protocol = msg_field_or m ''protocol'' ''rtsp'', pv_codec = msg_field_or m ''codec'' ''h264'',
                  pv_fd = fd, pv_connected_at = 0, pv_messages_sent = 0, pv_messages_received = 1, pv_bytes_sent = 0,
                  pv_bytes_received = 0, pv_consumer_ip = [], pv_has_consumer = False, pv_consumer_port = 0,
                  pv_desired_port = desired,
                  pv_history = \<lparr>hi_first_seen = 0, hi_last_disconnect = 0, hi_downtime = 0, hi_disconnects = 0\<rparr>,
                  pv_last_ping = 0, pv_last_pong = 0, pv_missed_pongs = 0\<rparr>))))"

definition on_srt_register :: "sv_cfg \<Rightarrow> int \<Rightarrow> (string \<times> string) list \<Rightarrow> sig_pc option" where
  "on_srt_register cfg fd m =
     (case stoi_or m ''srflx_port'' of
        None \<Rightarrow> None
      | Some port \<Rightarrow>
          if msg_field m ''service_id'' = [] \<or> msg_field m ''srflx_ip'' = [] \<or> port \<le> 0
          then Some (SendLen fd (error_msg ''SRT_REGISTER requires service_id, srflx_ip, srflx_port'') Receive Receive)
          else if bad_token cfg m
          then Some (SendLen fd (error_msg ''Authentication failed'') (Leave LeaveSubs) (Leave LeaveSubs))
          else Some (Srt (SrtPut
            \<lparr>sp_service_id = msg_field m ''service_id'', sp_srflx_ip = msg_field m ''srflx_ip'', sp_srflx_port = port,
             sp_lan_ip = msg_field_or m ''lan_ip'' [], sp_fd = fd, sp_connected_at = 0, sp_has_consumer = False,
             sp_consumer_ip = [], sp_last_consumer = 0\<rparr>)))"

definition on_srt_request :: "int \<Rightarrow> (string \<times> string) list \<Rightarrow> sig_pc option" where
  "on_srt_request fd m =
     (case stoi_or m ''srflx_port'' of
        None \<Rightarrow> None
      | Some port \<Rightarrow>
          if msg_field m ''service_id'' = [] \<or> msg_field m ''srflx_ip'' = [] \<or> port \<le> 0
          then Some (SendLen fd (error_msg ''SRT_REQUEST requires service_id, srflx_ip, srflx_port'') Receive Receive)
          else Some (Srt (SrtFind \<lparr>rq_service_id = msg_field m ''service_id'', rq_srflx_ip = msg_field m ''srflx_ip'',
                      rq_srflx_port = port, rq_lan_ip = msg_field_or m ''lan_ip'' []\<rparr>)))"

definition on_port_update :: "(string \<times> string) list \<Rightarrow> sig_pc option" where
  "on_port_update m =
     (case stoi_or m ''local_port'' of
        None \<Rightarrow> None
      | Some port \<Rightarrow>
          let sid = msg_field_or m ''service_id'' [] in
          Some (if sid \<noteq> [] \<and> port > 0 then Note (PortSet sid port) else Receive))"

definition on_sdp_ready :: "(string \<times> string) list \<Rightarrow> sig_pc" where
  "on_sdp_ready m =
     (let sid = msg_field_or m ''service_id'' []; sdp = msg_field_or m ''sdp'' [] in
      if sid \<noteq> [] \<and> sdp \<noteq> [] then Note (SdpStore sid sdp) else Receive)"

definition sv_dispatch :: "sv_cfg \<Rightarrow> int \<Rightarrow> string \<Rightarrow> string \<Rightarrow> sig_pc option" where
  "sv_dispatch cfg fd ip msg =
     (let m = parse_message msg; t = msg_field m ''type'' in
      if t = ''REGISTER'' then on_register cfg fd ip m
      else if t = ''SRT_REGISTER'' then on_srt_register cfg fd m
      else if t = ''SRT_REQUEST'' then on_srt_request fd m
      else if t = ''SUBSCRIBE'' then Some (Reg SubAdd)
      else if t = ''REQUEST'' then Some (Req (ReqCount (msg_field m ''service_id'') (msg_field m ''consumer_sdp'')))
      else if t = ''PONG'' then Some (Note (PongAt (msg_field_or m ''service_id'' [])))
      else if t = ''PORT_UPDATE'' then on_port_update m
      else if t = ''SDP_READY'' then Some (on_sdp_ready m)
      else if t = ''PROVIDER_DISCONNECTED'' then
        Some (let sid = msg_field_or m ''service_id'' [] in if sid \<noteq> [] then Note (ClearConsumer sid) else Receive)
      else Some Receive)"

subsection \<open>The registries\<close>

definition sweep :: "('v \<Rightarrow> int) \<Rightarrow> int \<Rightarrow> (string \<times> 'v) list \<Rightarrow> (string \<times> 'v) list" where
  "sweep owner fd m = filter (\<lambda>p. owner (snd p) \<noteq> fd) m"

text \<open>The history entry a registration leaves: created, or with the time since the last disconnect added.\<close>

definition hist_register :: "int \<Rightarrow> string \<Rightarrow> (string \<times> sv_history) list \<Rightarrow> (string \<times> sv_history) list" where
  "hist_register now sid hist =
     (case map_of hist sid of
        Some h \<Rightarrow>
          if hi_last_disconnect h > 0
          then map_put sid (h\<lparr>hi_downtime := hi_downtime h + of_int (now - hi_last_disconnect h),
                 hi_disconnects := hi_disconnects h + 1\<rparr>) hist
          else hist
      | None \<Rightarrow> map_put sid \<lparr>hi_first_seen = now, hi_last_disconnect = 0, hi_downtime = 0, hi_disconnects = 0\<rparr> hist)"

definition hist_of :: "(string \<times> sv_history) list \<Rightarrow> string \<Rightarrow> sv_history" where
  "hist_of hist sid = (case map_of hist sid of Some h \<Rightarrow> h
     | None \<Rightarrow> \<lparr>hi_first_seen = 0, hi_last_disconnect = 0, hi_downtime = 0, hi_disconnects = 0\<rparr>)"

text \<open>The entries of a descriptor leave the registry; \<open>mark\<close> is what happens to their history.\<close>

definition drop_providers :: "(sv_history \<Rightarrow> sv_history) \<Rightarrow> int \<Rightarrow> sig_server \<Rightarrow> sig_server" where
  "drop_providers mark fd s =
     s\<lparr>ss_prov := sweep pv_fd fd (ss_prov s),
       ss_hist := map (\<lambda>(k, h). (k, if (case map_of (ss_prov s) k of Some i \<Rightarrow> pv_fd i = fd | None \<Rightarrow> False) then mark h else h))
                    (ss_hist s)\<rparr>"

text \<open>The byte counts of \<open>send_message\<close> and \<open>recv_message\<close> go to the first provider on the descriptor.\<close>

fun track :: "int \<Rightarrow> (provider_info \<Rightarrow> provider_info) \<Rightarrow> (string \<times> provider_info) list \<Rightarrow> (string \<times> provider_info) list" where
  "track fd f [] = []"
| "track fd f ((k, i) # m) = (if pv_fd i = fd then (k, f i) # m else (k, i) # track fd f m)"

definition add_sub :: "int \<Rightarrow> int list \<Rightarrow> int list" where
  "add_sub fd subs = (if fd \<in> set subs then subs else insort fd subs)"

subsection \<open>Descriptors\<close>

text \<open>
  A \<open>send_all\<close> succeeds when the network lets it and the descriptor is open, whoever opened it.  \<open>ss_out\<close> lists
  the chunks that were sent whole: of a chunk whose \<open>send_all\<close> failed half-way a part may be on the wire,
  which no thread of the server can tell and which is not listed.
\<close>

definition sv_send :: "bool \<Rightarrow> int \<Rightarrow> string \<Rightarrow> sig_server \<Rightarrow> bool \<times> sig_server" where
  "sv_send ok fd chunk s =
     (if ok \<and> fd \<in> set (ss_open s) then (True, s\<lparr>ss_out := ss_out s @ [(fd, chunk)]\<rparr>) else (False, s))"

definition sv_close :: "int \<Rightarrow> sig_server \<Rightarrow> sig_server" where
  "sv_close fd s = s\<lparr>ss_open := removeAll fd (ss_open s), ss_closed := ss_closed s @ [fd]\<rparr>"

definition frame_len :: "string \<Rightarrow> string" where
  "frame_len msg = htonl_bytes (length msg mod 2 ^ 32)"

definition send_note :: "bool \<Rightarrow> int \<Rightarrow> string \<Rightarrow> sig_server \<Rightarrow> sig_server" where
  "send_note ok fd msg s = snd (sv_send ok fd msg (snd (sv_send ok fd (frame_len msg) s)))"

subsection \<open>One step of a client's thread\<close>

text \<open>
  \<open>ok\<close> is the network's answer to the send of this step, \<open>now\<close> the clock.  The result is where the
  thread goes.
\<close>

primrec srt_step :: "sv_cfg \<Rightarrow> int \<Rightarrow> string \<Rightarrow> int \<Rightarrow> sig_server \<Rightarrow> srt_pc \<Rightarrow> sig_pc \<times> sig_server" where
  "srt_step cfg fd ip now s (SrtPut info) =
     (SendLen fd (registered_msg cfg ''SRT_REGISTERED'') Receive Receive,
      s\<lparr>ss_srt := map_put (sp_service_id info) (info\<lparr>sp_connected_at := now\<rparr>) (ss_srt s)\<rparr>)"
| "srt_step cfg fd ip now s (SrtFind r) =
     (case map_of (ss_srt s) (rq_service_id r) of
        None \<Rightarrow> (SendLen fd (error_msg (''SRT provider not found: '' @ rq_service_id r)) Receive Receive, s)
      | Some info \<Rightarrow> (Srt (SrtMark r info), s))"
| "srt_step cfg fd ip now s (SrtMark r info) =
     (SendLen (sp_fd info) (srt_peer_msg r)
        (SendLen fd (srt_provider_msg cfg r info) Receive Receive) (Srt (SrtErase (rq_service_id r))),
      s\<lparr>ss_srt := map_adjust (rq_service_id r)
          (\<lambda>i. i\<lparr>sp_has_consumer := True, sp_consumer_ip := ip, sp_last_consumer := now\<rparr>) (ss_srt s)\<rparr>)"
| "srt_step cfg fd ip now s (SrtErase sid) =
     (SendLen fd (error_msg (''SRT provider not reachable (stale connection) '' @ dash @ '' retry'')) Receive Receive,
      s\<lparr>ss_srt := map_erase sid (ss_srt s)\<rparr>)"

text \<open>\<open>notify_subscribers\<close>: its next send, and the end of those whose send failed.\<close>

definition notify_next :: "bool \<Rightarrow> string \<Rightarrow> int list \<Rightarrow> bool \<Rightarrow> int list \<Rightarrow> sig_server \<Rightarrow> sig_pc \<times> sig_server" where
  "notify_next ok msg todo half failed s =
     (case todo of
        [] \<Rightarrow> (if failed = [] then Receive else Reg (NotifyDrop (sort failed)), s)
      | t # ts \<Rightarrow>
          (case sv_send ok t (if half then msg else frame_len msg) s of
             (False, s1) \<Rightarrow> (Reg (NotifySend msg ts False (failed @ [t])), s1)
           | (True, s1) \<Rightarrow> (Reg (if half then NotifySend msg ts False failed else NotifySend msg todo True failed), s1)))"

definition notify_drop :: "int list \<Rightarrow> sig_server \<Rightarrow> sig_server" where
  "notify_drop failed s = foldl (\<lambda>s f. sv_close f (s\<lparr>ss_subs := removeAll f (ss_subs s)\<rparr>)) s failed"

primrec reg_step :: "sv_cfg \<Rightarrow> int \<Rightarrow> int \<Rightarrow> bool \<Rightarrow> sig_server \<Rightarrow> reg_pc \<Rightarrow> sig_pc \<times> sig_server" where
  "reg_step cfg fd now ok s (RegCheck sid info) =
     (if sv_max_providers cfg > 0 \<and> map_of (ss_prov s) sid = None \<and> int (length (ss_prov s)) \<ge> sv_max_providers cfg
      then (SendLen fd (error_msg ''Server at capacity'') (Leave LeaveSubs) (Leave LeaveSubs), s)
      else (Reg (RegPut sid info), s))"
| "reg_step cfg fd now ok s (RegPut sid info) =
     (let hist = hist_register now sid (ss_hist s) in
      (SendLen fd (registered_msg cfg ''REGISTERED'') (Reg (RegCount sid)) (Reg (RegCount sid)),
       s\<lparr>ss_hist := hist,
         ss_prov := map_put sid (info\<lparr>pv_connected_at := now, pv_history := hist_of hist sid\<rparr>) (ss_prov s),
         ss_total_providers := ss_total_providers s + 1\<rparr>))"
| "reg_step cfg fd now ok s (RegCount sid) =
     (Reg (Notify sid), s\<lparr>ss_prov := map_adjust sid (\<lambda>i. i\<lparr>pv_messages_sent := pv_messages_sent i + 1\<rparr>) (ss_prov s)\<rparr>)"
| "reg_step cfg fd now ok s (Notify sid) = (Reg (NotifySend (new_provider_msg sid) (ss_subs s) False []), s)"
| "reg_step cfg fd now ok s (NotifySend msg todo half failed) =
     notify_next ok msg todo half failed s"
| "reg_step cfg fd now ok s (NotifyDrop failed) =
     (Receive, notify_drop failed s)"
| "reg_step cfg fd now ok s SubAdd = (Reg SubList, s\<lparr>ss_subs := add_sub fd (ss_subs s)\<rparr>)"
| "reg_step cfg fd now ok s SubList = (Receive, foldl (\<lambda>s p. send_note ok fd (new_provider_msg (fst p)) s) s (ss_prov s))"

primrec req_step :: "sv_cfg \<Rightarrow> int \<Rightarrow> string \<Rightarrow> sig_server \<Rightarrow> req_pc \<Rightarrow> sig_pc \<times> sig_server" where
  "req_step cfg fd ip s (ReqCount sid sdp) =
     (Req (ReqFind sid sdp), s\<lparr>ss_total_consumers := ss_total_consumers s + 1,
        ss_total_connections := ss_total_connections s + 1\<rparr>)"
| "req_step cfg fd ip s (ReqFind sid sdp) =
     (case map_of (ss_prov s) sid of
        None \<Rightarrow> (SendLen fd (error_msg ''Provider not found'') Receive Receive, s)
      | Some info \<Rightarrow>
          (Req (ReqReset sid sdp info),
           s\<lparr>ss_prov := map_adjust sid (\<lambda>i. i\<lparr>pv_messages_received := pv_messages_received i + 1\<rparr>) (ss_prov s)\<rparr>))"
| "req_step cfg fd ip s (ReqReset sid sdp info) =
     (Req (ReqSlot sid sdp info),
      s\<lparr>ss_prov := map_adjust sid (\<lambda>i. i\<lparr>pv_has_consumer := False, pv_consumer_ip := []\<rparr>) (ss_prov s)\<rparr>)"
| "req_step cfg fd ip s (ReqSlot sid sdp info) =
     (SendLen (pv_fd info) (consumer_connect_msg sid ip sdp)
        (Req (ReqWait sid info (length (ss_slots s)))) (Req (ReqDropSlot sid)),
      s\<lparr>ss_slots := ss_slots s @ [None], ss_pending := map_put sid (length (ss_slots s)) (ss_pending s)\<rparr>)"
| "req_step cfg fd ip s (ReqDropSlot sid) = (Req (ReqErase sid), s\<lparr>ss_pending := map_erase sid (ss_pending s)\<rparr>)"
| "req_step cfg fd ip s (ReqErase sid) =
     (SendLen fd (error_msg (''Provider not reachable (stale connection) '' @ dash @ '' retry'')) Receive Receive,
      s\<lparr>ss_prov := map_erase sid (ss_prov s)\<rparr>)"
| "req_step cfg fd ip s (ReqWait sid info slot) =
     (Req (ReqDone sid info (case ss_slots s ! slot of Some sdp \<Rightarrow> sdp | None \<Rightarrow> pv_sdp info)), s)"
| "req_step cfg fd ip s (ReqDone sid info sdp) =
     (SendLen fd (provider_info_msg cfg info sdp) (Req (ReqMark sid)) (Req (ReqMark sid)),
      s\<lparr>ss_pending := map_erase sid (ss_pending s)\<rparr>)"
| "req_step cfg fd ip s (ReqMark sid) =
     (Receive, s\<lparr>ss_prov := map_adjust sid (\<lambda>i. i\<lparr>pv_messages_sent := pv_messages_sent i + 1,
        pv_consumer_ip := ip, pv_has_consumer := True\<rparr>) (ss_prov s)\<rparr>)"

primrec note_step :: "int \<Rightarrow> int \<Rightarrow> sig_server \<Rightarrow> note_pc \<Rightarrow> sig_pc \<times> sig_server" where
  "note_step fd now s (PongAt sid) =
     (let f0 = (if sid \<noteq> [] then (case map_of (ss_prov s) sid of Some i \<Rightarrow> pv_fd i | None \<Rightarrow> -1) else -1);
          f = (if f0 < 0 then fd else f0)
      in (Receive, s\<lparr>ss_prov := map (\<lambda>(k, i). (k, if pv_fd i = f then i\<lparr>pv_last_pong := now, pv_missed_pongs := 0\<rparr> else i))
                       (ss_prov s)\<rparr>))"
| "note_step fd now s (PortSet sid port) =
     (Receive, s\<lparr>ss_prov := map_adjust sid (\<lambda>i. i\<lparr>pv_consumer_port := port\<rparr>) (ss_prov s)\<rparr>)"
| "note_step fd now s (SdpStore sid sdp) =
     (Note (SdpGrab sid sdp), s\<lparr>ss_prov := map_adjust sid (\<lambda>i. i\<lparr>pv_sdp := sdp\<rparr>) (ss_prov s)\<rparr>)"
| "note_step fd now s (SdpGrab sid sdp) =
     (case map_of (ss_pending s) sid of None \<Rightarrow> (Receive, s) | Some slot \<Rightarrow> (Note (SdpWake slot sdp), s))"
| "note_step fd now s (SdpWake slot sdp) = (Receive, s\<lparr>ss_slots := (ss_slots s)[slot := Some sdp]\<rparr>)"
| "note_step fd now s (ClearConsumer sid) =
     (Receive, s\<lparr>ss_prov := map_adjust sid (\<lambda>i. i\<lparr>pv_has_consumer := False, pv_consumer_ip := []\<rparr>) (ss_prov s)\<rparr>)"

primrec leave_step :: "int \<Rightarrow> int \<Rightarrow> sig_server \<Rightarrow> leave_pc \<Rightarrow> sig_pc \<times> sig_server" where
  "leave_step fd now s LeaveSubs = (Leave LeaveSrt, s\<lparr>ss_subs := removeAll fd (ss_subs s)\<rparr>)"
| "leave_step fd now s LeaveSrt = (Leave LeaveProv, s\<lparr>ss_srt := sweep sp_fd fd (ss_srt s)\<rparr>)"
| "leave_step fd now s LeaveProv = (Leave LeaveClose, drop_providers (\<lambda>h. h\<lparr>hi_last_disconnect := now\<rparr>) fd s)"
| "leave_step fd now s LeaveClose = (Ended, sv_close fd s)"

text \<open>A thread in \<open>recv_message\<close>, or ended, does nothing by itself.\<close>

definition client_step :: "sv_cfg \<Rightarrow> client_thread \<Rightarrow> int \<Rightarrow> bool \<Rightarrow> sig_server \<Rightarrow> sig_pc \<times> sig_server" where
  "client_step cfg th now ok s =
     (case th_pc th of
        Receive \<Rightarrow> (Receive, s)
      | SendLen fd msg k1 k2 \<Rightarrow>
          (case sv_send ok fd (frame_len msg) s of (True, s1) \<Rightarrow> (SendBody fd msg k1 k2, s1) | (False, s1) \<Rightarrow> (k2, s1))
      | SendBody fd msg k1 k2 \<Rightarrow>
          (case sv_send ok fd msg s of
             (True, s1) \<Rightarrow> (k1, s1\<lparr>ss_prov := track fd (\<lambda>i. i\<lparr>pv_bytes_sent := pv_bytes_sent i + 4 + length msg\<rparr>) (ss_prov s1)\<rparr>)
           | (False, s1) \<Rightarrow> (k2, s1))
      | Srt pc \<Rightarrow> srt_step cfg (th_fd th) (th_ip th) now s pc
      | Reg pc \<Rightarrow> reg_step cfg (th_fd th) now ok s pc
      | Req pc \<Rightarrow> req_step cfg (th_fd th) (th_ip th) s pc
      | Note pc \<Rightarrow> note_step (th_fd th) now s pc
      | Leave pc \<Rightarrow> leave_step (th_fd th) now s pc
      | Ended \<Rightarrow> (Ended, s))"

subsection \<open>The ping monitor\<close>

text \<open>Who gets a ping, and whose descriptor is stale: the loop over the registry in key order.\<close>

fun mon_collect :: "int \<Rightarrow> (string \<times> provider_info) list \<Rightarrow> int list \<Rightarrow> (int \<times> string \<times> string) list \<times> int list" where
  "mon_collect now [] stale = ([], stale)"
| "mon_collect now ((sid, i) # m) stale =
     (if pv_fd i \<in> set stale then mon_collect now m stale
      else if pv_missed_pongs i \<ge> max_missed_pongs then mon_collect now m (add_sub (pv_fd i) stale)
      else let (ts, st) = mon_collect now m stale in ((pv_fd i, sid, ping_text sid now) # ts, st))"

fun mon_count :: "int \<Rightarrow> (int \<times> string \<times> string) list \<Rightarrow> int list \<Rightarrow> int list \<Rightarrow> (string \<times> provider_info) list
    \<Rightarrow> int list \<times> (string \<times> provider_info) list" where
  "mon_count now [] failed stale m = (stale, m)"
| "mon_count now ((fd, sid, msg) # ts) failed stale m =
     (if fd \<in> set failed then mon_count now ts failed (add_sub fd stale) m
      else mon_count now ts failed stale
        (map_adjust sid (\<lambda>i. i\<lparr>pv_last_ping := now, pv_missed_pongs := pv_missed_pongs i + 1,
           pv_bytes_sent := pv_bytes_sent i + 4 + length msg, pv_messages_sent := pv_messages_sent i + 1\<rparr>) m))"

text \<open>One step of \<open>ping_monitor_thread\<close>; \<open>MonSleep\<close> wakes up and collects.\<close>

primrec mon_step :: "int \<Rightarrow> bool \<Rightarrow> sig_server \<Rightarrow> mon_pc \<Rightarrow> mon_pc \<times> sig_server" where
  "mon_step now ok s MonSleep =
     (let (ts, stale) = mon_collect now (ss_prov s) [] in (MonSend now ts False ts [] stale, s))"
| "mon_step now ok s (MonSend t0 todo half targets failed stale) =
     (case todo of
        [] \<Rightarrow> (MonUpdate t0 targets failed stale, s)
      | (fd, sid, msg) # ts \<Rightarrow>
          (case sv_send ok fd (if half then msg else frame_len msg) s of
             (False, s1) \<Rightarrow> (MonSend t0 ts False targets (add_sub fd failed) stale, s1)
           | (True, s1) \<Rightarrow> (MonSend t0 (if half then ts else todo) (\<not> half) targets failed stale, s1)))"
| "mon_step now ok s (MonUpdate t0 targets failed stale) =
     (let (st, m) = mon_count t0 targets failed stale (ss_prov s) in (MonErase st, s\<lparr>ss_prov := m\<rparr>))"
| "mon_step now ok s (MonErase fds) =
     (case fds of
        [] \<Rightarrow> (MonSleep, s)
      | fd # rest \<Rightarrow>
          (MonClose fd rest,
           drop_providers (\<lambda>h. h\<lparr>hi_last_disconnect := now, hi_disconnects := hi_disconnects h + 1\<rparr>) fd s))"
| "mon_step now ok s (MonClose fd rest) = (MonErase rest, sv_close fd s)"

subsection \<open>The process\<close>

text \<open>
  \<open>SvAccept\<close>: the accept loop of \<open>main\<close> and the start of \<open>handle_client\<close>; the kernel gives a descriptor
  that is not open.  \<open>SvRecv\<close>: \<open>recv_message\<close> in a waiting thread, \<open>None\<close> when it returns false.
\<close>

datatype sv_event = SvAccept int string | SvRecv nat "string option" | SvStep nat int bool | SvMonitor int bool

definition put_thread :: "nat \<Rightarrow> sig_pc \<Rightarrow> sig_server \<Rightarrow> sig_server" where
  "put_thread t pc s = s\<lparr>ss_threads := (ss_threads s)[t := (ss_threads s ! t)\<lparr>th_pc := pc\<rparr>]\<rparr>"

definition sv_recv :: "sv_cfg \<Rightarrow> nat \<Rightarrow> string option \<Rightarrow> sig_server \<Rightarrow> sig_server" where
  "sv_recv cfg t got s =
     (let th = ss_threads s ! t in
      case got of
        None \<Rightarrow> put_thread t (Leave LeaveSubs) s
      | Some msg \<Rightarrow>
          (case sv_dispatch cfg (th_fd th) (th_ip th) msg of
             None \<Rightarrow> s\<lparr>ss_down := True\<rparr>
           | Some pc \<Rightarrow> put_thread t pc (s\<lparr>ss_prov := track (th_fd th)
               (\<lambda>i. i\<lparr>pv_bytes_received := pv_bytes_received i + 4 + length msg\<rparr>) (ss_prov s)\<rparr>)))"

definition sv_step :: "sv_cfg \<Rightarrow> sv_event \<Rightarrow> sig_server \<Rightarrow> sig_server" where
  "sv_step cfg e s =
     (if ss_down s then s
      else case e of
        SvAccept fd ip \<Rightarrow>
          if fd < 0 \<or> fd \<in> set (ss_open s) then s
          else s\<lparr>ss_open := ss_open s @ [fd], ss_threads := ss_threads s @ [\<lparr>th_fd = fd, th_ip = ip, th_pc = Receive\<rparr>],
                 ss_total_connections := ss_total_connections s + 1\<rparr>
      | SvRecv t got \<Rightarrow>
          if t < length (ss_threads s) \<and> th_pc (ss_threads s ! t) = Receive then sv_recv cfg t got s else s
      | SvStep t now ok \<Rightarrow>
          if t < length (ss_threads s)
          then (let (pc, s1) = client_step cfg (ss_threads s ! t) now ok s in put_thread t pc s1)
          else s
      | SvMonitor now ok \<Rightarrow> (let (pc, s1) = mon_step now ok s (ss_mon s) in s1\<lparr>ss_mon := pc\<rparr>))"

definition sv_run :: "sv_cfg \<Rightarrow> sv_event list \<Rightarrow> sig_server \<Rightarrow> sig_server" where
  "sv_run cfg es s = fold (sv_step cfg) es s"

text \<open>What has been written to a descriptor, as the bytes its peer receives.\<close>

definition written :: "sig_server \<Rightarrow> int \<Rightarrow> string" where
  "written s fd = concat (map snd (filter (\<lambda>p. fst p = fd) (ss_out s)))"

end
