(* ===== verification/SigProps.thy ===== *)
theory SigProps
  imports SigServer
begin

text \<open>
  What holds of the signaling server in every interleaving: who owns a registry entry, what a token is
  worth, what messages survive printing and parsing - and where the threads get in each other's way.
\<close>

subsection \<open>Registries owned by descriptors\<close>

text \<open>A store whose entries belong to descriptors: what its clients need to know of its operations.\<close>

locale owned_store =
  fixes owners :: "'m \<Rightarrow> int set"
    and put :: "string \<Rightarrow> 'v \<Rightarrow> 'm \<Rightarrow> 'm"
    and erase :: "string \<Rightarrow> 'm \<Rightarrow> 'm"
    and drop_fd :: "int \<Rightarrow> 'm \<Rightarrow> 'm"
    and owner :: "'v \<Rightarrow> int"
  assumes owners_put: "owners (put k v m) \<subseteq> insert (owner v) (owners m)"
    and owners_erase: "owners (erase k m) \<subseteq> owners m"
    and owners_drop: "owners (drop_fd fd m) = owners m - {fd}"
begin

lemma put_served: "owners m \<subseteq> S \<Longrightarrow> owner v \<in> S \<Longrightarrow> owners (put k v m) \<subseteq> S"
  using owners_put [of k v m] by blast

lemma erase_served: "owners m \<subseteq> S \<Longrightarrow> owners (erase k m) \<subseteq> S"
  using owners_erase [of k m] by blast

lemma drop_served: "owners m \<subseteq> S \<Longrightarrow> owners (drop_fd fd m) \<subseteq> S - {fd}"
  using owners_drop [of fd m] by blast

end

definition owners_of :: "('v \<Rightarrow> int) \<Rightarrow> (string \<times> 'v) list \<Rightarrow> int set" where
  "owners_of own m = (own \<circ> snd) ` set m"

lemma owners_put_of: "owners_of own (map_put k v m) \<subseteq> insert (own v) (owners_of own m)"
  by (induction k v m rule: map_put.induct) (auto simp: owners_of_def)

lemma owners_erase_of: "owners_of own (map_erase k m) \<subseteq> owners_of own m"
  by (auto simp: owners_of_def map_erase_def)

lemma owners_sweep_of: "owners_of own (sweep own fd m) = owners_of own m - {fd}"
  by (auto simp: owners_of_def sweep_def)

lemma owners_of_adjust: "(\<And>i. own (f i) = own i) \<Longrightarrow> owners_of own (map_adjust k f m) = owners_of own m"
  by (induction m) (auto simp: owners_of_def map_adjust_def)

lemma owners_of_map: "(\<And>k i. own (f k i) = own i) \<Longrightarrow> owners_of own (map (\<lambda>(k, i). (k, f k i)) m) = owners_of own m"
  by (induction m) (auto simp: owners_of_def)

lemma owners_of_track: "(\<And>i. pv_fd (f i) = pv_fd i) \<Longrightarrow> owners_of pv_fd (track fd f m) = owners_of pv_fd m"
  by (induction fd f m rule: track.induct) (auto simp: owners_of_def)

interpretation srt_reg: owned_store "owners_of sp_fd" map_put map_erase "sweep sp_fd" sp_fd
  by unfold_locales (rule owners_put_of owners_erase_of owners_sweep_of)+

interpretation prov_reg: owned_store "owners_of pv_fd" map_put map_erase "sweep pv_fd" pv_fd
  by unfold_locales (rule owners_put_of owners_erase_of owners_sweep_of)+

lemma all_put: "P (k, v) \<Longrightarrow> list_all P m \<Longrightarrow> list_all P (map_put k v m)"
  by (induction k v m rule: map_put.induct) auto

lemma all_erase: "list_all P m \<Longrightarrow> list_all P (map_erase k m)"
  by (auto simp: list_all_iff map_erase_def)

lemma all_sweep: "list_all P m \<Longrightarrow> list_all P (sweep own fd m)"
  by (auto simp: list_all_iff sweep_def)

lemma all_adjust: "list_all P m \<Longrightarrow> (\<And>i. P (k, i) \<Longrightarrow> P (k, f i)) \<Longrightarrow> list_all P (map_adjust k f m)"
  by (induction m) (auto simp: map_adjust_def)

subsection \<open>Threads and what they own\<close>

definition past_srt :: "sig_pc \<Rightarrow> bool" where
  "past_srt pc \<longleftrightarrow> pc \<in> {Leave LeaveProv, Leave LeaveClose, Ended}"

definition past_prov :: "sig_pc \<Rightarrow> bool" where
  "past_prov pc \<longleftrightarrow> pc \<in> {Leave LeaveClose, Ended}"

text \<open>An SRT entry a phone can be sent to.\<close>

definition valid_srt :: "srt_info \<Rightarrow> bool" where
  "valid_srt i \<longleftrightarrow> sp_service_id i \<noteq> [] \<and> sp_srflx_ip i \<noteq> [] \<and> 0 < sp_srflx_port i \<and> sp_srflx_port i \<le> int_max"

definition entry_ok :: "string \<times> srt_info \<Rightarrow> bool" where
  "entry_ok p \<longleftrightarrow> fst p = sp_service_id (snd p) \<and> valid_srt (snd p)"

text \<open>A thread only ever registers its own descriptor, and what it still has to do starts no clean-up in the middle.\<close>

primrec pc_ok :: "int \<Rightarrow> sig_pc \<Rightarrow> bool" where
  "pc_ok fd Receive \<longleftrightarrow> True"
| "pc_ok fd (SendLen g msg k1 k2) \<longleftrightarrow> pc_ok fd k1 \<and> pc_ok fd k2 \<and> \<not> past_srt k1 \<and> \<not> past_srt k2"
| "pc_ok fd (SendBody g msg k1 k2) \<longleftrightarrow> pc_ok fd k1 \<and> pc_ok fd k2 \<and> \<not> past_srt k1 \<and> \<not> past_srt k2"
| "pc_ok fd (Srt pc) \<longleftrightarrow> (case pc of SrtPut i \<Rightarrow> sp_fd i = fd \<and> valid_srt i | _ \<Rightarrow> True)"
| "pc_ok fd (Reg pc) \<longleftrightarrow> (case pc of RegCheck sid i \<Rightarrow> pv_fd i = fd | RegPut sid i \<Rightarrow> pv_fd i = fd | _ \<Rightarrow> True)"
| "pc_ok fd (Req pc) \<longleftrightarrow> True"
| "pc_ok fd (Note pc) \<longleftrightarrow> True"
| "pc_ok fd (Leave pc) \<longleftrightarrow> True"
| "pc_ok fd Ended \<longleftrightarrow> True"

definition serving :: "(sig_pc \<Rightarrow> bool) \<Rightarrow> client_thread list \<Rightarrow> int set" where
  "serving past ths = th_fd ` {th \<in> set ths. \<not> past (th_pc th)}"

lemma past_simps [simp]:
  "\<not> past_srt Receive" "\<not> past_srt (SendLen g m k1 k2)" "\<not> past_srt (SendBody g m k1 k2)" "\<not> past_srt (Srt p1)"
  "\<not> past_srt (Reg p2)" "\<not> past_srt (Req p3)" "\<not> past_srt (Note p4)" "past_srt Ended" "past_prov pc \<Longrightarrow> past_srt pc"
  "past_srt (Leave l) \<longleftrightarrow> l = LeaveProv \<or> l = LeaveClose" "past_prov (Leave l) \<longleftrightarrow> l = LeaveClose" "past_prov Ended"
  by (auto simp: past_srt_def past_prov_def)

lemma not_past_prov [simp]: "\<not> past_srt pc \<Longrightarrow> \<not> past_prov pc"
  by (auto simp: past_srt_def past_prov_def)

text \<open>What one step of a thread does to the owners of a registry, by the phase it is in.\<close>

definition owner_step :: "(sig_pc \<Rightarrow> bool) \<Rightarrow> int \<Rightarrow> sig_pc \<Rightarrow> sig_pc \<Rightarrow> int set \<Rightarrow> int set \<Rightarrow> bool" where
  "owner_step past fd pc pc' A B \<longleftrightarrow>
     (if past pc then past pc' \<and> B \<subseteq> A else if past pc' then B \<subseteq> A - {fd} else B \<subseteq> insert fd A)"

lemma sv_send_frame [simp]:
  "ss_srt (snd (sv_send ok fd c s)) = ss_srt s" "ss_prov (snd (sv_send ok fd c s)) = ss_prov s"
  "ss_threads (snd (sv_send ok fd c s)) = ss_threads s" "ss_mon (snd (sv_send ok fd c s)) = ss_mon s"
  "ss_down (snd (sv_send ok fd c s)) = ss_down s"
  by (simp_all add: sv_send_def)

lemma sv_send_same: "sv_send ok fd c s = (b, s1) \<Longrightarrow> ss_srt s1 = ss_srt s \<and> ss_prov s1 = ss_prov s \<and> ss_threads s1 = ss_threads s
    \<and> ss_mon s1 = ss_mon s \<and> ss_down s1 = ss_down s"
  by (metis snd_conv sv_send_frame)

lemma send_note_frame [simp]:
  "ss_srt (send_note ok fd m s) = ss_srt s" "ss_prov (send_note ok fd m s) = ss_prov s"
  "ss_threads (send_note ok fd m s) = ss_threads s" "ss_mon (send_note ok fd m s) = ss_mon s"
  by (simp_all add: send_note_def)

lemma fold_notes_frame [simp]:
  "ss_srt (foldl (\<lambda>s p. send_note ok fd (f p) s) s ps) = ss_srt s"
  "ss_prov (foldl (\<lambda>s p. send_note ok fd (f p) s) s ps) = ss_prov s"
  "ss_threads (foldl (\<lambda>s p. send_note ok fd (f p) s) s ps) = ss_threads s"
  by (induction ps arbitrary: s) auto

lemma sv_close_frame [simp]:
  "ss_srt (sv_close f s) = ss_srt s" "ss_prov (sv_close f s) = ss_prov s" "ss_threads (sv_close f s) = ss_threads s"
  "ss_mon (sv_close f s) = ss_mon s"
  by (simp_all add: sv_close_def)

lemma fold_close_frame [simp]:
  "ss_srt (foldl (\<lambda>s f. sv_close f (s\<lparr>ss_subs := g f s\<rparr>)) s fs) = ss_srt s"
  "ss_prov (foldl (\<lambda>s f. sv_close f (s\<lparr>ss_subs := g f s\<rparr>)) s fs) = ss_prov s"
  "ss_threads (foldl (\<lambda>s f. sv_close f (s\<lparr>ss_subs := g f s\<rparr>)) s fs) = ss_threads s"
  by (induction fs arbitrary: s) auto

lemma drop_frame [simp]:
  "ss_srt (drop_providers mk fd s) = ss_srt s" "ss_threads (drop_providers mk fd s) = ss_threads s"
  "ss_prov (drop_providers mk fd s) = sweep pv_fd fd (ss_prov s)"
  by (simp_all add: drop_providers_def)

lemma srt_step_owners:
  assumes "srt_step cfg fd ip now s pc = (pc', s')" "pc_ok fd (Srt pc)"
  shows "pc_ok fd pc' \<and> \<not> past_srt pc' \<and> ss_threads s' = ss_threads s \<and> ss_prov s' = ss_prov s
    \<and> owners_of sp_fd (ss_srt s') \<subseteq> insert fd (owners_of sp_fd (ss_srt s))
    \<and> (list_all entry_ok (ss_srt s) \<longrightarrow> list_all entry_ok (ss_srt s'))"
proof (cases pc)
  case (SrtPut i)
  then show ?thesis using assms srt_reg.owners_put [of "sp_service_id i" "i\<lparr>sp_connected_at := now\<rparr>" "ss_srt s"]
    by (auto simp: entry_ok_def valid_srt_def intro!: all_put)
next
  case (SrtErase sid)
  then show ?thesis using assms srt_reg.owners_erase [of sid "ss_srt s"] by (auto intro: all_erase)
qed (use assms in \<open>auto simp: owners_of_adjust entry_ok_def valid_srt_def intro!: all_adjust split: option.splits\<close>)

lemma reg_step_owners:
  assumes "reg_step cfg fd now ok s pc = (pc', s')" "pc_ok fd (Reg pc)"
  shows "pc_ok fd pc' \<and> \<not> past_srt pc' \<and> ss_threads s' = ss_threads s \<and> ss_srt s' = ss_srt s
    \<and> owners_of pv_fd (ss_prov s') \<subseteq> insert fd (owners_of pv_fd (ss_prov s))"
proof (cases pc)
  case (RegPut sid i)
  then show ?thesis
    using assms prov_reg.owners_put [of sid "i\<lparr>pv_connected_at := now, pv_history := hist_of (hist_register now sid (ss_hist s)) sid\<rparr>" "ss_prov s"]
    by (auto simp: Let_def)
next
  case (NotifySend msg todo half failed)
  then show ?thesis using assms by (auto simp: notify_next_def dest!: sv_send_same split: list.splits prod.splits bool.splits if_splits)
qed (use assms in \<open>auto simp: owners_of_adjust notify_drop_def split: if_splits\<close>)

lemma req_step_owners:
  assumes "req_step cfg fd ip s pc = (pc', s')"
  shows "pc_ok fd pc' \<and> \<not> past_srt pc' \<and> ss_threads s' = ss_threads s \<and> ss_srt s' = ss_srt s
    \<and> owners_of pv_fd (ss_prov s') \<subseteq> owners_of pv_fd (ss_prov s)"
proof (cases pc)
  case (ReqErase sid)
  then show ?thesis using assms prov_reg.owners_erase [of sid "ss_prov s"] by auto
qed (use assms in \<open>auto simp: owners_of_adjust split: option.splits\<close>)

lemma note_step_owners:
  assumes "note_step fd now s pc = (pc', s')"
  shows "pc_ok fd pc' \<and> \<not> past_srt pc' \<and> ss_threads s' = ss_threads s \<and> ss_srt s' = ss_srt s
    \<and> owners_of pv_fd (ss_prov s') \<subseteq> owners_of pv_fd (ss_prov s)"
  using assms by (cases pc) (auto simp: owners_of_adjust owners_of_map Let_def split: option.splits)

lemma client_step_owners:
  assumes "client_step cfg th now ok s = (pc', s')" "pc_ok (th_fd th) (th_pc th)"
  shows "pc_ok (th_fd th) pc' \<and> ss_threads s' = ss_threads s
    \<and> owner_step past_srt (th_fd th) (th_pc th) pc' (owners_of sp_fd (ss_srt s)) (owners_of sp_fd (ss_srt s'))
    \<and> owner_step past_prov (th_fd th) (th_pc th) pc' (owners_of pv_fd (ss_prov s)) (owners_of pv_fd (ss_prov s'))
    \<and> (list_all entry_ok (ss_srt s) \<longrightarrow> list_all entry_ok (ss_srt s'))"
proof (cases "th_pc th")
  case (Srt pc)
  then show ?thesis using assms srt_step_owners [of cfg "th_fd th" "th_ip th" now s pc pc' s']
    by (auto simp: client_step_def owner_step_def)
next
  case (Reg pc)
  then show ?thesis using assms reg_step_owners [of cfg "th_fd th" now ok s pc pc' s']
    by (auto simp: client_step_def owner_step_def)
next
  case (Req pc)
  then show ?thesis using assms req_step_owners [of cfg "th_fd th" "th_ip th" s pc pc' s']
    by (auto simp: client_step_def owner_step_def)
next
  case (Note pc)
  then show ?thesis using assms note_step_owners [of "th_fd th" now s pc pc' s']
    by (auto simp: client_step_def owner_step_def)
next
  case (Leave pc)
  then show ?thesis using assms
    by (cases pc) (auto simp: client_step_def owner_step_def srt_reg.owners_drop prov_reg.owners_drop all_sweep)
next
  case (SendBody g msg k1 k2)
  obtain b s1 where s1: "sv_send ok g msg s = (b, s1)" by fastforce
  show ?thesis using assms SendBody s1 sv_send_same [OF s1]
    by (cases b) (auto simp: client_step_def owner_step_def owners_of_track)
next
  case (SendLen g msg k1 k2)
  obtain b s1 where s1: "sv_send ok g (frame_len msg) s = (b, s1)" by fastforce
  show ?thesis using assms SendLen s1 sv_send_same [OF s1]
    by (cases b) (auto simp: client_step_def owner_step_def)
qed (use assms in \<open>auto simp: client_step_def owner_step_def\<close>)

text \<open>The monitor only takes entries out.\<close>

lemma mon_count_owners: "mon_count now ts failed stale m = (st, m') \<Longrightarrow> owners_of pv_fd m' = owners_of pv_fd m"
  by (induction now ts failed stale m arbitrary: st m' rule: mon_count.induct) (auto simp: owners_of_adjust split: if_splits)

lemma mon_step_owners:
  assumes "mon_step now ok s pc = (pc', s')"
  shows "ss_threads s' = ss_threads s \<and> ss_srt s' = ss_srt s \<and> owners_of pv_fd (ss_prov s') \<subseteq> owners_of pv_fd (ss_prov s)"
proof (cases pc)
  case (MonSend t0 todo half targets failed stale)
  show ?thesis
  proof (cases todo)
    case (Cons p ts)
    obtain fd sid msg where p: "p = (fd, sid, msg)" by (cases p) auto
    obtain b s1 where s1: "sv_send ok fd (if half then msg else frame_len msg) s = (b, s1)" by fastforce
    show ?thesis using assms MonSend Cons p s1 sv_send_same [OF s1] by (cases b) auto
  qed (use assms MonSend in auto)
next
  case (MonUpdate t0 targets failed stale)
  obtain st m where m: "mon_count t0 targets failed stale (ss_prov s) = (st, m)" by fastforce
  have "s' = s\<lparr>ss_prov := m\<rparr>" using assms MonUpdate m by simp
  then show ?thesis using mon_count_owners [OF m] by simp
next
  case (MonErase fds)
  then show ?thesis using assms by (cases fds) (auto simp: prov_reg.owners_drop)
qed (use assms in \<open>auto simp: Let_def split: prod.splits\<close>)

subsection \<open>The invariant\<close>

definition sv_inv :: "sig_server \<Rightarrow> bool" where
  "sv_inv s \<longleftrightarrow> (\<forall>th \<in> set (ss_threads s). pc_ok (th_fd th) (th_pc th))
     \<and> owners_of sp_fd (ss_srt s) \<subseteq> serving past_srt (ss_threads s)
     \<and> owners_of pv_fd (ss_prov s) \<subseteq> serving past_prov (ss_threads s) \<and> list_all entry_ok (ss_srt s)"

lemma serving_append: "serving past (ths @ [th]) = serving past ths \<union> (if past (th_pc th) then {} else {th_fd th})"
  by (auto simp: serving_def)

lemma serving_update:
  assumes "t < length ths" "owner_step past (th_fd (ths ! t)) (th_pc (ths ! t)) pc A B" "A \<subseteq> serving past ths"
  shows "B \<subseteq> serving past (ths[t := (ths ! t)\<lparr>th_pc := pc\<rparr>])"
proof
  fix f assume f: "f \<in> B"
  let ?ths = "ths[t := (ths ! t)\<lparr>th_pc := pc\<rparr>]"
  have at_t: "?ths ! t = (ths ! t)\<lparr>th_pc := pc\<rparr>" using assms(1) by simp
  have mem: "i < length ths \<Longrightarrow> \<not> past (th_pc (?ths ! i)) \<Longrightarrow> th_fd (?ths ! i) \<in> serving past ?ths" for i
    unfolding serving_def by (rule imageI) (simp add: nth_mem)
  show "f \<in> serving past ?ths"
  proof (cases "f = th_fd (ths ! t) \<and> \<not> past pc")
    case True
    then show ?thesis using mem [of t] assms(1) at_t by simp
  next
    case False
    then have "f \<in> A" "past (th_pc (ths ! t)) \<or> f \<noteq> th_fd (ths ! t)"
      using assms(2) f by (auto simp: owner_step_def split: if_splits)
    then obtain i where i: "i < length ths" "th_fd (ths ! i) = f" "\<not> past (th_pc (ths ! i))"
      using assms(3) by (auto simp: serving_def in_set_conv_nth)
    then have "i \<noteq> t" using \<open>past (th_pc (ths ! t)) \<or> f \<noteq> th_fd (ths ! t)\<close> by auto
    then show ?thesis using mem [of i] i by simp
  qed
qed

lemma put_thread_inv:
  assumes "sv_inv s" "t < length (ss_threads s)" "ss_threads s' = ss_threads s" "pc_ok (th_fd (ss_threads s ! t)) pc"
    "owner_step past_srt (th_fd (ss_threads s ! t)) (th_pc (ss_threads s ! t)) pc (owners_of sp_fd (ss_srt s)) (owners_of sp_fd (ss_srt s'))"
    "owner_step past_prov (th_fd (ss_threads s ! t)) (th_pc (ss_threads s ! t)) pc (owners_of pv_fd (ss_prov s)) (owners_of pv_fd (ss_prov s'))"
    "list_all entry_ok (ss_srt s) \<longrightarrow> list_all entry_ok (ss_srt s')"
  shows "sv_inv (put_thread t pc s')"
proof -
  have "pc_ok (th_fd th) (th_pc th)" if "th \<in> set ((ss_threads s)[t := (ss_threads s ! t)\<lparr>th_pc := pc\<rparr>])" for th
    using that assms(1,4) set_update_subset_insert [of "ss_threads s" t "(ss_threads s ! t)\<lparr>th_pc := pc\<rparr>"]
    by (auto simp: sv_inv_def)
  then show ?thesis
    using serving_update [OF assms(2,5)] serving_update [OF assms(2,6)] assms(1,3,7) by (auto simp: sv_inv_def put_thread_def)
qed

lemma stoi_or_bound: "stoi_or m k = Some n \<Longrightarrow> n \<le> int_max"
  by (auto simp: stoi_or_def stoi_def Let_def int_max_def split: option.splits if_splits)

lemma dispatch_ok: "sv_dispatch cfg fd ip msg = Some pc \<Longrightarrow> pc_ok fd pc \<and> \<not> past_srt pc"
  by (auto simp: sv_dispatch_def on_register_def on_srt_register_def valid_srt_def stoi_or_bound on_srt_request_def on_port_update_def on_sdp_ready_def Let_def
      split: if_splits option.splits)

lemma sv_step_inv:
  assumes "sv_inv s"
  shows "sv_inv (sv_step cfg e s)"
proof (cases "ss_down s")
  case False
  show ?thesis
  proof (cases e)
    case (SvAccept fd ip)
    then show ?thesis using assms False by (auto simp: sv_step_def sv_inv_def serving_append)
  next
    case (SvRecv t got)
    show ?thesis
    proof (cases "t < length (ss_threads s) \<and> th_pc (ss_threads s ! t) = Receive")
      case True
      show ?thesis
      proof (cases got)
        case None
        then show ?thesis using assms True False SvRecv
          by (auto simp: sv_step_def sv_recv_def owner_step_def intro!: put_thread_inv)
      next
        case (Some msg)
        show ?thesis
        proof (cases "sv_dispatch cfg (th_fd (ss_threads s ! t)) (th_ip (ss_threads s ! t)) msg")
          case None
          then show ?thesis using assms True False SvRecv Some by (auto simp: sv_step_def sv_recv_def sv_inv_def)
        next
          case (Some pc)
          then show ?thesis using assms True False SvRecv \<open>got = Some msg\<close> dispatch_ok [OF Some]
            by (auto simp: sv_step_def sv_recv_def Let_def owner_step_def owners_of_track intro!: put_thread_inv)
        qed
      qed
    qed (use assms SvRecv False in \<open>auto simp: sv_step_def\<close>)
  next
    case (SvStep t now ok)
    show ?thesis
    proof (cases "t < length (ss_threads s)")
      case True
      obtain pc s1 where c: "client_step cfg (ss_threads s ! t) now ok s = (pc, s1)" by fastforce
      have "pc_ok (th_fd (ss_threads s ! t)) (th_pc (ss_threads s ! t))" using assms True by (simp add: sv_inv_def)
      from client_step_owners [OF c this] show ?thesis
        using True False SvStep c put_thread_inv [OF assms True, of s1 pc] by (simp add: sv_step_def)
    qed (use assms SvStep False in \<open>auto simp: sv_step_def\<close>)
  next
    case (SvMonitor now ok)
    obtain pc s1 where m: "mon_step now ok s (ss_mon s) = (pc, s1)" by fastforce
    then show ?thesis using assms False SvMonitor mon_step_owners [OF m] by (auto simp: sv_step_def sv_inv_def)
  qed
qed (use assms in \<open>simp add: sv_step_def\<close>)

lemma sv_run_inv: "sv_inv s \<Longrightarrow> sv_inv (sv_run cfg es s)"
  unfolding sv_run_def by (induction es arbitrary: s) (auto intro: sv_step_inv)

lemma sv_init_inv: "sv_inv sv_init"
  by (simp add: sv_inv_def sv_init_def owners_of_def)

subsection \<open>Without the token\<close>

text \<open>A thread that will register nothing.\<close>

primrec no_reg :: "sig_pc \<Rightarrow> bool" where
  "no_reg Receive \<longleftrightarrow> True"
| "no_reg (SendLen g msg k1 k2) \<longleftrightarrow> no_reg k1 \<and> no_reg k2"
| "no_reg (SendBody g msg k1 k2) \<longleftrightarrow> no_reg k1 \<and> no_reg k2"
| "no_reg (Srt pc) \<longleftrightarrow> (case pc of SrtPut i \<Rightarrow> False | _ \<Rightarrow> True)"
| "no_reg (Reg pc) \<longleftrightarrow> (case pc of RegCheck sid i \<Rightarrow> False | RegPut sid i \<Rightarrow> False | _ \<Rightarrow> True)"
| "no_reg (Req pc) \<longleftrightarrow> True"
| "no_reg (Note pc) \<longleftrightarrow> True"
| "no_reg (Leave pc) \<longleftrightarrow> True"
| "no_reg Ended \<longleftrightarrow> True"

text \<open>Which keys a registry holds, each with the descriptor it belongs to.\<close>

definition held :: "('v \<Rightarrow> int) \<Rightarrow> (string \<times> 'v) list \<Rightarrow> (string \<times> int) set" where
  "held own m = (\<lambda>(k, i). (k, own i)) ` set m"

lemma owners_held: "owners_of own m = snd ` held own m"
  by (force simp: owners_of_def held_def)

lemma held_erase: "held own (map_erase k m) \<subseteq> held own m"
  by (auto simp: held_def map_erase_def)

lemma held_sweep: "held own (sweep own fd m) \<subseteq> held own m"
  by (auto simp: held_def sweep_def)

lemma held_adjust: "(\<And>i. own (f i) = own i) \<Longrightarrow> held own (map_adjust k f m) = held own m"
  by (induction m) (auto simp: held_def map_adjust_def)

lemma held_map: "(\<And>k i. own (f k i) = own i) \<Longrightarrow> held own (map (\<lambda>(k, i). (k, f k i)) m) = held own m"
  by (induction m) (auto simp: held_def)

lemma held_track: "(\<And>i. pv_fd (f i) = pv_fd i) \<Longrightarrow> held pv_fd (track fd f m) = held pv_fd m"
  by (induction fd f m rule: track.induct) (auto simp: held_def)

lemmas held_simps = held_adjust held_map held_track

text \<open>What a thread in such a state does: it stays in one, and adds no key and no owner.\<close>

lemma client_step_no_reg:
  assumes "client_step cfg th now ok s = (pc', s')" "no_reg (th_pc th)"
  shows "ss_threads s' = ss_threads s \<and> no_reg pc' \<and> held sp_fd (ss_srt s') \<subseteq> held sp_fd (ss_srt s) \<and> held pv_fd (ss_prov s') \<subseteq> held pv_fd (ss_prov s)"
proof (cases "th_pc th")
  case (Srt pc)
  then show ?thesis using assms
    by (cases pc) (auto simp: client_step_def held_simps dest: subsetD [OF held_erase] split: option.splits)
next
  case (Reg pc)
  have r: "reg_step cfg (th_fd th) now ok s pc = (pc', s')" using assms(1) Reg by (simp add: client_step_def)
  show ?thesis
  proof (cases pc)
    case (NotifySend msg todo half failed)
    show ?thesis
    proof (cases todo)
      case (Cons t ts)
      obtain b s1 where s1: "sv_send ok t (if half then msg else frame_len msg) s = (b, s1)" by fastforce
      show ?thesis using r NotifySend Cons s1 sv_send_same [OF s1] assms by (cases b) (auto simp: notify_next_def)
    qed (use r NotifySend assms in \<open>auto simp: notify_next_def\<close>)
  qed (use r Reg assms in \<open>auto simp: held_simps notify_drop_def\<close>)
next
  case (Req pc)
  then show ?thesis using assms
    by (cases pc) (auto simp: client_step_def held_simps dest: subsetD [OF held_erase] split: option.splits)
next
  case (Note pc)
  then show ?thesis using assms
    by (cases pc) (auto simp: client_step_def held_simps Let_def split: option.splits)
next
  case (Leave pc)
  then show ?thesis using assms held_sweep [of sp_fd "th_fd th" "ss_srt s"] held_sweep [of pv_fd "th_fd th" "ss_prov s"]
    by (cases pc) (auto simp: client_step_def)
next
  case (SendBody g msg k1 k2)
  obtain b s1 where s1: "sv_send ok g msg s = (b, s1)" by fastforce
  show ?thesis using assms SendBody s1 sv_send_same [OF s1] by (cases b) (auto simp: client_step_def held_simps)
next
  case (SendLen g msg k1 k2)
  obtain b s1 where s1: "sv_send ok g (frame_len msg) s = (b, s1)" by fastforce
  show ?thesis using assms SendLen s1 sv_send_same [OF s1] by (cases b) (auto simp: client_step_def)
qed (use assms in \<open>auto simp: client_step_def\<close>)

text \<open>Has connection \<open>t\<close> sent a message with the token?\<close>

definition shows_token :: "sv_cfg \<Rightarrow> nat \<Rightarrow> sv_event \<Rightarrow> bool" where
  "shows_token cfg t e = (case e of
     SvRecv u (Some msg) \<Rightarrow> u = t \<and> msg_field_or (parse_message msg) ''api_token'' [] = sv_api_token cfg
   | _ \<Rightarrow> False)"

definition presented :: "sv_cfg \<Rightarrow> sv_event list \<Rightarrow> nat \<Rightarrow> bool" where
  "presented cfg es t \<longleftrightarrow> list_ex (shows_token cfg t) es"

definition event_of :: "nat \<Rightarrow> sv_event \<Rightarrow> bool" where
  "event_of t e = (case e of SvRecv u _ \<Rightarrow> u = t | SvStep u _ _ \<Rightarrow> u = t | _ \<Rightarrow> False)"

lemma presented_snoc: "presented cfg (es @ [e]) t \<longleftrightarrow> presented cfg es t \<or> shows_token cfg t e"
  by (simp add: presented_def)

lemma dispatch_no_reg: "sv_dispatch cfg fd ip msg = Some pc \<Longrightarrow> bad_token cfg (parse_message msg) \<Longrightarrow> no_reg pc"
  by (auto simp: sv_dispatch_def on_register_def on_srt_register_def on_srt_request_def on_port_update_def on_sdp_ready_def Let_def
      split: if_splits option.splits)

text \<open>
  The threads of \<open>A\<close> have shown the token: the others are in a state that registers nothing, and every entry
  belongs to the descriptor of one of \<open>A\<close>.
\<close>

definition token_inv :: "(nat \<Rightarrow> bool) \<Rightarrow> sig_server \<Rightarrow> bool" where
  "token_inv A s \<longleftrightarrow> (\<forall>t < length (ss_threads s). A t \<or> no_reg (th_pc (ss_threads s ! t)))
     \<and> owners_of sp_fd (ss_srt s) \<union> owners_of pv_fd (ss_prov s)
       \<subseteq> {f. \<exists>t < length (ss_threads s). A t \<and> th_fd (ss_threads s ! t) = f}"

lemma token_inv_mono: "token_inv A s \<Longrightarrow> (\<And>t. A t \<Longrightarrow> B t) \<Longrightarrow> token_inv B s"
  unfolding token_inv_def by blast

lemma token_inv_put:
  assumes "token_inv A s" "ss_threads s' = ss_threads s" "t < length (ss_threads s)"
    "A t \<or> no_reg pc"
    "owners_of sp_fd (ss_srt s') \<subseteq> (if A t then insert (th_fd (ss_threads s ! t)) (owners_of sp_fd (ss_srt s)) else owners_of sp_fd (ss_srt s))"
    "owners_of pv_fd (ss_prov s') \<subseteq> (if A t then insert (th_fd (ss_threads s ! t)) (owners_of pv_fd (ss_prov s)) else owners_of pv_fd (ss_prov s))"
  shows "token_inv A (put_thread t pc s')"
proof -
  let ?ths = "(ss_threads s)[t := (ss_threads s ! t)\<lparr>th_pc := pc\<rparr>]"
  have fd: "th_fd (?ths ! u) = th_fd (ss_threads s ! u)" for u by (cases "t < length (ss_threads s)"; cases "u = t") (auto simp: list_update_beyond)
  have "A u \<or> no_reg (th_pc (?ths ! u))" if "u < length (ss_threads s)" for u
    using assms(1,3,4) that by (cases "u = t") (auto simp: token_inv_def)
  moreover have "owners_of sp_fd (ss_srt s') \<union> owners_of pv_fd (ss_prov s') \<subseteq> {f. \<exists>u < length (ss_threads s). A u \<and> th_fd (ss_threads s ! u) = f}"
    using assms(1,3,5,6) by (auto simp: token_inv_def split: if_splits)
  ultimately show ?thesis using assms(2) by (simp add: token_inv_def put_thread_def fd)
qed

lemma owner_step_insert: "owner_step past fd pc pc' A B \<Longrightarrow> B \<subseteq> insert fd A"
  by (auto simp: owner_step_def split: if_splits)

text \<open>One event, seen from a thread that has not shown the token and does not do so in it.\<close>

lemma sv_step_held:
  assumes "event_of t e" "t < length (ss_threads s) \<Longrightarrow> no_reg (th_pc (ss_threads s ! t))" "\<not> shows_token cfg t e" "sv_api_token cfg \<noteq> []"
  shows "held sp_fd (ss_srt (sv_step cfg e s)) \<subseteq> held sp_fd (ss_srt s) \<and> held pv_fd (ss_prov (sv_step cfg e s)) \<subseteq> held pv_fd (ss_prov s)
    \<and> (t < length (ss_threads s) \<longrightarrow> no_reg (th_pc (ss_threads (sv_step cfg e s) ! t)))"
proof (cases "ss_down s \<or> \<not> t < length (ss_threads s)")
  case False
  then have up: "\<not> ss_down s" "t < length (ss_threads s)" by auto
  note [simp] = put_thread_def held_track
  show ?thesis
  proof (cases e)
    case (SvRecv u got)
    then have u: "u = t" using assms(1) by (simp add: event_of_def)
    show ?thesis
    proof (cases got)
      case (Some msg)
      then have bad: "bad_token cfg (parse_message msg)"
        using assms(3,4) SvRecv u by (simp add: shows_token_def bad_token_def)
      show ?thesis
        using up assms(2) SvRecv u Some dispatch_no_reg [OF _ bad]
        by (cases "sv_dispatch cfg (th_fd (ss_threads s ! t)) (th_ip (ss_threads s ! t)) msg")
          (auto simp: sv_step_def sv_recv_def Let_def)
    qed (use up assms(2) SvRecv u in \<open>auto simp: sv_step_def sv_recv_def\<close>)
  next
    case (SvStep u now ok)
    then have u: "u = t" using assms(1) by (simp add: event_of_def)
    obtain pc s1 where c: "client_step cfg (ss_threads s ! t) now ok s = (pc, s1)" by fastforce
    then show ?thesis using client_step_no_reg [OF c assms(2) [OF up(2)]] up SvStep u c by (simp add: sv_step_def)
  qed (use assms(1) in \<open>simp_all add: event_of_def\<close>)
qed (use assms in \<open>auto simp: sv_step_def event_of_def split: sv_event.splits\<close>)

lemma sv_step_token_inv:
  assumes "token_inv A s" "sv_inv s" "\<And>t. A t \<or> \<not> shows_token cfg t e" "sv_api_token cfg \<noteq> []"
  shows "token_inv A (sv_step cfg e s)"
proof (cases "ss_down s")
  case False
  show ?thesis
  proof (cases e)
    case (SvAccept fd ip)
    then show ?thesis using assms(1) False by (auto simp: sv_step_def token_inv_def nth_append less_Suc_eq subset_iff)
  next
    case (SvRecv t got)
    show ?thesis
    proof (cases "t < length (ss_threads s) \<and> th_pc (ss_threads s ! t) = Receive")
      case True
      show ?thesis
      proof (cases got)
        case None
        then show ?thesis using True False SvRecv by (auto simp: sv_step_def sv_recv_def intro!: token_inv_put [OF assms(1)])
      next
        case (Some msg)
        have bad: "A t \<or> bad_token cfg (parse_message msg)"
          using assms(3) [of t] assms(4) SvRecv Some by (auto simp: shows_token_def bad_token_def)
        show ?thesis
        proof (cases "sv_dispatch cfg (th_fd (ss_threads s ! t)) (th_ip (ss_threads s ! t)) msg")
          case None
          then show ?thesis using assms(1) True False SvRecv Some by (auto simp: sv_step_def sv_recv_def token_inv_def)
        next
          case (Some pc)
          then show ?thesis using True False SvRecv \<open>got = Some msg\<close> bad dispatch_no_reg [OF Some]
            by (auto simp: sv_step_def sv_recv_def Let_def owners_of_track intro!: token_inv_put [OF assms(1)])
        qed
      qed
    qed (use assms SvRecv False in \<open>auto simp: sv_step_def\<close>)
  next
    case (SvStep t now ok)
    show ?thesis
    proof (cases "t < length (ss_threads s)")
      case True
      obtain pc s1 where c: "client_step cfg (ss_threads s ! t) now ok s = (pc, s1)" by fastforce
      have ok: "pc_ok (th_fd (ss_threads s ! t)) (th_pc (ss_threads s ! t))" using assms(2) True by (simp add: sv_inv_def)
      have "token_inv A (put_thread t pc s1)"
      proof (cases "A t")
        case True
        have o: "owners_of sp_fd (ss_srt s1) \<subseteq> insert (th_fd (ss_threads s ! t)) (owners_of sp_fd (ss_srt s))"
          "owners_of pv_fd (ss_prov s1) \<subseteq> insert (th_fd (ss_threads s ! t)) (owners_of pv_fd (ss_prov s))" "ss_threads s1 = ss_threads s"
          using client_step_owners [OF c ok] owner_step_insert by blast+
        show ?thesis by (rule token_inv_put [OF assms(1) o(3) \<open>t < length (ss_threads s)\<close>]) (use True o in simp_all)
      next
        case False
        then have "no_reg (th_pc (ss_threads s ! t))" using assms(1) True by (auto simp: token_inv_def)
        from client_step_no_reg [OF c this] show ?thesis using False True
          by (intro token_inv_put [OF assms(1)]) (auto simp: owners_held)
      qed
      then show ?thesis using True \<open>\<not> ss_down s\<close> SvStep c by (simp add: sv_step_def)
    qed (use assms SvStep False in \<open>auto simp: sv_step_def\<close>)
  next
    case (SvMonitor now ok)
    obtain pc s1 where m: "mon_step now ok s (ss_mon s) = (pc, s1)" by fastforce
    show ?thesis using assms(1) False SvMonitor mon_step_owners [OF m] m by (auto simp: sv_step_def token_inv_def)
  qed
qed (use assms in \<open>simp add: sv_step_def\<close>)

lemma sv_run_snoc: "sv_run cfg (es @ [e]) s = sv_step cfg e (sv_run cfg es s)"
  by (simp add: sv_run_def)

lemma sv_run_token_inv:
  assumes "sv_api_token cfg \<noteq> []"
  shows "token_inv (presented cfg es) (sv_run cfg es sv_init)"
proof (induction es rule: rev_induct)
  case Nil
  show ?case by (simp add: token_inv_def sv_run_def sv_init_def owners_of_def)
next
  case (snoc e es)
  have "token_inv (presented cfg (es @ [e])) (sv_run cfg es sv_init)"
    by (rule token_inv_mono [OF snoc]) (simp add: presented_snoc)
  then show ?case unfolding sv_run_snoc
    by (rule sv_step_token_inv [OF _ sv_run_inv [OF sv_init_inv] _ assms]) (simp add: presented_snoc)
qed

subsection \<open>A sample registration\<close>

definition sample_reg :: "(string \<times> string) list" where
  "sample_reg = [(''type'', ''SRT_REGISTER''), (''service_id'', ''cam''), (''srflx_ip'', ''1.2.3.4''), (''srflx_port'', show_int 4001)]"

definition sample_srt :: "int \<Rightarrow> srt_info" where
  "sample_srt fd = \<lparr>sp_service_id = ''cam'', sp_srflx_ip = ''1.2.3.4'', sp_srflx_port = 4001, sp_lan_ip = [], sp_fd = fd,
     sp_connected_at = 0, sp_has_consumer = False, sp_consumer_ip = [], sp_last_consumer = 0\<rparr>"

lemma line_ok_number: "CHR ''='' \<notin> set k \<Longrightarrow> CHR 0x0A \<notin> set k \<Longrightarrow> k \<noteq> [] \<Longrightarrow> k \<notin> set sdp_keys \<Longrightarrow> line_ok (k, show_int n)"
  using show_int_clean [of "CHR 0x0A" n] by (auto simp: line_ok_def)

lemma sample_reg_ok: "list_all line_ok sample_reg"
  using line_ok_number [of "''srflx_port''" 4001] by (simp add: sample_reg_def line_ok_def sdp_keys_def)

lemma sample_dispatch: "sv_dispatch sv_cfg_default fd ip (kv_lines sample_reg) = Some (Srt (SrtPut (sample_srt fd)))"
proof -
  have m: "map_of (rev sample_reg) = [''type'' \<mapsto> ''SRT_REGISTER'', ''service_id'' \<mapsto> ''cam'', ''srflx_ip'' \<mapsto> ''1.2.3.4'',
      ''srflx_port'' \<mapsto> show_int 4001]"
    by (auto simp: sample_reg_def fun_eq_iff)
  have n: "stoi (show_int 4001) = Some 4001" by (rule stoi_show_int) (simp_all add: int_min_def int_max_def)
  show ?thesis
    by (simp add: sv_dispatch_def Let_def msg_field_kv [OF sample_reg_ok] m on_srt_register_def stoi_or_def
        map_of_parse [OF sample_reg_ok] n bad_token_def sv_cfg_default_def sample_srt_def)
qed

definition sample_events :: "sv_event list" where
  "sample_events = [SvAccept 5 ''9.9.9.9'', SvRecv 0 (Some (kv_lines sample_reg)), SvStep 0 77 True]"

lemma sample_sv_run: "map_of (ss_srt (sv_run sv_cfg_default sample_events sv_init)) ''cam'' = Some ((sample_srt 5)\<lparr>sp_connected_at := 77\<rparr>)"
  by (simp add: sample_events_def sv_run_def sv_step_def sv_init_def sv_recv_def sample_dispatch put_thread_def client_step_def
      Let_def) (simp add: sample_srt_def)

subsection \<open>Properties\<close>

text \<open>
  C4. Whatever the clients and the network do, an entry of a registry belongs to a connection that is still
  being served: there is a thread on its descriptor that has not yet swept that registry.  An SRT entry
  is stored under its own id and carries an address a phone can be sent to.
\<close>

theorem registry_entries_served:
  assumes "s = sv_run cfg es sv_init"
  shows "(map_of (ss_srt s) sid = Some i \<longrightarrow>
      sp_service_id i = sid \<and> sid \<noteq> [] \<and> sp_srflx_ip i \<noteq> [] \<and> 0 < sp_srflx_port i
      \<and> (\<exists>th \<in> set (ss_threads s). th_fd th = sp_fd i \<and> \<not> past_srt (th_pc th)))
    \<and> (map_of (ss_prov s) sid = Some p \<longrightarrow> (\<exists>th \<in> set (ss_threads s). th_fd th = pv_fd p \<and> \<not> past_prov (th_pc th)))"
proof -
  have inv: "sv_inv s" unfolding assms by (rule sv_run_inv [OF sv_init_inv])
  have "sp_service_id i = sid \<and> valid_srt i \<and> sp_fd i \<in> serving past_srt (ss_threads s)" if "map_of (ss_srt s) sid = Some i"
    using inv map_of_SomeD [OF that] by (auto simp: sv_inv_def list_all_iff entry_ok_def owners_of_def)
  moreover have "pv_fd p \<in> serving past_prov (ss_threads s)" if "map_of (ss_prov s) sid = Some p"
    using inv map_of_SomeD [OF that] by (auto simp: sv_inv_def owners_of_def)
  ultimately show ?thesis by (force simp: serving_def valid_srt_def)
qed

theorem registry_entries_served_witness:
  "\<exists>th \<in> set (ss_threads (sv_run sv_cfg_default sample_events sv_init)). th_fd th = 5 \<and> \<not> past_srt (th_pc th)"
  using registry_entries_served [OF refl, of sv_cfg_default sample_events "''cam''" "(sample_srt 5)\<lparr>sp_connected_at := 77\<rparr>"] sample_sv_run
  by (simp add: sample_srt_def)

text \<open>
  C7. With an API token configured, a connection that has not presented it registers nothing, in either
  registry, whatever the other connections have presented and however all threads interleave with each
  other and with the ping monitor: no event of that connection adds a key to a registry or gives an
  entry to another descriptor, and every entry of a registry belongs to the descriptor of a connection
  that has sent a message with the token.
\<close>

theorem registration_needs_token:
  assumes "sv_api_token cfg \<noteq> []" "s = sv_run cfg es sv_init"
  shows "(event_of t e \<and> \<not> presented cfg (es @ [e]) t \<longrightarrow>
        held sp_fd (ss_srt (sv_step cfg e s)) \<subseteq> held sp_fd (ss_srt s)
        \<and> held pv_fd (ss_prov (sv_step cfg e s)) \<subseteq> held pv_fd (ss_prov s))
    \<and> (map_of (ss_srt s) sid = Some i \<longrightarrow>
        (\<exists>u < length (ss_threads s). presented cfg es u \<and> th_fd (ss_threads s ! u) = sp_fd i))
    \<and> (map_of (ss_prov s) sid = Some p \<longrightarrow>
        (\<exists>u < length (ss_threads s). presented cfg es u \<and> th_fd (ss_threads s ! u) = pv_fd p))"
proof -
  have inv: "token_inv (presented cfg es) s" unfolding assms(2) by (rule sv_run_token_inv [OF assms(1)])
  have "sp_fd i \<in> owners_of sp_fd (ss_srt s)" if "map_of (ss_srt s) sid = Some i"
    using map_of_SomeD [OF that] by (force simp: owners_of_def)
  moreover have "pv_fd p \<in> owners_of pv_fd (ss_prov s)" if "map_of (ss_prov s) sid = Some p"
    using map_of_SomeD [OF that] by (force simp: owners_of_def)
  moreover have "no_reg (th_pc (ss_threads s ! t))" if "\<not> presented cfg es t" "t < length (ss_threads s)"
    using inv that by (auto simp: token_inv_def)
  ultimately show ?thesis
    using inv sv_step_held [of t e s cfg] assms(1) unfolding token_inv_def presented_snoc by blast
qed

text \<open>A stranger on connection 1 sends the camera's registration without the token, beside a camera that has it.\<close>

definition token_cfg :: sv_cfg where "token_cfg = sv_cfg_default\<lparr>sv_api_token := ''secret''\<rparr>"

definition token_events :: "sv_event list" where
  "token_events = [SvAccept 5 ''9.9.9.9'', SvAccept 6 ''8.8.8.8'',
     SvRecv 0 (Some (kv_lines (sample_reg @ [(''api_token'', ''secret'')]))), SvStep 0 77 True]"

theorem registration_needs_token_witness:
  "held sp_fd (ss_srt (sv_step token_cfg (SvRecv 1 (Some (kv_lines sample_reg))) (sv_run token_cfg token_events sv_init)))
     \<subseteq> held sp_fd (ss_srt (sv_run token_cfg token_events sv_init))"
proof -
  have "list_all line_ok (sample_reg @ [(''api_token'', ''secret'')])"
    using sample_reg_ok by (simp add: line_ok_def sdp_keys_def)
  have "\<not> presented token_cfg (token_events @ [SvRecv 1 (Some (kv_lines sample_reg))]) 1"
    by (simp add: presented_def shows_token_def token_events_def msg_field_kv [OF sample_reg_ok])
      (simp add: sample_reg_def token_cfg_def sv_cfg_default_def)
  then show ?thesis
    using registration_needs_token [of token_cfg "sv_run token_cfg token_events sv_init" token_events 1
        "SvRecv 1 (Some (kv_lines sample_reg))"] by (simp add: token_cfg_def event_of_def)
qed

text \<open>
  Message round trip: any set of keys and values without line breaks, printed by the server in key
  order, parses back to exactly itself; a camera's or phone's \<open>key=value\<close> lookup finds every non-empty value.
\<close>

theorem message_roundtrip:
  assumes "key_order m" "list_all line_ok m"
  shows "parse_message (create_message m) = m"
proof -
  have "parse_message (create_message m) = foldl (\<lambda>m (k, v). map_put k v m) [] m"
    using assms by (simp add: create_kv_ok parse_kv_lines)
  then show ?thesis using puts_sorted [of "[]" m] assms(1) by simp
qed

theorem message_roundtrip_witness:
  "parse_message (create_message [(''a'', ''1=2''), (''b'', [])]) = [(''a'', ''1=2''), (''b'', [])]"
  using message_roundtrip [of "[(''a'', ''1=2''), (''b'', [])]"]
  by (simp add: key_order_def line_ok_def sdp_keys_def less_char_def)

text \<open>
  The line after an SDP block is lost unless it is the last one of the message: the parser remembers it
  but the next line overwrites it before it is stored.
\<close>

theorem key_after_sdp_lost:
  assumes "list_all line_ok (pre @ (k1, v1) # (k2, v2) # post)" "\<forall>l \<in> set ls. CHR 0x0A \<notin> set l \<and> (split_eq l = None \<or> sdp_line l)"
    "\<not> sdp_line (k1 @ CHR ''='' # v1)" "CHR 0x0A \<notin> set l0" "k1 \<notin> fst ` set (pre @ (k2, v2) # post)"
  shows "map_of (parse_message (kv_lines pre @ ''sdp'' @ CHR ''='' # l0 @ CHR 0x0A # concat (map (\<lambda>l. l @ [CHR 0x0A]) ls)
      @ kv_lines ((k1, v1) # (k2, v2) # post))) k1 = None"
proof -
  let ?pre = "foldl (\<lambda>m (k, v). map_put k v m) [] pre"
  let ?sdp = "l0 @ CHR 0x0A # concat (map (\<lambda>l. l @ [CHR 0x0A]) ls)"
  have ok: "list_all line_ok pre" "line_ok (k1, v1)" "list_all line_ok ((k2, v2) # post)" "list_all line_ok ((k1, v1) # (k2, v2) # post)"
    using assms(1) by simp_all
  define st where "st = \<lparr>ps_map = map_put ''sdp'' ?sdp ?pre, ps_key = k1, ps_val = v1, ps_multi = False\<rparr>"
  have f: "foldl sv_parse_line \<lparr>ps_map = [], ps_key = [], ps_val = [], ps_multi = False\<rparr>
      (getlines (kv_lines pre @ ''sdp'' @ CHR ''='' # l0 @ CHR 0x0A # concat (map (\<lambda>l. l @ [CHR 0x0A]) ls)
        @ kv_lines ((k1, v1) # (k2, v2) # post))) = parsed_to ((k2, v2) # post) st"
    using parse_sdp_block [OF ok(1), of "''sdp''" l0 ls "kv_lines ((k1, v1) # (k2, v2) # post)"] assms(2-4)
      getlines_kv [OF ok(4), of "[]"] ok(2) fold_kv [OF ok(3), of st]
    by (simp add: sdp_keys_def sv_parse_line_def line_ok_def st_def)
  obtain ks kl vl where last: "(k2, v2) # post = ks @ [(kl, vl)]" by (metis list.discI rev_exhaust surj_pair)
  have k: "map_of (rev ((k2, v2) # post)) k1 = None" "map_of (rev pre) k1 = None" "k1 \<noteq> ''sdp''" "k1 \<noteq> kl"
    using assms(5) ok(2) last by (auto simp: map_of_eq_None_iff line_ok_def sdp_keys_def dest!: arg_cong [of _ _ set] arg_cong [of _ _ "\<lambda>x. fst ` set x"])
  have "map_of (ps_map (parsed_to ((k2, v2) # post) st)) k1 = None"
    using k unfolding parsed_to_map map_of_puts by (simp add: st_def map_of_puts map_add_def)
  moreover have "ps_key (parsed_to ((k2, v2) # post) st) = kl" unfolding last parsed_to_snoc by simp
  ultimately show ?thesis using k(4) unfolding parse_message_def f by (auto simp: Let_def)
qed

theorem key_after_sdp_lost_witness:
  "map_of (parse_message (kv_lines [(''type'', ''REGISTER'')] @ ''sdp'' @ CHR ''='' # ''v=0'' @ CHR 0x0A # concat (map (\<lambda>l. l @ [CHR 0x0A]) [])
      @ kv_lines [(''p2p_port'', ''9''), (''codec'', ''h265'')])) ''p2p_port'' = None"
  using key_after_sdp_lost [of "[(''type'', ''REGISTER'')]" "''p2p_port''" "''9''" "''codec''" "''h265''" "[]" "[]" "''v=0''"]
  by (simp add: line_ok_def sdp_keys_def sdp_line_def starts_with_def)

end
