(* ===== verification/SigRaces.thy ===== *)
theory SigRaces
  imports SigProps CtrlSession
begin

text \<open>
  Where the signaling server's threads get in each other's way, and what one bad message does.  Each
  result is an interleaving of the server's own steps from any state that is ready for it; what the
  camera makes of what it is sent is \<open>srt_thread.c\<close>'s model.
\<close>

subsection \<open>Running one thread\<close>

lemma sv_run_simps [simp]: "sv_run cfg [] s = s" "sv_run cfg (e # es) s = sv_run cfg es (sv_step cfg e s)"
  by (simp_all add: sv_run_def)

lemma put_thread_frame [simp]:
  "ss_srt (put_thread t k s) = ss_srt s" "ss_prov (put_thread t k s) = ss_prov s" "ss_hist (put_thread t k s) = ss_hist s"
  "ss_pending (put_thread t k s) = ss_pending s" "ss_slots (put_thread t k s) = ss_slots s" "ss_subs (put_thread t k s) = ss_subs s"
  "ss_mon (put_thread t k s) = ss_mon s" "ss_open (put_thread t k s) = ss_open s" "ss_out (put_thread t k s) = ss_out s"
  "ss_closed (put_thread t k s) = ss_closed s" "ss_down (put_thread t k s) = ss_down s"
  "length (ss_threads (put_thread t k s)) = length (ss_threads s)"
  by (simp_all add: put_thread_def)

lemma put_thread_at [simp]:
  "t < length (ss_threads s) \<Longrightarrow> ss_threads (put_thread t k s) ! t = (ss_threads s ! t)\<lparr>th_pc := k\<rparr>"
  "t \<noteq> u \<Longrightarrow> ss_threads (put_thread t k s) ! u = ss_threads s ! u"
  by (simp_all add: put_thread_def)

text \<open>A step of a thread, and the two steps of a message that goes out.\<close>

lemma step_thread:
  assumes "\<not> ss_down s" "t < length (ss_threads s)" "client_step cfg (ss_threads s ! t) now ok s = (k, s1)"
  shows "sv_step cfg (SvStep t now ok) s = put_thread t k s1"
  using assms by (simp add: sv_step_def)

lemma step_send:
  assumes "\<not> ss_down s" "t < length (ss_threads s)" "th_pc (ss_threads s ! t) = SendLen fd msg k1 k2" "fd \<in> set (ss_open s)"
  shows "sv_step cfg (SvStep t now True) s = put_thread t (SendBody fd msg k1 k2) (s\<lparr>ss_out := ss_out s @ [(fd, frame_len msg)]\<rparr>)"
  using assms by (simp add: step_thread client_step_def sv_send_def)

lemma step_body:
  assumes "\<not> ss_down s" "t < length (ss_threads s)" "th_pc (ss_threads s ! t) = SendBody fd msg k1 k2" "fd \<in> set (ss_open s)"
  shows "sv_step cfg (SvStep t now True) s = put_thread t k1 (s\<lparr>ss_out := ss_out s @ [(fd, msg)],
     ss_prov := track fd (\<lambda>i. i\<lparr>pv_bytes_sent := pv_bytes_sent i + 4 + length msg\<rparr>) (ss_prov s)\<rparr>)"
  using assms by (simp add: step_thread client_step_def sv_send_def)

lemma step_send_fails:
  assumes "\<not> ss_down s" "t < length (ss_threads s)" "th_pc (ss_threads s ! t) = SendLen fd msg k1 k2" "fd \<notin> set (ss_open s) \<or> \<not> ok"
  shows "sv_step cfg (SvStep t now ok) s = put_thread t k2 s"
  using assms by (auto simp: step_thread client_step_def sv_send_def)

subsection \<open>One message ends the process\<close>

lemma down_stays: "ss_down s \<Longrightarrow> sv_run cfg es s = s"
  by (induction es) (simp_all add: sv_step_def)

text \<open>
  C17. A single message whose port is not a number ends the whole server: \<open>std::stoi\<close> throws in the thread
  of the connection and nothing catches it.  No token is needed - the number is read before the token is
  looked at - and every camera and phone loses the server; it does nothing any more.
\<close>

theorem malformed_port_ends_server:
  assumes "t < length (ss_threads s)" "th_pc (ss_threads s ! t) = Receive" "list_all line_ok kvs"
    "map_of (rev kvs) ''type'' = Some ''SRT_REGISTER'' \<or> map_of (rev kvs) ''type'' = Some ''SRT_REQUEST''"
    "map_of (rev kvs) ''srflx_port'' = Some v" "stoi v = None"
  shows "ss_down (sv_step cfg (SvRecv t (Some (kv_lines kvs))) s)
    \<and> sv_run cfg es (sv_step cfg (SvRecv t (Some (kv_lines kvs))) s) = sv_step cfg (SvRecv t (Some (kv_lines kvs))) s"
proof -
  have "sv_dispatch cfg fd ip (kv_lines kvs) = None" for fd ip
    using assms(4-6) by (auto simp: sv_dispatch_def Let_def msg_field_kv [OF assms(3)] on_srt_register_def on_srt_request_def stoi_or_def
        map_of_parse [OF assms(3)])
  then have "ss_down (sv_step cfg (SvRecv t (Some (kv_lines kvs))) s)"
    using assms(1,2) by (simp add: sv_step_def sv_recv_def Let_def)
  then show ?thesis using down_stays by blast
qed

definition bad_port :: "(string \<times> string) list" where
  "bad_port = [(''type'', ''SRT_REQUEST''), (''srflx_port'', ''x'')]"

theorem malformed_port_ends_server_witness:
  "ss_down (sv_run (sv_cfg_default\<lparr>sv_api_token := ''secret''\<rparr>)
     [SvAccept 5 ''6.6.6.6'', SvRecv 0 (Some (kv_lines bad_port)), SvAccept 6 ''9.9.9.9''] sv_init)"
proof -
  let ?s = "sv_step (sv_cfg_default\<lparr>sv_api_token := ''secret''\<rparr>) (SvAccept 5 ''6.6.6.6'') sv_init"
  have t: "0 < length (ss_threads ?s)" "th_pc (ss_threads ?s ! 0) = Receive" by (simp_all add: sv_step_def sv_init_def)
  have "stoi ''x'' = None" by (simp add: stoi_def isspace_def isdigit_def Let_def)
  from malformed_port_ends_server [OF t, of bad_port "''x''" "sv_cfg_default\<lparr>sv_api_token := ''secret''\<rparr>" "[SvAccept 6 ''9.9.9.9'']"] this
  have "ss_down (sv_step (sv_cfg_default\<lparr>sv_api_token := ''secret''\<rparr>) (SvRecv 0 (Some (kv_lines bad_port))) ?s)"
    by (simp add: bad_port_def line_ok_def sdp_keys_def)
  then show ?thesis by (simp add: sv_step_def [of _ "SvAccept 6 _"])
qed

subsection \<open>A descriptor closed twice\<close>

lemma map_of_sweep: "key_order m \<Longrightarrow> map_of (sweep own fd m) k = (case map_of m k of Some v \<Rightarrow> if own v = fd then None else Some v | None \<Rightarrow> None)"
proof (induction m arbitrary: k)
  case (Cons p m)
  obtain k' v where p: "p = (k', v)" by fastforce
  have o: "key_order m" "map_of m k' = None"
    using Cons.prems key_order_distinct [OF Cons.prems] p by (auto simp: key_order_def map_of_eq_None_iff)
  have "map_of (sweep own fd m) k' = None" using Cons.IH [OF o(1), of k'] o(2) by simp
  then show ?case using Cons.IH [OF o(1), of k] by (simp add: p sweep_def)
qed (simp add: sweep_def)

lemma drop_frame2 [simp]:
  "ss_open (drop_providers mk fd s) = ss_open s" "ss_down (drop_providers mk fd s) = ss_down s" "ss_out (drop_providers mk fd s) = ss_out s"
  by (simp_all add: drop_providers_def)

lemma leave_run:
  assumes "\<not> ss_down s" "a < length (ss_threads s)" "th_pc (ss_threads s ! a) = Receive" "th_fd (ss_threads s ! a) = f"
    "s2 = sv_run cfg [SvRecv a None, SvStep a n True, SvStep a n True, SvStep a n True, SvStep a n True] s"
  shows "ss_srt s2 = sweep sp_fd f (ss_srt s)" "ss_open s2 = removeAll f (ss_open s)"
    "j \<noteq> a \<Longrightarrow> ss_threads s2 ! j = ss_threads s ! j"
proof -
  define u where "u = put_thread a (Leave LeaveSubs) s"
  have u: "sv_step cfg (SvRecv a None) s = u" using assms(1-3) by (simp add: sv_step_def sv_recv_def u_def)
  define v where "v = put_thread a (Leave LeaveSrt) (u\<lparr>ss_subs := removeAll f (ss_subs u)\<rparr>)"
  have v: "sv_step cfg (SvStep a n True) u = v"
    using assms(1-4) by (simp add: u_def v_def step_thread client_step_def)
  define w where "w = put_thread a (Leave LeaveProv) (v\<lparr>ss_srt := sweep sp_fd f (ss_srt v)\<rparr>)"
  have w: "sv_step cfg (SvStep a n True) v = w"
    using assms(1-4) by (simp add: u_def v_def w_def step_thread client_step_def)
  define x where "x = put_thread a (Leave LeaveClose) (drop_providers (\<lambda>h. h\<lparr>hi_last_disconnect := n\<rparr>) f w)"
  have x: "sv_step cfg (SvStep a n True) w = x"
    using assms(1-4) by (simp add: u_def v_def w_def x_def step_thread client_step_def)
  have "sv_step cfg (SvStep a n True) x = put_thread a Ended (sv_close f x)"
    using assms(1-4) by (simp add: u_def v_def w_def x_def step_thread client_step_def)
  then have s2: "s2 = put_thread a Ended (sv_close f x)" by (simp add: assms(5) u v w x)
  show "ss_srt s2 = sweep sp_fd f (ss_srt s)" "ss_open s2 = removeAll f (ss_open s)"
    by (simp_all add: s2 x_def w_def v_def u_def sv_close_def)
  show "j \<noteq> a \<Longrightarrow> ss_threads s2 ! j = ss_threads s ! j"
    by (simp add: s2 x_def w_def v_def u_def)
qed

text \<open>
  C19. The ping monitor closes the descriptor of a provider that stopped answering while that connection's
  own thread still uses it.  If the kernel gives the number to the next camera before the thread ends,
  the thread's clean-up hits the new camera: its registration is swept, its connection closed, although
  nothing was wrong with it and its own thread still waits for messages.
\<close>

theorem reused_descriptor_closed:
  assumes "key_order (ss_srt s)" "\<not> ss_down s" "ss_mon s = MonClose f rest" "a < length (ss_threads s)" "th_fd (ss_threads s ! a) = f"
    "th_pc (ss_threads s ! a) = Receive" "0 \<le> f" "sv_dispatch cfg f ip msg = Some (Srt (SrtPut i))" "sp_fd i = f"
    "b = length (ss_threads s)"
    "s1 = sv_run cfg [SvMonitor n0 True, SvAccept f ip, SvRecv b (Some msg), SvStep b n1 True, SvStep b n1 True, SvStep b n1 True] s"
    "s2 = sv_run cfg [SvRecv a None, SvStep a n2 True, SvStep a n2 True, SvStep a n2 True, SvStep a n2 True] s1"
  shows "map_of (ss_srt s1) (sp_service_id i) = Some (i\<lparr>sp_connected_at := n1\<rparr>) \<and> f \<in> set (ss_open s1)
    \<and> map_of (ss_srt s2) (sp_service_id i) = None \<and> f \<notin> set (ss_open s2)
    \<and> th_fd (ss_threads s2 ! b) = f \<and> th_pc (ss_threads s2 ! b) = Receive"
proof -
  define msg2 where "msg2 = registered_msg cfg ''SRT_REGISTERED''"
  define u where "u = sv_run cfg [SvMonitor n0 True, SvAccept f ip, SvRecv b (Some msg), SvStep b n1 True] s"
  have u: "\<not> ss_down u" "ss_srt u = map_put (sp_service_id i) (i\<lparr>sp_connected_at := n1\<rparr>) (ss_srt s)" "f \<in> set (ss_open u)"
    "length (ss_threads u) = Suc b" "ss_threads u ! a = ss_threads s ! a" "th_fd (ss_threads u ! b) = f"
    "th_pc (ss_threads u ! b) = SendLen f msg2 Receive Receive"
    using assms(2-10)
    by (simp_all add: u_def msg2_def sv_step_def sv_close_def sv_recv_def Let_def client_step_def nth_append)
  have s1u: "s1 = sv_run cfg [SvStep b n1 True, SvStep b n1 True] u" by (simp add: assms(11) u_def)
  have s1: "\<not> ss_down s1" "ss_srt s1 = ss_srt u" "ss_open s1 = ss_open u" "length (ss_threads s1) = Suc b"
    "ss_threads s1 ! a = ss_threads s ! a" "th_fd (ss_threads s1 ! b) = f" "th_pc (ss_threads s1 ! b) = Receive"
    using u assms(4,10) unfolding s1u by (simp_all add: step_send step_body)
  note l = leave_run [OF s1(1), of a f s2 cfg n2]
  have "map_of (sweep sp_fd f (ss_srt s1)) (sp_service_id i) = None"
    using u(2) s1(2) assms(9) by (subst map_of_sweep) (auto intro: assms(1))
  then show ?thesis
    using l(1,2) l(3) [of b] s1 u(2,3) assms(4-6,10,12) by simp
qed

definition half_dead :: sig_server where
  "half_dead = sv_init\<lparr>ss_threads := [\<lparr>th_fd = 5, th_ip = ''1.1.1.1'', th_pc = Receive\<rparr>], ss_open := [5], ss_mon := MonClose 5 []\<rparr>"

lemma half_dead_facts:
  "key_order (ss_srt half_dead)" "\<not> ss_down half_dead" "ss_mon half_dead = MonClose 5 []" "0 < length (ss_threads half_dead)"
  "th_fd (ss_threads half_dead ! 0) = 5" "th_pc (ss_threads half_dead ! 0) = Receive" "(0 :: int) \<le> 5" "1 = length (ss_threads half_dead)"
  by (simp_all add: half_dead_def sv_init_def key_order_def)

theorem reused_descriptor_closed_witness:
  "\<exists>s2 :: sig_server. map_of (ss_srt s2) ''cam'' = None \<and> 5 \<notin> set (ss_open s2) \<and> th_pc (ss_threads s2 ! 1) = Receive"
proof -
  have s: "sp_fd (sample_srt 5) = 5" "sp_service_id (sample_srt 5) = ''cam''" by (simp_all add: sample_srt_def)
  define s1 where "s1 = sv_run sv_cfg_default [SvMonitor 1 True, SvAccept 5 ''9.9.9.9'', SvRecv 1 (Some (kv_lines sample_reg)),
      SvStep 1 2 True, SvStep 1 2 True, SvStep 1 2 True] half_dead"
  define s2 where "s2 = sv_run sv_cfg_default [SvRecv 0 None, SvStep 0 3 True, SvStep 0 3 True, SvStep 0 3 True, SvStep 0 3 True] s1"
  have "map_of (ss_srt s2) ''cam'' = None \<and> 5 \<notin> set (ss_open s2) \<and> th_pc (ss_threads s2 ! 1) = Receive"
    using reused_descriptor_closed [OF half_dead_facts(1-7) sample_dispatch s(1) half_dead_facts(8) s1_def s2_def] s(2) by simp
  then show ?thesis by blast
qed

subsection \<open>Messages the server prints\<close>

lemma map_of_filter_val: "distinct (map fst m) \<Longrightarrow> map_of (filter (\<lambda>(k, v). v \<noteq> []) m) k
    = (case map_of m k of None \<Rightarrow> None | Some v \<Rightarrow> if v = [] then None else Some v)"
  by (induction m) (auto simp: map_of_eq_None_iff image_iff split: option.splits)

lemma map_of_mk [simp]: "map_of (mk_map kvs) = map_of (rev kvs)"
  by (simp add: mk_map_def map_of_puts)

lemma set_put_subset: "set (map_put k v m) \<subseteq> insert (k, v) (set m)"
  by (induction k v m rule: map_put.induct) auto

lemma set_mk_map: "set (mk_map kvs) \<subseteq> set kvs"
proof (induction kvs rule: rev_induct)
  case (snoc p kvs)
  then show ?case using set_put_subset [of "fst p" "snd p" "mk_map kvs"] by (auto simp: mk_map_def split_def)
qed (simp add: mk_map_def)

lemma kv_get_mk:
  assumes "kv_clean kvs" "\<forall>p \<in> set kvs. fst p \<notin> set sdp_keys" "CHR ''='' \<notin> set key"
  shows "kv_get (create_message (mk_map kvs)) key cap
    = (case map_of (rev kvs) key of None \<Rightarrow> (-1, []) | Some v \<Rightarrow> if v = [] then (-1, []) else (0, bcopy cap v))"
proof -
  have c: "kv_clean (mk_map kvs)" using assms(1) set_mk_map [of kvs] by (auto simp: kv_clean_def list_all_iff)
  have "create_message (mk_map kvs) = kv_lines (mk_map kvs)"
    using assms(2) set_mk_map [of kvs] by (intro create_kv_lines) (auto simp: list_all_iff)
  moreover have "distinct (map fst (mk_map kvs))"
    unfolding mk_map_def by (rule key_order_distinct, rule key_order_puts) (simp add: key_order_def)
  ultimately show ?thesis by (simp add: kv_get_lines [OF c assms(3)] map_of_filter_val split: option.split)
qed

definition req_clean :: "srt_req \<Rightarrow> bool" where
  "req_clean r \<longleftrightarrow> plain (rq_service_id r) \<and> plain (rq_srflx_ip r) \<and> plain (rq_lan_ip r)"

lemma peer_kv:
  assumes "req_clean r" "CHR ''='' \<notin> set key"
  shows "kv_get (srt_peer_msg r) key cap
    = (case map_of (rev ([(''type'', ''SRT_PEER''), (''service_id'', rq_service_id r), (''srflx_ip'', rq_srflx_ip r),
         (''srflx_port'', show_int (rq_srflx_port r))] @ (if rq_lan_ip r \<noteq> [] then [(''lan_ip'', rq_lan_ip r)] else []))) key of
         None \<Rightarrow> (-1, []) | Some v \<Rightarrow> if v = [] then (-1, []) else (0, bcopy cap v))"
  unfolding srt_peer_msg_def
  by (rule kv_get_mk) (use assms plain_show_int [of "rq_srflx_port r"] in \<open>auto simp: req_clean_def kv_clean_def plain_def sdp_keys_def\<close>)

lemma peer_type: "req_clean r \<Longrightarrow> kv_get (srt_peer_msg r) ''type'' 64 = (0, ''SRT_PEER'')"
  by (simp add: peer_kv bcopy_def)

subsection \<open>Two writers on one socket\<close>

lemma written_step [simp]:
  "ss_out s' = ss_out s @ out \<Longrightarrow> written s' fd = written s fd @ concat (map snd (filter (\<lambda>p. fst p = fd) out))"
  by (simp add: written_def)

lemma nul_message: "kv_get (CHR 0x00 # m) key cap = (-1, [])"
  by (simp add: kv_get_def cstr_def kv_loop.simps)

lemma frame_len_nul: "length msg < 2 ^ 24 \<Longrightarrow> \<exists>r. frame_len msg = CHR 0x00 # r \<and> length r = 3"
  by (simp add: frame_len_def htonl_bytes_def char_of_eq_iff)

lemma ntohl_large: "length h = 4 \<Longrightarrow> hd h \<noteq> CHR 0x00 \<Longrightarrow> 2 ^ 24 \<le> ntohl_bytes h"
proof -
  assume "length h = 4" "hd h \<noteq> CHR 0x00"
  then obtain a b c d where h: "h = [a, b, c, d]" "a \<noteq> CHR 0x00" by (auto simp: length_Suc_conv numeral_eq_Suc)
  then have "1 \<le> (of_char a :: nat)" using of_char_eq_iff [where 'a = nat, of a "CHR 0x00"] by (cases "(of_char a :: nat) = 0") auto
  then show ?thesis by (simp add: h ntohl_bytes_def)
qed

text \<open>
  C18. Two phones that ask for the same camera at the same time: nothing orders the threads that write to its
  socket, so that both lengths can go out before both bodies.  The camera then reads a message it does
  not recognise, and next a length made of text, on which it gives the session up.
\<close>

theorem concurrent_pushes_garble:
  assumes "\<not> ss_down s" "p < length (ss_threads s)" "q < length (ss_threads s)" "p \<noteq> q" "g \<in> set (ss_open s)"
    "th_pc (ss_threads s ! p) = SendLen g m1 k1 e1" "th_pc (ss_threads s ! q) = SendLen g m2 k2 e2"
    "4 \<le> length m1" "length m1 < cap" "cap \<le> 2 ^ 24" "length m2 < 2 ^ 24" "CHR 0x00 \<notin> set m1"
    "live segs" "written (sv_run cfg [SvStep p n True, SvStep q n True, SvStep p n True, SvStep q n True] s) g = written s g @ concat segs"
  shows "\<exists>m rest. ctrl_recv segs cap = Some (m, rest) \<and> on_message scfg lan ob m cs = (cs, []) \<and> ctrl_recv rest cap = None"
proof -
  have out: "ss_out (sv_run cfg [SvStep p n True, SvStep q n True, SvStep p n True, SvStep q n True] s)
      = ss_out s @ [(g, frame_len m1), (g, frame_len m2), (g, m1), (g, m2)]"
    using assms(1-7) by (simp add: step_send step_body)
  have c: "concat segs = frame_len m1 @ frame_len m2 @ m1 @ m2" using assms(14) unfolding written_step [OF out] by simp
  define m where "m = take (length m1) (frame_len m2 @ m1 @ m2)"
  have l: "length (frame_len x) = 4" for x by (simp add: frame_len_def)
  have m1: "length m = length m1" using l [of m2] by (simp add: m_def)
  have m: "length m = length m1" "frame_len m1 = htonl_bytes (length m)"
    using assms(9,10) unfolding m1 by (simp_all add: frame_len_def)
  have "m @ drop (length m1) (frame_len m2 @ m1 @ m2) = frame_len m2 @ m1 @ m2" by (simp only: m_def append_take_drop_id)
  then have "concat segs = htonl_bytes (length m) @ m @ drop (length m1) (frame_len m2 @ m1 @ m2)"
    unfolding c m(2) by simp
  from ctrl_recv_frame [OF assms(13) this, of cap] m(1) assms(9,10) obtain rest where
    r: "ctrl_recv segs cap = Some (m, rest)" "concat rest = drop (length m1) (frame_len m2 @ m1 @ m2)" "live rest" by auto
  obtain z where "frame_len m2 = CHR 0x00 # z" using frame_len_nul [OF assms(11)] by blast
  then obtain y where "m = CHR 0x00 # y" using assms(8) by (cases m1) (auto simp: m_def)
  then have ig: "on_message scfg lan ob m cs = (cs, [])" by (simp add: on_message_def nul_message)
  have d: "concat rest = drop (length m1 - 4) m1 @ m2" using r(2) l [of m2] assms(8) by simp
  have t: "take 4 (concat rest) = drop (length m1 - 4) m1" unfolding d using assms(8) by simp
  have "hd (drop (length m1 - 4) m1) \<noteq> CHR 0x00" using assms(8,12) by (metis hd_drop_conv_nth diff_less nth_mem order.strict_trans2 zero_less_numeral)
  then have "2 ^ 24 \<le> ntohl_bytes (take 4 (concat rest))" unfolding t by (intro ntohl_large) (use assms(8) in auto)
  then have "ctrl_recv rest cap = None"
    using ctrl_read_all_concat [OF r(3), of 4] d assms(8,10) by (auto simp: ctrl_recv_def Let_def)
  then show ?thesis using r(1) ig by blast
qed

definition two_phones :: sig_server where
  "two_phones = sv_init\<lparr>ss_open := [5], ss_threads :=
     [\<lparr>th_fd = 6, th_ip = [], th_pc = SendLen 5 ''type=SRT_PEER'' Receive Receive\<rparr>,
      \<lparr>th_fd = 7, th_ip = [], th_pc = SendLen 5 ''type=SRT_PEER'' Receive Receive\<rparr>]\<rparr>"

theorem concurrent_pushes_garble_witness:
  "\<forall>ob cs. \<exists>m rest. ctrl_recv [frame_len ''type=SRT_PEER'' @ frame_len ''type=SRT_PEER'' @ ''type=SRT_PEERtype=SRT_PEER''] 4096 = Some (m, rest)
    \<and> on_message (snapshot_config ap2p_state_init) [] ob m cs = (cs, []) \<and> ctrl_recv rest 4096 = None"
proof -
  let ?evs = "[SvStep 0 1 True, SvStep 1 1 True, SvStep 0 1 True, SvStep 1 1 True]"
  have "ss_out (sv_run sv_cfg_default ?evs two_phones)
      = [(5, frame_len ''type=SRT_PEER''), (5, frame_len ''type=SRT_PEER''), (5, ''type=SRT_PEER''), (5, ''type=SRT_PEER'')]"
    by (simp add: two_phones_def sv_init_def step_send step_body)
  moreover have "ss_out two_phones = []" by (simp add: two_phones_def sv_init_def)
  ultimately have w: "written (sv_run sv_cfg_default ?evs two_phones) 5 = written two_phones 5
      @ concat [frame_len ''type=SRT_PEER'' @ frame_len ''type=SRT_PEER'' @ ''type=SRT_PEERtype=SRT_PEER'']"
    by (simp add: written_def)
  show ?thesis
    by (intro allI, rule concurrent_pushes_garble [OF _ _ _ _ _ _ _ _ _ _ _ _ _ w])
      (simp_all add: two_phones_def sv_init_def live_def)+
qed

subsection \<open>Orders the camera does not expect\<close>

text \<open>
  C39. A camera is visible before it is told that it is registered: a phone's announcement can overtake the
  acknowledgement.  The camera takes it for the answer to its registration and gives the session up.
\<close>

theorem peer_overtakes_ack:
  assumes "\<not> ss_down s" "c < length (ss_threads s)" "p < length (ss_threads s)" "c \<noteq> p"
    "th_pc (ss_threads s ! c) = Srt (SrtPut i)" "th_fd (ss_threads s ! c) = sp_fd i" "sp_fd i \<in> set (ss_open s)"
    "th_pc (ss_threads s ! p) = Srt (SrtFind r)" "rq_service_id r = sp_service_id i" "req_clean r"
    "s' = sv_run cfg [SvStep c n True, SvStep p n True, SvStep p n True, SvStep p n True, SvStep p n True,
       SvStep c n True, SvStep c n True] s"
  shows "ss_out s' = ss_out s @ [(sp_fd i, frame_len (srt_peer_msg r)), (sp_fd i, srt_peer_msg r),
      (sp_fd i, frame_len (registered_msg cfg ''SRT_REGISTERED'')), (sp_fd i, registered_msg cfg ''SRT_REGISTERED'')]
    \<and> fst (ctrl_setup scfg lan (obs\<lparr>su_ack := Some (srt_peer_msg r)\<rparr>)) = None"
proof
  define a where "a = sv_run cfg [SvStep c n True] s"
  have a: "\<not> ss_down a" "map_of (ss_srt a) (sp_service_id i) = Some (i\<lparr>sp_connected_at := n\<rparr>)" "ss_out a = ss_out s"
    "ss_open a = ss_open s" "length (ss_threads a) = length (ss_threads s)" "ss_threads a ! p = ss_threads s ! p"
    "th_pc (ss_threads a ! c) = SendLen (sp_fd i) (registered_msg cfg ''SRT_REGISTERED'') Receive Receive"
    using assms(1-6) by (simp_all add: a_def step_thread client_step_def)
  define b where "b = sv_run cfg [SvStep p n True, SvStep p n True] a"
  have b: "\<not> ss_down b" "ss_out b = ss_out s" "ss_open b = ss_open s" "length (ss_threads b) = length (ss_threads s)"
    "ss_threads b ! c = ss_threads a ! c"
    "\<exists>k1 k2. th_pc (ss_threads b ! p) = SendLen (sp_fd i) (srt_peer_msg r) k1 k2"
    using a assms(3,4,8,9) by (simp_all add: b_def step_thread client_step_def)
  have "s' = sv_run cfg [SvStep p n True, SvStep p n True, SvStep c n True, SvStep c n True] b"
    by (simp add: assms(11) a_def b_def)
  then show "ss_out s' = ss_out s @ [(sp_fd i, frame_len (srt_peer_msg r)), (sp_fd i, srt_peer_msg r),
      (sp_fd i, frame_len (registered_msg cfg ''SRT_REGISTERED'')), (sp_fd i, registered_msg cfg ''SRT_REGISTERED'')]"
    using a(7) b assms(2-4,7) by (auto simp: step_send step_body)
  show "fst (ctrl_setup scfg lan (obs\<lparr>su_ack := Some (srt_peer_msg r)\<rparr>)) = None"
    by (simp add: ctrl_setup_def Let_def peer_type [OF assms(10)] split: prod.split option.split)
qed

definition sample_phone_req :: srt_req where
  "sample_phone_req = \<lparr>rq_service_id = ''cam'', rq_srflx_ip = ''9.9.9.9'', rq_srflx_port = 777, rq_lan_ip = []\<rparr>"

definition early_phone :: sig_server where
  "early_phone = sv_init\<lparr>ss_open := [5, 6], ss_threads :=
     [\<lparr>th_fd = 5, th_ip = [], th_pc = Srt (SrtPut (sample_srt 5))\<rparr>, \<lparr>th_fd = 6, th_ip = [], th_pc = Srt (SrtFind sample_phone_req)\<rparr>]\<rparr>"

theorem peer_overtakes_ack_witness:
  "\<exists>s'. ss_out s' = [(5, frame_len (srt_peer_msg sample_phone_req)), (5, srt_peer_msg sample_phone_req),
      (5, frame_len (registered_msg sv_cfg_default ''SRT_REGISTERED'')), (5, registered_msg sv_cfg_default ''SRT_REGISTERED'')]
    \<and> (s' :: sig_server) = sv_run sv_cfg_default [SvStep 0 1 True, SvStep 1 1 True, SvStep 1 1 True, SvStep 1 1 True, SvStep 1 1 True,
       SvStep 0 1 True, SvStep 0 1 True] early_phone"
proof -
  define s' where "s' = sv_run sv_cfg_default [SvStep 0 1 True, SvStep 1 1 True, SvStep 1 1 True, SvStep 1 1 True, SvStep 1 1 True,
       SvStep 0 1 True, SvStep 0 1 True] early_phone"
  have f: "sp_fd (sample_srt 5) = 5" by (simp add: sample_srt_def)
  have "ss_out s' = ss_out early_phone @ [(sp_fd (sample_srt 5), frame_len (srt_peer_msg sample_phone_req)), (sp_fd (sample_srt 5), srt_peer_msg sample_phone_req),
      (sp_fd (sample_srt 5), frame_len (registered_msg sv_cfg_default ''SRT_REGISTERED'')),
      (sp_fd (sample_srt 5), registered_msg sv_cfg_default ''SRT_REGISTERED'')]"
    by (rule peer_overtakes_ack [OF _ _ _ _ _ _ _ _ _ _ s'_def, THEN conjunct1])
      (simp_all add: early_phone_def sv_init_def sample_srt_def sample_phone_req_def req_clean_def plain_def)
  then have "ss_out s' = [(5, frame_len (srt_peer_msg sample_phone_req)), (5, srt_peer_msg sample_phone_req),
      (5, frame_len (registered_msg sv_cfg_default ''SRT_REGISTERED'')), (5, registered_msg sv_cfg_default ''SRT_REGISTERED'')]"
    unfolding f by (simp add: early_phone_def sv_init_def)
  then show ?thesis using s'_def by blast
qed

text \<open>
  A push that fails on a camera's old connection removes whatever is registered under the id by then: when
  the camera has just registered again over a new connection, that fresh entry goes, and the camera is
  told all the same that it is registered.
\<close>

theorem stale_push_drops_fresh_entry:
  assumes "\<not> ss_down s" "c < length (ss_threads s)" "p < length (ss_threads s)" "c \<noteq> p"
    "th_pc (ss_threads s ! c) = Srt (SrtPut i)" "th_fd (ss_threads s ! c) \<in> set (ss_open s)"
    "th_pc (ss_threads s ! p) = SendLen old m k (Srt (SrtErase (sp_service_id i)))" "old \<notin> set (ss_open s)"
    "s' = sv_run cfg [SvStep c n True, SvStep p n True, SvStep p n True, SvStep c n True, SvStep c n True] s"
  shows "map_of (ss_srt s') (sp_service_id i) = None \<and> th_pc (ss_threads s' ! c) = Receive
    \<and> ss_out s' = ss_out s @ [(th_fd (ss_threads s ! c), frame_len (registered_msg cfg ''SRT_REGISTERED'')),
        (th_fd (ss_threads s ! c), registered_msg cfg ''SRT_REGISTERED'')]"
proof -
  define a where "a = sv_run cfg [SvStep c n True] s"
  have a: "\<not> ss_down a" "ss_out a = ss_out s" "ss_open a = ss_open s" "length (ss_threads a) = length (ss_threads s)"
    "ss_threads a ! p = ss_threads s ! p"
    "th_pc (ss_threads a ! c) = SendLen (th_fd (ss_threads s ! c)) (registered_msg cfg ''SRT_REGISTERED'') Receive Receive"
    using assms(1-5) by (simp_all add: a_def step_thread client_step_def)
  define b where "b = sv_run cfg [SvStep p n True, SvStep p n True] a"
  have b: "\<not> ss_down b" "ss_out b = ss_out s" "ss_open b = ss_open s" "length (ss_threads b) = length (ss_threads s)"
    "ss_threads b ! c = ss_threads a ! c" "map_of (ss_srt b) (sp_service_id i) = None"
    using a assms(3,4,7,8) by (simp_all add: b_def step_send_fails step_thread client_step_def)
  have "s' = sv_run cfg [SvStep c n True, SvStep c n True] b" by (simp add: assms(9) a_def b_def)
  then show ?thesis using a(6) b assms(2,6) by (simp add: step_send step_body)
qed

definition moved_camera :: sig_server where
  "moved_camera = sv_init\<lparr>ss_open := [5, 6], ss_threads :=
     [\<lparr>th_fd = 5, th_ip = [], th_pc = Srt (SrtPut (sample_srt 5))\<rparr>,
      \<lparr>th_fd = 6, th_ip = [], th_pc = SendLen 4 ''x'' Receive (Srt (SrtErase ''cam''))\<rparr>]\<rparr>"

theorem stale_push_drops_fresh_entry_witness:
  "\<exists>s' :: sig_server. map_of (ss_srt s') ''cam'' = None \<and> th_pc (ss_threads s' ! 0) = Receive
     \<and> s' = sv_run sv_cfg_default [SvStep 0 1 True, SvStep 1 1 True, SvStep 1 1 True, SvStep 0 1 True, SvStep 0 1 True] moved_camera"
proof -
  define s' where "s' = sv_run sv_cfg_default [SvStep 0 1 True, SvStep 1 1 True, SvStep 1 1 True, SvStep 0 1 True, SvStep 0 1 True] moved_camera"
  have n: "''cam'' = sp_service_id (sample_srt 5)" by (simp add: sample_srt_def)
  have "map_of (ss_srt s') (sp_service_id (sample_srt 5)) = None \<and> th_pc (ss_threads s' ! 0) = Receive"
    by (rule stale_push_drops_fresh_entry [OF _ _ _ _ _ _ _ _ s'_def, THEN conjunct1 [OF conj_assoc [THEN iffD2]]])
      (simp_all add: moved_camera_def sv_init_def sample_srt_def)+
  then show ?thesis using s'_def n by metis
qed

subsection \<open>The downtime statistics\<close>

text \<open>
  A service that registers twice after one disconnect is charged for the time since that disconnect at
  both: the history keeps the moment of the disconnect, so the time between the two registrations, in
  which the service was up, is counted as downtime.
\<close>

theorem downtime_counted_twice:
  assumes "map_of (ss_hist s) sid = Some h" "0 < hi_last_disconnect h" "hi_last_disconnect h \<le> n1" "n1 \<le> n2"
    "reg_step cfg fd n1 ok1 s (RegPut sid i) = (pc1, s1)" "reg_step cfg fd n2 ok2 s1 (RegPut sid i) = (pc2, s2)"
  shows "hi_downtime (hist_of (ss_hist s2) sid)
      = hi_downtime h + of_int (n1 - hi_last_disconnect h) + of_int (n1 - hi_last_disconnect h) + of_int (n2 - n1)
    \<and> hi_disconnects (hist_of (ss_hist s2) sid) = hi_disconnects h + 2"
  using assms by (auto simp: hist_register_def hist_of_def Let_def)

theorem downtime_counted_twice_witness:
  "\<forall>i. \<exists>s1 s2 pc1 pc2. reg_step sv_cfg_default 5 110 True (sv_init\<lparr>ss_hist := [(''cam'', \<lparr>hi_first_seen = 1, hi_last_disconnect = 100,
       hi_downtime = 0, hi_disconnects = 0\<rparr>)]\<rparr>) (RegPut ''cam'' i) = (pc1, s1)
     \<and> reg_step sv_cfg_default 5 500 True s1 (RegPut ''cam'' i) = (pc2, s2) \<and> hi_downtime (hist_of (ss_hist s2) ''cam'') = 410"
proof
  fix i
  let ?h = "\<lparr>hi_first_seen = 1, hi_last_disconnect = 100, hi_downtime = 0, hi_disconnects = 0\<rparr>"
  obtain pc1 s1 where 1: "reg_step sv_cfg_default 5 110 True (sv_init\<lparr>ss_hist := [(''cam'', ?h)]\<rparr>) (RegPut ''cam'' i) = (pc1, s1)" by fastforce
  obtain pc2 s2 where 2: "reg_step sv_cfg_default 5 500 True s1 (RegPut ''cam'' i) = (pc2, s2)" by fastforce
  have "hi_downtime (hist_of (ss_hist s2) ''cam'') = 410"
    using downtime_counted_twice [OF _ _ _ _ 1 2, of ?h] by (simp add: sv_init_def)
  then show "\<exists>s1 s2 pc1 pc2. reg_step sv_cfg_default 5 110 True (sv_init\<lparr>ss_hist := [(''cam'', ?h)]\<rparr>) (RegPut ''cam'' i) = (pc1, s1)
     \<and> reg_step sv_cfg_default 5 500 True s1 (RegPut ''cam'' i) = (pc2, s2) \<and> hi_downtime (hist_of (ss_hist s2) ''cam'') = 410"
    using 1 2 by blast
qed

end
