(* ===== verification/SigHttp.thy ===== *)
theory SigHttp
  imports SigMsg
begin

text \<open>
  The signaling server's dashboard (\<open>signaling_server.cpp\<close>): sessions, credentials and the router
  \<open>handle_http_request\<close>.  A request is what one \<open>recv\<close> returned; the pages and the statistics are
  constructors of \<open>http_answer\<close>, since what matters here is who is given them.  The session token that
  \<open>generate_session_token\<close> draws is part of the event, and so is the clock.
\<close>

subsection \<open>Sessions\<close>

record http_session =
  hs_created :: int
  hs_last_access :: int

type_synonym http_sessions = "(string \<times> http_session) list"

definition session_timeout :: int where "session_timeout = 3600"

definition create_session :: "string \<Rightarrow> int \<Rightarrow> http_sessions \<Rightarrow> http_sessions" where
  "create_session token now ss = map_put token \<lparr>hs_created = now, hs_last_access = now\<rparr> ss"

definition validate_session :: "string \<Rightarrow> int \<Rightarrow> http_sessions \<Rightarrow> bool \<times> http_sessions" where
  "validate_session token now ss =
     (if token = [] then (False, ss)
      else case map_of ss token of
        None \<Rightarrow> (False, ss)
      | Some h \<Rightarrow>
          if now - hs_last_access h > session_timeout then (False, map_erase token ss)
          else (True, map_adjust token (\<lambda>h. h\<lparr>hs_last_access := now\<rparr>) ss))"

definition remove_session :: "string \<Rightarrow> http_sessions \<Rightarrow> http_sessions" where
  "remove_session token ss = map_erase token ss"

subsection \<open>What a request carries\<close>

definition trim_blank :: "string \<Rightarrow> string" where
  "trim_blank s = rev (dropWhile (\<lambda>c. c \<in> {CHR '' '', CHR 0x09}) (rev (dropWhile (\<lambda>c. c \<in> {CHR '' '', CHR 0x09}) s)))"

text \<open>The text up to the next line end, or all of it.\<close>

definition to_eol :: "string \<Rightarrow> string" where
  "to_eol s = (case strstr s [CHR 0x0D, CHR 0x0A] of None \<Rightarrow> s | Some r \<Rightarrow> take (length s - length r) s)"

definition find2 :: "string \<Rightarrow> string \<Rightarrow> string \<Rightarrow> string option" where
  "find2 s a b = (case strstr s a of Some r \<Rightarrow> Some r | None \<Rightarrow> strstr s b)"

definition extract_cookie :: "string \<Rightarrow> string \<Rightarrow> string" where
  "extract_cookie request name =
     (case find2 request ''Cookie:'' ''cookie:'' of
        None \<Rightarrow> []
      | Some r \<Rightarrow>
          (case strstr (to_eol (drop 7 r)) (name @ ''='') of
             None \<Rightarrow> []
           | Some v \<Rightarrow> trim_blank (before (CHR '';'') (drop (length name + 1) v))))"

definition header_value :: "string \<Rightarrow> string \<Rightarrow> string \<Rightarrow> string" where
  "header_value request a b =
     (case find2 request a b of None \<Rightarrow> [] | Some r \<Rightarrow> trim_blank (to_eol (drop (length a) r)))"

definition extract_api_token :: "string \<Rightarrow> string" where
  "extract_api_token request =
     (let bearer = header_value request ''Authorization: Bearer '' ''authorization: Bearer '' in
      if bearer \<noteq> [] then bearer else header_value request ''X-API-Token: '' ''x-api-token: '')"

definition presents_token :: "sv_cfg \<Rightarrow> string \<Rightarrow> bool" where
  "presents_token cfg request \<longleftrightarrow> sv_api_token cfg \<noteq> [] \<and> extract_api_token request = sv_api_token cfg"

definition is_authenticated :: "sv_cfg \<Rightarrow> string \<Rightarrow> int \<Rightarrow> http_sessions \<Rightarrow> bool \<times> http_sessions" where
  "is_authenticated cfg request now ss =
     (if presents_token cfg request then (True, ss)
      else validate_session (extract_cookie request ''p2p_session'') now ss)"

text \<open>\<open>istream >> std::hex\<close> on the two characters after a percent sign.\<close>

definition hex_value :: "char \<Rightarrow> nat option" where
  "hex_value c =
     (let n = (of_char c :: nat) in
      if 48 \<le> n \<and> n \<le> 57 then Some (n - 48)
      else if 65 \<le> n \<and> n \<le> 70 then Some (n - 55)
      else if 97 \<le> n \<and> n \<le> 102 then Some (n - 87) else None)"

fun hex_digits :: "nat \<Rightarrow> string \<Rightarrow> nat" where
  "hex_digits a [] = a"
| "hex_digits a (c # cs) = (case hex_value c of None \<Rightarrow> a | Some d \<Rightarrow> hex_digits (16 * a + d) cs)"

definition read_hex :: "string \<Rightarrow> int option" where
  "read_hex s =
     (let t = dropWhile isspace s;
          neg = (t \<noteq> [] \<and> hd t = CHR ''-'');
          u = (if t \<noteq> [] \<and> hd t \<in> {CHR ''-'', CHR ''+''} then tl t else t)
      in if u = [] \<or> hex_value (hd u) = None \<or> u = ''0x'' \<or> u = ''0X'' then None
         else Some (if neg then - int (hex_digits 0 u) else int (hex_digits 0 u)))"

fun url_decode :: "string \<Rightarrow> string" where
  "url_decode (CHR ''%'' # a # b # s) =
     (case read_hex [a, b] of
        Some v \<Rightarrow> char_of (nat (v mod 256)) # url_decode s
      | None \<Rightarrow> CHR ''%'' # url_decode (a # b # s))"
| "url_decode (c # s) = (if c = CHR ''+'' then CHR '' '' else c) # url_decode s"
| "url_decode [] = []"

definition extract_form_field :: "string \<Rightarrow> string \<Rightarrow> string" where
  "extract_form_field body name =
     (case strstr body (name @ ''='') of
        None \<Rightarrow> []
      | Some r \<Rightarrow> url_decode (before (CHR ''&'') (drop (length name + 1) r)))"

definition request_body :: "string \<Rightarrow> string" where
  "request_body request = (case strstr request [CHR 0x0D, CHR 0x0A, CHR 0x0D, CHR 0x0A] of None \<Rightarrow> [] | Some r \<Rightarrow> drop 4 r)"

subsection \<open>The router\<close>

datatype http_answer =
    NoAnswer
  | LoginPage bool
  | LoggedIn string
  | LoggedOut
  | Unauthorised
  | ToLogin
  | StatsJson
  | DashboardPage
  | NotFound

definition handle_http_request :: "sv_cfg \<Rightarrow> string \<Rightarrow> int \<Rightarrow> string \<Rightarrow> http_sessions \<Rightarrow> http_answer \<times> http_sessions" where
  "handle_http_request cfg received now token ss =
     (if received = [] then (NoAnswer, ss)
      else let request = cstr (take 8191 received) in
        if starts_with ''GET /login'' request then (LoginPage False, ss)
        else if starts_with ''POST /login'' request then
          (let body = request_body request in
           if extract_form_field body ''username'' = sv_auth_username cfg \<and> extract_form_field body ''password'' = sv_auth_password cfg
           then (LoggedIn token, create_session token now ss)
           else (LoginPage True, ss))
        else if starts_with ''GET /logout'' request then
          (let session = extract_cookie request ''p2p_session'' in
           (LoggedOut, if session \<noteq> [] then remove_session session ss else ss))
        else let (ok, ss1) = is_authenticated cfg request now ss in
          if \<not> ok then (if starts_with ''GET /api/'' request then Unauthorised else ToLogin, ss1)
          else if starts_with ''GET /api/stats'' request then (StatsJson, ss1)
          else if starts_with ''GET / '' request \<or> starts_with ''GET /index.html'' request then (DashboardPage, ss1)
          else (NotFound, ss1))"

text \<open>Requests in the order in which their critical sections on the sessions come.\<close>

record http_event =
  he_received :: string
  he_now :: int
  he_token :: string

definition dash_step :: "sv_cfg \<Rightarrow> http_event \<Rightarrow> http_sessions \<Rightarrow> http_answer \<times> http_sessions" where
  "dash_step cfg e ss = handle_http_request cfg (he_received e) (he_now e) (he_token e) ss"

definition http_run :: "sv_cfg \<Rightarrow> http_event list \<Rightarrow> http_sessions" where
  "http_run cfg es = foldl (\<lambda>ss e. snd (dash_step cfg e ss)) [] es"

subsection \<open>Who holds a session\<close>

text \<open>A request that logs in: the right user name and password in a form.\<close>

definition logs_in :: "sv_cfg \<Rightarrow> http_event \<Rightarrow> bool" where
  "logs_in cfg e \<longleftrightarrow>
     (let request = cstr (take 8191 (he_received e)) in
      starts_with ''POST /login'' request
      \<and> extract_form_field (request_body request) ''username'' = sv_auth_username cfg
      \<and> extract_form_field (request_body request) ''password'' = sv_auth_password cfg)"

text \<open>A request that uses a token: it presents the session's cookie.\<close>

definition cookie_of :: "http_event \<Rightarrow> string" where
  "cookie_of e = extract_cookie (cstr (take 8191 (he_received e))) ''p2p_session''"

text \<open>A session was created by a login, and last used when it was, or when its cookie was last presented.\<close>

definition session_held :: "sv_cfg \<Rightarrow> http_event list \<Rightarrow> string \<Rightarrow> http_session \<Rightarrow> bool" where
  "session_held cfg es t h \<longleftrightarrow> (\<exists>e \<in> set es. logs_in cfg e \<and> he_token e = t)
     \<and> (\<exists>e \<in> set es. he_now e = hs_last_access h \<and> (logs_in cfg e \<and> he_token e = t \<or> cookie_of e = t))"

definition session_ok :: "sv_cfg \<Rightarrow> http_event list \<Rightarrow> http_sessions \<Rightarrow> bool" where
  "session_ok cfg es ss \<longleftrightarrow> (\<forall>t h. map_of ss t = Some h \<longrightarrow> session_held cfg es t h)"

lemma session_held_more: "session_held cfg es t h \<Longrightarrow> session_held cfg (es @ [e]) t h"
  by (auto simp: session_held_def)

lemma session_ok_change:
  assumes "session_ok cfg es ss" "\<And>x. x \<noteq> t \<Longrightarrow> map_of ss' x = map_of ss x"
    "\<And>h. map_of ss' t = Some h \<Longrightarrow> session_held cfg (es @ [e]) t h"
  shows "session_ok cfg (es @ [e]) ss'"
  unfolding session_ok_def
proof (intro allI impI)
  fix x h assume "map_of ss' x = Some h"
  then show "session_held cfg (es @ [e]) x h"
    using assms session_held_more by (cases "x = t") (auto simp: session_ok_def)
qed

lemma session_ok_mono: "session_ok cfg es ss \<Longrightarrow> (\<And>t. map_of ss' t = map_of ss t \<or> map_of ss' t = None) \<Longrightarrow> session_ok cfg (es @ [e]) ss'"
  unfolding session_ok_def using session_held_more by (metis option.distinct(1))

lemma validate_ok:
  assumes "validate_session token now ss = (b, ss')" "session_ok cfg es ss" "cookie_of e = token" "he_now e = now"
  shows "session_ok cfg (es @ [e]) ss'"
proof -
  have ext: "session_ok cfg (es @ [e]) ss" by (rule session_ok_mono [OF assms(2)]) simp
  show ?thesis
  proof (cases "map_of ss token")
    case None
    then show ?thesis using assms(1) ext by (auto simp: validate_session_def split: if_splits)
  next
    case (Some h)
    show ?thesis
    proof (cases "b")
      case True
      then have s: "ss' = map_adjust token (\<lambda>h. h\<lparr>hs_last_access := now\<rparr>) ss"
        using assms(1) Some by (auto simp: validate_session_def split: if_splits)
      show ?thesis
      proof (rule session_ok_change [OF assms(2), of token])
        fix k assume "map_of ss' token = Some k"
        then have "hs_last_access k = now" using s Some by auto
        moreover have "session_held cfg es token h" using assms(2) Some by (simp add: session_ok_def)
        ultimately show "session_held cfg (es @ [e]) token k" using assms(3,4) by (auto simp: session_held_def)
      qed (simp add: s)
    next
      case False
      then have "ss' = ss \<or> ss' = map_erase token ss" using assms(1) Some by (auto simp: validate_session_def split: if_splits)
      then show ?thesis by (intro session_ok_mono [OF assms(2)]) (auto split: if_splits)
    qed
  qed
qed

lemma dash_step_ok:
  assumes "session_ok cfg es ss"
  shows "session_ok cfg (es @ [e]) (snd (dash_step cfg e ss))"
proof -
  let ?req = "cstr (take 8191 (he_received e))"
  have same: "session_ok cfg (es @ [e]) ss" by (rule session_ok_mono [OF assms]) simp
  show ?thesis
  proof (cases "he_received e = [] \<or> starts_with ''GET /login'' ?req")
    case True
    then show ?thesis using same by (auto simp: dash_step_def handle_http_request_def Let_def)
  next
    case no: False
    show ?thesis
    proof (cases "starts_with ''POST /login'' ?req")
      case post: True
      show ?thesis
      proof (cases "logs_in cfg e")
        case True
        then have "snd (dash_step cfg e ss) = create_session (he_token e) (he_now e) ss"
          using no post by (simp add: dash_step_def handle_http_request_def logs_in_def Let_def)
        then show ?thesis
          by (intro session_ok_change [OF assms, of "he_token e"]) (use True in \<open>auto simp: create_session_def session_held_def\<close>)
      next
        case False
        then have "snd (dash_step cfg e ss) = ss" using no post by (auto simp: dash_step_def handle_http_request_def logs_in_def Let_def)
        then show ?thesis using same by simp
      qed
    next
      case post: False
      show ?thesis
      proof (cases "starts_with ''GET /logout'' ?req")
        case True
        have "snd (dash_step cfg e ss) = ss \<or> snd (dash_step cfg e ss) = map_erase (cookie_of e) ss"
          using no post True by (simp add: dash_step_def handle_http_request_def Let_def remove_session_def cookie_of_def)
        then show ?thesis by (intro session_ok_mono [OF assms]) (auto split: if_splits)
      next
        case False
        obtain b ss1 where a: "is_authenticated cfg ?req (he_now e) ss = (b, ss1)" by fastforce
        have "snd (dash_step cfg e ss) = ss1" using no post False a by (simp add: dash_step_def handle_http_request_def Let_def)
        moreover have "session_ok cfg (es @ [e]) ss1"
        proof (cases "presents_token cfg ?req")
          case True
          then show ?thesis using a same by (simp add: is_authenticated_def)
        next
          case False
          then show ?thesis using a validate_ok [OF _ assms refl refl] by (simp add: is_authenticated_def cookie_of_def)
        qed
        ultimately show ?thesis by simp
      qed
    qed
  qed
qed

lemma http_run_ok: "session_ok cfg es (http_run cfg es)"
proof (induction es rule: rev_induct)
  case (snoc e es)
  then show ?case using dash_step_ok by (simp add: http_run_def)
qed (simp add: http_run_def session_ok_def)

subsection \<open>Properties\<close>

text \<open>
  C8. The statistics and the dashboard go only to a request that carries the configured API token, or the cookie
  of a session that an earlier login with the right user name and password was given and that was last used
  at most an hour before; whatever else has been sent in between.
\<close>

theorem dashboard_needs_credentials:
  assumes "fst (dash_step cfg e (http_run cfg es)) = StatsJson \<or> fst (dash_step cfg e (http_run cfg es)) = DashboardPage"
  shows "presents_token cfg (cstr (take 8191 (he_received e)))
    \<or> (\<exists>e0 \<in> set es. logs_in cfg e0 \<and> he_token e0 = cookie_of e)
      \<and> (\<exists>e1 \<in> set es. he_now e - he_now e1 \<le> 3600 \<and> (logs_in cfg e1 \<and> he_token e1 = cookie_of e \<or> cookie_of e1 = cookie_of e))"
proof (cases "presents_token cfg (cstr (take 8191 (he_received e)))")
  case False
  then have "fst (validate_session (cookie_of e) (he_now e) (http_run cfg es))"
    using assms by (auto simp: dash_step_def handle_http_request_def is_authenticated_def Let_def cookie_of_def split: if_splits prod.splits)
  then obtain h where "map_of (http_run cfg es) (cookie_of e) = Some h" "he_now e - hs_last_access h \<le> 3600"
    by (auto simp: validate_session_def session_timeout_def split: if_splits option.splits)
  moreover have "session_ok cfg es (http_run cfg es)" by (rule http_run_ok)
  ultimately show ?thesis unfolding session_ok_def session_held_def by metis
qed simp

definition token_get :: http_event where
  "token_get = \<lparr>he_received = ''GET / HTTP'' @ [CHR 0x0D, CHR 0x0A] @ ''X-API-Token: t'' @ [CHR 0x0D, CHR 0x0A], he_now = 5, he_token = []\<rparr>"

theorem dashboard_needs_credentials_witness:
  "presents_token (sv_cfg_default\<lparr>sv_api_token := ''t''\<rparr>) (cstr (take 8191 (he_received token_get)))"
proof -
  have "fst (dash_step (sv_cfg_default\<lparr>sv_api_token := ''t''\<rparr>) token_get (http_run (sv_cfg_default\<lparr>sv_api_token := ''t''\<rparr>) [])) = DashboardPage"
    by (simp add: dash_step_def handle_http_request_def token_get_def is_authenticated_def presents_token_def extract_api_token_def
        header_value_def find2_def starts_with_def to_eol_def trim_blank_def cstr_def sv_cfg_default_def http_run_def)
  then show ?thesis using dashboard_needs_credentials [of "sv_cfg_default\<lparr>sv_api_token := ''t''\<rparr>" token_get "[]"] by simp
qed

end
