(* ===== verification/ConsumerHttp.thy ===== *)
theory ConsumerHttp
  imports Fanout
begin

text \<open>
  The rest of the cloud consumer (\<open>consumer_srt.c\<close>): its configuration file, the HTTP request a viewer
  sends, the handshake that lets the viewer into the fan-out, and the start-up that opens and closes
  the listeners.  A file is \<open>None\<close> when it cannot be opened; the bytes a viewer sends are a list, whose
  end is a closed connection or the 5 s receive timeout.
\<close>

subsection \<open>The configuration file\<close>

record config_t =
  cf_srt_port :: int
  cf_http_port :: int
  cf_stream_id :: string
  cf_http_path :: string
  cf_verify_token :: string
  cf_latency_ms :: int
  cf_verbose :: int
  cf_use_message_api :: int
  cf_passphrase_set :: bool
  cf_passphrase :: string
  cf_pbkeylen :: int

text \<open>\<open>g_cfg\<close> is static, so its strings start empty; the rest is set by \<open>load_config\<close>.\<close>

definition config_defaults :: config_t where
  "config_defaults = \<lparr>cf_srt_port = 9888, cf_http_port = 8080, cf_stream_id = [],
     cf_http_path = ''/flv/live_ch0_1.flv'', cf_verify_token = [], cf_latency_ms = 300, cf_verbose = 0,
     cf_use_message_api = 0, cf_passphrase_set = False, cf_passphrase = [], cf_pbkeylen = 16\<rparr>"

definition strip_ws :: "char \<Rightarrow> bool" where
  "strip_ws c \<longleftrightarrow> c \<in> {CHR '' '', CHR 0x09, CHR 0x0D, CHR 0x0A}"

definition strip :: "string \<Rightarrow> string" where
  "strip s = rev (dropWhile strip_ws (rev (dropWhile strip_ws s)))"

definition config_set :: "string \<Rightarrow> string \<Rightarrow> config_t \<Rightarrow> config_t" where
  "config_set k v cfg =
     (if strcaseeq k ''SRT_PORT'' then cfg\<lparr>cf_srt_port := atoi v\<rparr>
      else if strcaseeq k ''HTTP_PORT'' then cfg\<lparr>cf_http_port := atoi v\<rparr>
      else if strcaseeq k ''STREAM_ID'' then cfg\<lparr>cf_stream_id := bcopy 256 v\<rparr>
      else if strcaseeq k ''HTTP_PATH'' then cfg\<lparr>cf_http_path := bcopy 128 v\<rparr>
      else if strcaseeq k ''VERIFY_TOKEN'' then cfg\<lparr>cf_verify_token := bcopy 256 v\<rparr>
      else if strcaseeq k ''LATENCY_MS'' then cfg\<lparr>cf_latency_ms := atoi v\<rparr>
      else if strcaseeq k ''VERBOSE'' then cfg\<lparr>cf_verbose := atoi v\<rparr>
      else if strcaseeq k ''MESSAGE_API'' then cfg\<lparr>cf_use_message_api := atoi v\<rparr>
      else if strcaseeq k ''PASSPHRASE'' then cfg\<lparr>cf_passphrase := bcopy 80 v, cf_passphrase_set := True\<rparr>
      else if strcaseeq k ''PBKEYLEN'' then cfg\<lparr>cf_pbkeylen := atoi v\<rparr>
      else cfg)"

definition config_line :: "string \<Rightarrow> config_t \<Rightarrow> config_t" where
  "config_line line cfg =
     (let p = strip (cstr line) in
      if p = [] \<or> hd p \<in> {CHR ''#'', CHR '';'', CHR ''[''} then cfg
      else case after (CHR ''='') p of
        None \<Rightarrow> cfg
      | Some r \<Rightarrow> config_set (strip (before (CHR ''='') p)) (strip r) cfg)"

function config_loop :: "string \<Rightarrow> config_t \<Rightarrow> config_t" where
  "config_loop s cfg =
     (case fgets 256 s of None \<Rightarrow> cfg | Some (line, rest) \<Rightarrow> config_loop rest (config_line line cfg))"
  by pat_completeness auto

termination config_loop
  by (relation "measure (\<lambda>(s, cfg). length s)") (auto dest: fgets_progress)

declare config_loop.simps [simp del]

definition load_config :: "string option \<Rightarrow> int \<times> config_t" where
  "load_config file =
     (case file of
        None \<Rightarrow> (-1, config_defaults)
      | Some bytes \<Rightarrow>
          (let cfg = config_loop bytes config_defaults
           in (if cf_stream_id cfg = [] then -1 else 0, cfg)))"

subsection \<open>The viewer's request\<close>

definition req_end :: string where "req_end = crlf @ crlf"

definition ends_req :: "string \<Rightarrow> bool" where
  "ends_req a \<longleftrightarrow> length a \<ge> 4 \<and> drop (length a - 4) a = req_end"

primrec req_loop :: "nat \<Rightarrow> string \<Rightarrow> string \<Rightarrow> string option" where
  "req_loop outlen [] acc = None"
| "req_loop outlen (c # cs) acc =
     (if length acc + 1 < outlen
      then (let a = acc @ [c] in
        if ends_req a then Some a else req_loop outlen cs a)
      else None)"

definition read_request_line :: "nat \<Rightarrow> string \<Rightarrow> string option" where
  "read_request_line outlen input = req_loop outlen input []"

text \<open>\<open>None\<close> is -1; the path and the token, whose buffer the caller zeroed.\<close>

definition parse_path_and_verify :: "string \<Rightarrow> nat \<Rightarrow> nat \<Rightarrow> (string \<times> string) option" where
  "parse_path_and_verify req pathlen verifylen =
     (if \<not> starts_with ''GET '' req then None
      else let p = drop 4 req in
        if CHR '' '' \<notin> set p then None
        else let full = before (CHR '' '') p in
          if length full \<ge> pathlen \<or> length full \<ge> 512 then None
          else let verify = (case after (CHR ''?'') full of
                 None \<Rightarrow> []
               | Some q \<Rightarrow>
                   (case strstr q ''verify='' of
                      None \<Rightarrow> []
                    | Some vp \<Rightarrow> take (verifylen - 1) (before (CHR ''&'') (drop 7 vp))))
            in Some (bcopy pathlen (before (CHR ''?'') full), verify))"

subsection \<open>The handshake\<close>

datatype verdict = Dropped | Reply404 | Reply403 | Reply503 | Joined

definition http_handshake :: "config_t \<Rightarrow> string \<Rightarrow> int \<Rightarrow> 'a stream \<Rightarrow> verdict \<times> 'a stream" where
  "http_handshake cfg input cli s =
     (case read_request_line 2048 input of
        None \<Rightarrow> (Dropped, s)
      | Some req \<Rightarrow>
          (case parse_path_and_verify (cstr req) 256 256 of
             None \<Rightarrow> (Reply404, s)
           | Some (path, verify) \<Rightarrow>
               if path \<noteq> cf_http_path cfg then (Reply404, s)
               else if cf_verify_token cfg \<noteq> [] \<and> verify \<noteq> cf_verify_token cfg then (Reply403, s)
               else let (ok, s') = install_client s cli
                 in (if ok then Joined else Reply503, s')))"

text \<open>The socket is closed on every verdict but \<open>Joined\<close>.\<close>

definition handshake_closes :: "verdict \<Rightarrow> bool" where
  "handshake_closes v \<longleftrightarrow> v \<noteq> Joined"

subsection \<open>Listeners and start-up\<close>

text \<open>
  Descriptors opened and closed.  The results of the socket calls are inputs: \<open>socket\<close> gives a
  descriptor or fails, the others succeed or not.
\<close>

datatype sock_event = OpenTcp int | CloseTcp int | OpenSrt int | CloseSrt int | Startup | Cleanup

definition make_tcp_listener :: "int option \<Rightarrow> bool \<Rightarrow> bool \<Rightarrow> int option \<times> sock_event list" where
  "make_tcp_listener sock bind_ok listen_ok =
     (case sock of
        None \<Rightarrow> (None, [])
      | Some fd \<Rightarrow>
          if \<not> bind_ok then (None, [OpenTcp fd, CloseTcp fd])
          else if \<not> listen_ok then (None, [OpenTcp fd, CloseTcp fd])
          else (Some fd, [OpenTcp fd]))"

definition set_srt_listener_options :: "config_t \<Rightarrow> bool \<Rightarrow> bool \<Rightarrow> bool" where
  "set_srt_listener_options cfg pbk_ok pass_ok \<longleftrightarrow> \<not> cf_passphrase_set cfg \<or> pbk_ok \<and> pass_ok"

definition make_srt_listener ::
    "config_t \<Rightarrow> int option \<Rightarrow> bool \<Rightarrow> bool \<Rightarrow> bool \<Rightarrow> bool \<Rightarrow> int option \<times> sock_event list" where
  "make_srt_listener cfg sock pbk_ok pass_ok bind_ok listen_ok =
     (case sock of
        None \<Rightarrow> (None, [])
      | Some s \<Rightarrow>
          if \<not> set_srt_listener_options cfg pbk_ok pass_ok then (None, [OpenSrt s, CloseSrt s])
          else if \<not> bind_ok then (None, [OpenSrt s, CloseSrt s])
          else if \<not> listen_ok then (None, [OpenSrt s, CloseSrt s])
          else (Some s, [OpenSrt s]))"

text \<open>\<open>main\<close> up to the threads, and what it releases after a shutdown signal.\<close>

definition consumer_main ::
    "string option \<Rightarrow> bool \<Rightarrow> int option \<Rightarrow> bool \<Rightarrow> bool \<Rightarrow> bool \<Rightarrow> bool \<Rightarrow> int option \<Rightarrow> bool \<Rightarrow> bool
      \<Rightarrow> int \<times> sock_event list" where
  "consumer_main file startup_ok ssock pbk_ok pass_ok srt_bind srt_lst tcp_sock tcp_bind tcp_lst =
     (let (rc, cfg) = load_config file in
      if rc \<noteq> 0 then (1, [])
      else if \<not> startup_ok then (1, [])
      else let (srtl, e1) = make_srt_listener cfg ssock pbk_ok pass_ok srt_bind srt_lst in
        case srtl of
          None \<Rightarrow> (1, Startup # e1 @ [Cleanup])
        | Some sl \<Rightarrow>
            (let (httpl, e2) = make_tcp_listener tcp_sock tcp_bind tcp_lst in
             case httpl of
               None \<Rightarrow> (1, Startup # e1 @ e2 @ [CloseSrt sl, Cleanup])
             | Some hl \<Rightarrow> (0, Startup # e1 @ e2 @ [CloseSrt sl, CloseTcp hl, Cleanup])))"

subsection \<open>The request reader\<close>

lemma ends_req_iff: "ends_req a \<longleftrightarrow> (\<exists>b. a = b @ req_end)"
proof
  assume "ends_req a"
  then show "\<exists>b. a = b @ req_end" by (metis append_take_drop_id ends_req_def)
qed (auto simp: ends_req_def req_end_def crlf_def)

lemma req_loop_iff:
  "req_loop n cs acc = Some a \<longleftrightarrow>
     (\<exists>y z. cs = y @ z \<and> y \<noteq> [] \<and> a = acc @ y \<and> length a < n \<and> ends_req a
       \<and> (\<forall>k. 0 < k \<longrightarrow> k < length y \<longrightarrow> \<not> ends_req (acc @ take k y)))"
proof (induction cs arbitrary: acc)
  case (Cons c cs)
  let ?R = "\<lambda>y. \<forall>k. 0 < k \<longrightarrow> k < length y \<longrightarrow> \<not> ends_req (acc @ take k y)"
  show ?case
  proof (cases "length acc + 1 < n")
    case False
    then have "\<not> length (acc @ y) < n" if "y \<noteq> []" for y using that by (cases y) auto
    then show ?thesis using False by auto
  next
    case True
    show ?thesis
    proof (cases "ends_req (acc @ [c])")
      case end_now: True
      then have e: "req_loop n (c # cs) acc = Some (acc @ [c])"
        using True by (simp add: Let_def)
      show ?thesis
      proof
        assume "req_loop n (c # cs) acc = Some a"
        then have "a = acc @ [c]" using e by simp
        then show "\<exists>y z. c # cs = y @ z \<and> y \<noteq> [] \<and> a = acc @ y \<and> length a < n \<and> ends_req a \<and> ?R y"
          using True end_now by (intro exI [of _ "[c]"] exI [of _ cs]) auto
      next
        assume "\<exists>y z. c # cs = y @ z \<and> y \<noteq> [] \<and> a = acc @ y \<and> length a < n \<and> ends_req a \<and> ?R y"
        then obtain y z where y: "c # cs = y @ z" "y \<noteq> []" "a = acc @ y" "?R y" by blast
        then obtain y' where y': "y = c # y'" by (cases y) auto
        have "y' = []"
        proof (rule ccontr)
          assume "y' \<noteq> []"
          then have "\<not> ends_req (acc @ take 1 y)" using y(4) y' by (metis length_Cons length_greater_0_conv One_nat_def Suc_mono zero_less_one)
          then show False using end_now y' by simp
        qed
        then show "req_loop n (c # cs) acc = Some a" using e y(3) y' by simp
      qed
    next
      case go: False
      have e: "req_loop n (c # cs) acc = req_loop n cs (acc @ [c])"
        using True go by (simp add: Let_def)
      show ?thesis
        unfolding e Cons.IH
      proof
        assume "\<exists>y z. cs = y @ z \<and> y \<noteq> [] \<and> a = (acc @ [c]) @ y \<and> length a < n \<and> ends_req a
          \<and> (\<forall>k. 0 < k \<longrightarrow> k < length y \<longrightarrow> \<not> ends_req ((acc @ [c]) @ take k y))"
        then obtain y z where y: "cs = y @ z" "y \<noteq> []" "a = (acc @ [c]) @ y" "length a < n" "ends_req a"
          "\<forall>k. 0 < k \<longrightarrow> k < length y \<longrightarrow> \<not> ends_req ((acc @ [c]) @ take k y)" by blast
        have "\<not> ends_req (acc @ take k (c # y))" if "0 < k" "k < length (c # y)" for k
          using that y(6) go by (cases "k - 1"; cases k) auto
        then show "\<exists>y z. c # cs = y @ z \<and> y \<noteq> [] \<and> a = acc @ y \<and> length a < n \<and> ends_req a \<and> ?R y"
          using y by (intro exI [of _ "c # y"] exI [of _ z]) auto
      next
        assume "\<exists>y z. c # cs = y @ z \<and> y \<noteq> [] \<and> a = acc @ y \<and> length a < n \<and> ends_req a \<and> ?R y"
        then obtain y z where y: "c # cs = y @ z" "y \<noteq> []" "a = acc @ y" "length a < n" "ends_req a" "?R y" by blast
        then obtain y' where y': "y = c # y'" "cs = y' @ z" by (cases y) auto
        have "y' \<noteq> []" using y(3,5) y' go by auto
        moreover have "\<not> ends_req ((acc @ [c]) @ take k y')" if "0 < k" "k < length y'" for k
          using y(6) [rule_format, of "Suc k"] that y' by simp
        ultimately show "\<exists>y z. cs = y @ z \<and> y \<noteq> [] \<and> a = (acc @ [c]) @ y \<and> length a < n \<and> ends_req a
          \<and> (\<forall>k. 0 < k \<longrightarrow> k < length y \<longrightarrow> \<not> ends_req ((acc @ [c]) @ take k y))"
          using y y' by (intro exI [of _ y'] exI [of _ z]) auto
      qed
    qed
  qed
qed simp

lemma not_ends_Nil [simp]: "\<not> ends_req []"
  by (simp add: ends_req_def)

lemma read_request_iff:
  "read_request_line n input = Some req \<longleftrightarrow>
     (\<exists>rest. input = req @ rest) \<and> length req < n \<and> ends_req req
       \<and> (\<forall>k < length req. \<not> ends_req (take k req))"
proof -
  have "(\<forall>k. 0 < k \<longrightarrow> k < length req \<longrightarrow> \<not> ends_req (take k req)) \<longleftrightarrow> (\<forall>k < length req. \<not> ends_req (take k req))"
    by (metis neq0_conv not_ends_Nil take_0)
  then show ?thesis by (auto simp: read_request_line_def req_loop_iff)
qed

lemma cstr_append: "CHR 0x00 \<notin> set x \<Longrightarrow> cstr (x @ y) = x @ cstr y"
  unfolding cstr_def by (subst takeWhile_append2) auto

lemma parse_rendered:
  assumes "CHR '' '' \<notin> set path" "CHR ''?'' \<notin> set path" "CHR 0x00 \<notin> set path"
    "CHR '' '' \<notin> set tok" "CHR ''&'' \<notin> set tok" "CHR 0x00 \<notin> set tok"
    "length path + length tok + 8 < 256"
  shows "parse_path_and_verify (cstr (''GET '' @ path @ ''?verify='' @ tok @ CHR '' '' # tail)) 256 256
    = Some (path, tok)"
proof -
  let ?full = "path @ ''?verify='' @ tok"
  have c: "cstr (''GET '' @ path @ ''?verify='' @ tok @ CHR '' '' # tail) = ''GET '' @ ?full @ CHR '' '' # cstr tail"
    using assms cstr_append [of "''GET '' @ ?full @ '' ''" tail] by simp
  have sp: "CHR '' '' \<notin> set ?full" using assms by simp
  have "before (CHR '' '') (?full @ CHR '' '' # cstr tail) = ?full" by (rule before_append [OF sp])
  moreover have "after (CHR ''?'') ?full = Some (''verify='' @ tok)" "before (CHR ''?'') ?full = path"
    using after_append [OF assms(2), of "''verify='' @ tok"] before_append [OF assms(2), of "''verify='' @ tok"]
    by simp_all
  moreover have "strstr (''verify='' @ tok) ''verify='' = Some (''verify='' @ tok)"
    by (simp add: starts_with_def)
  moreover have "starts_with ''GET '' (''GET '' @ ?full @ CHR '' '' # cstr tail)"
    by (simp add: starts_with_def)
  ultimately show ?thesis
    unfolding c using assms before_no [OF assms(5)]
    by (simp add: parse_path_and_verify_def Let_def bcopy_def del: starts_with_append)
qed

subsection \<open>Bounds of the configuration\<close>

definition config_wf :: "config_t \<Rightarrow> bool" where
  "config_wf cfg \<longleftrightarrow> fits 256 (cf_stream_id cfg) \<and> fits 128 (cf_http_path cfg)
     \<and> fits 256 (cf_verify_token cfg) \<and> fits 80 (cf_passphrase cfg)
     \<and> list_all (\<lambda>i. int_min \<le> i \<and> i \<le> int_max) [cf_srt_port cfg, cf_http_port cfg, cf_latency_ms cfg,
          cf_verbose cfg, cf_use_message_api cfg, cf_pbkeylen cfg]"

lemma set_strip: "set (strip s) \<subseteq> set s"
  by (auto simp: strip_def dest!: set_dropWhileD)

lemma config_defaults_wf: "config_wf config_defaults"
  by (simp add: config_wf_def config_defaults_def fits_def int_min_def int_max_def)

lemma config_set_wf: "config_wf cfg \<Longrightarrow> CHR 0x00 \<notin> set v \<Longrightarrow> config_wf (config_set k v cfg)"
  using atoi_bounds [of v] by (auto simp: config_set_def config_wf_def)

lemma config_line_wf: "config_wf cfg \<Longrightarrow> config_wf (config_line line cfg)"
proof -
  assume wf: "config_wf cfg"
  have "CHR 0x00 \<notin> set (strip r)" if "after (CHR ''='') (strip (cstr line)) = Some r" for r
    using set_after [OF that] set_strip [of r] set_strip [of "cstr line"] cstr_no_nul [of line] by blast
  then show ?thesis
    using wf by (auto simp: config_line_def Let_def intro: config_set_wf split: option.split)
qed

lemma config_loop_wf: "config_wf cfg \<Longrightarrow> config_wf (config_loop s cfg)"
proof (induction s cfg rule: config_loop.induct)
  case (1 s cfg)
  show ?case
  proof (cases "fgets 256 s")
    case None
    then show ?thesis using "1.prems" by (simp add: config_loop.simps)
  next
    case (Some x)
    obtain l r where x: "x = (l, r)" by (cases x)
    have "config_wf (config_loop r (config_line l cfg))"
      using "1.IH" [OF Some x [symmetric]] "1.prems" config_line_wf x by auto
    then show ?thesis using Some x by (simp add: config_loop.simps [of s])
  qed
qed

subsection \<open>Properties\<close>

text \<open>
  Whatever the configuration file holds, every string of \<open>config_t\<close> fits its buffer and every
  number is an \<open>int\<close>; loading succeeds exactly when the file opens and names a stream.
\<close>

theorem load_config_spec:
  "config_wf (snd (load_config file))
    \<and> (fst (load_config file) = 0 \<longleftrightarrow> file \<noteq> None \<and> cf_stream_id (snd (load_config file)) \<noteq> [])"
  by (cases "file") (auto simp: load_config_def Let_def config_defaults_wf config_loop_wf)

text \<open>
  Only an authorised viewer reaches the fan-out: whatever bytes a connection sends, it is joined
  only after a complete request within 2,047 bytes, for the configured path, with the configured
  token if there is one, and while fewer than eight viewers are connected; every other verdict leaves
  the stream untouched.
\<close>

theorem handshake_authorised:
  "if fst (http_handshake cfg input cli s) = Joined
   then (\<exists>req. (\<exists>rest. input = req @ rest) \<and> length req < 2048 \<and> ends_req req
          \<and> (\<exists>tok. parse_path_and_verify (cstr req) 256 256 = Some (cf_http_path cfg, tok)
                 \<and> (cf_verify_token cfg = [] \<or> tok = cf_verify_token cfg)))
        \<and> n_clients s < max_http_clients
        \<and> snd (http_handshake cfg input cli s) = snd (install_client s cli)
   else snd (http_handshake cfg input cli s) = s"
proof (cases "read_request_line 2048 input")
  case None
  then show ?thesis by (simp add: http_handshake_def)
next
  case (Some req)
  have "(\<exists>rest. input = req @ rest) \<and> length req < 2048 \<and> ends_req req"
    using Some by (simp add: read_request_iff)
  then show ?thesis
    by (auto simp: http_handshake_def Some install_client_def Let_def split: option.split prod.split)
qed

text \<open>
  A viewer's well-formed request \<open>GET path?verify=token HTTP/1.1\<close> is answered exactly by the
  rules: 404 for another path, else 403 for a wrong token, else 503 when full, else joined.
\<close>

theorem handshake_of_request:
  assumes "input = req @ rest" "req = ''GET '' @ path @ ''?verify='' @ tok @ CHR '' '' # tail"
    "ends_req req" "\<forall>k < length req. \<not> ends_req (take k req)" "length req < 2048"
    "set path \<inter> {CHR '' '', CHR ''?'', CHR 0x00} = {}" "set tok \<inter> {CHR '' '', CHR ''&'', CHR 0x00} = {}"
    "length path + length tok + 8 < 256"
  shows "fst (http_handshake cfg input cli s) =
    (if path \<noteq> cf_http_path cfg then Reply404
     else if cf_verify_token cfg \<noteq> [] \<and> tok \<noteq> cf_verify_token cfg then Reply403
     else if n_clients s \<ge> max_http_clients then Reply503 else Joined)"
proof -
  have "read_request_line 2048 input = Some req" using assms(1,3-5) by (auto simp: read_request_iff)
  moreover have "parse_path_and_verify (cstr req) 256 256 = Some (path, tok)"
    unfolding assms(2) using assms(6-8) by (intro parse_rendered) auto
  ultimately show ?thesis by (simp add: http_handshake_def install_client_def)
qed

definition sample_request :: string where
  "sample_request = ''GET /f?verify=t H'' @ req_end"

lemma sample_request_ends: "ends_req sample_request \<and> (\<forall>k < length sample_request. \<not> ends_req (take k sample_request))"
  by (simp add: sample_request_def ends_req_def req_end_def crlf_def All_less_Suc numeral_eq_Suc)

theorem handshake_of_request_witness:
  "fst (http_handshake (config_defaults\<lparr>cf_http_path := ''/f'', cf_verify_token := ''t''\<rparr>) sample_request 5
     (stream_init [0 :: nat])) = Joined"
  using handshake_of_request [of sample_request sample_request "[]" "''/f''" "''t''" "CHR ''H'' # req_end"
      "config_defaults\<lparr>cf_http_path := ''/f'', cf_verify_token := ''t''\<rparr>" 5 "stream_init [0]"]
    sample_request_ends
  by (simp add: sample_request_def stream_init_def max_http_clients_def req_end_def crlf_def)

text \<open>
  Start-up leaks nothing: whichever call fails, every socket opened is closed exactly once and the
  SRT library is cleaned up whenever it was started; the exit code is 0 only if both listeners came up.
\<close>

theorem consumer_main_releases:
  "let ev = snd (consumer_main file up ssock pbk pass sb sl tsock tb tlst) in
     (\<forall>fd. count_list ev (OpenTcp fd) = count_list ev (CloseTcp fd)
         \<and> count_list ev (OpenSrt fd) = count_list ev (CloseSrt fd))
     \<and> count_list ev Startup = count_list ev Cleanup
     \<and> (fst (consumer_main file up ssock pbk pass sb sl tsock tb tlst) = 0 \<longleftrightarrow>
          fst (load_config file) = 0 \<and> up \<and> tsock \<noteq> None \<and> tb \<and> tlst \<and> ssock \<noteq> None
          \<and> (cf_passphrase_set (snd (load_config file)) \<longrightarrow> pbk \<and> pass) \<and> sb \<and> sl)"
  by (cases ssock; cases tsock) (auto simp: consumer_main_def make_srt_listener_def make_tcp_listener_def Let_def
      set_srt_listener_options_def split: prod.split)

text \<open>A run in which the HTTP port is taken: the SRT listener is closed again.\<close>

lemma sample_config:
  "load_config (Some ''STREAM_ID=x'') = (0, config_defaults\<lparr>cf_stream_id := ''x''\<rparr>)"
  by (simp add: load_config_def config_loop.simps fgets_def config_line_def strip_def strip_ws_def
      cstr_def config_set_def strcaseeq_def tolower_def bcopy_def Let_def config_defaults_def)

theorem consumer_main_releases_witness:
  "snd (consumer_main (Some ''STREAM_ID=x'') True (Some 3) True True True True (Some 4) False True)
     = [Startup, OpenSrt 3, OpenTcp 4, CloseTcp 4, CloseSrt 3, Cleanup]"
  using consumer_main_releases [of "Some ''STREAM_ID=x''" True "Some 3" True True True True "Some 4" False True]
  by (simp add: consumer_main_def sample_config make_srt_listener_def
      make_tcp_listener_def set_srt_listener_options_def config_defaults_def)

end
