(* ===== verification/Phone.thy ===== *)
theory Phone
  imports PhoneFanout ConsumerHttp Edge CtrlSession
begin

text \<open>
  The rest of the phone-side consumer (\<open>consumer_srt_p2p.c\<close>): its command line, its one exchange with
  the signaling server, the rendezvous, the HTTP handshake and \<open>main\<close>.  The discovery header it includes
  is \<open>edge_lite.h\<close>'s code and the framing and \<open>kv_get\<close> are \<open>srt_thread.c\<close>'s, so the models of
  \<open>Edge\<close> and \<open>Ctrl\<close> are used.  What \<open>main\<close> does is a list of \<open>phone_ev\<close>: descriptors opened and
  closed, the request sent, and the time in which it streams.
\<close>

subsection \<open>Command line\<close>

record phone_cfg =
  pg_signaling_host :: string
  pg_signaling_port :: int
  pg_stun_host :: string
  pg_stun_port :: int
  pg_service_id :: string
  pg_listen_ip :: string
  pg_listen_port :: int
  pg_latency_ms :: int
  pg_verbose :: int
  pg_http_path :: string

definition phone_cfg_init :: phone_cfg where
  "phone_cfg_init = \<lparr>pg_signaling_host = [], pg_signaling_port = 8888, pg_stun_host = [], pg_stun_port = 3478,
     pg_service_id = [], pg_listen_ip = ''127.0.0.1'', pg_listen_port = 0, pg_latency_ms = 300, pg_verbose = 0,
     pg_http_path = ''/flv/live.flv''\<rparr>"

text \<open>\<open>strrchr\<close> on the host buffer: the host up to the last colon, and the port behind it if there is one.\<close>

definition host_port :: "string \<Rightarrow> string \<times> int option" where
  "host_port v =
     (let host = bcopy 128 v; tail = takeWhile (\<lambda>c. c \<noteq> CHR '':'') (rev host) in
      if CHR '':'' \<in> set host then (take (length host - length tail - 1) host, Some (atoi (rev tail)))
      else (host, None))"

definition phone_arg :: "string \<Rightarrow> phone_cfg \<Rightarrow> phone_cfg" where
  "phone_arg a g =
     (case after (CHR ''='') a of
        None \<Rightarrow> g
      | Some v \<Rightarrow>
          if starts_with ''--signaling='' a then
            (let (host, port) = host_port v in
             g\<lparr>pg_signaling_host := host, pg_signaling_port := (case port of Some p \<Rightarrow> p | None \<Rightarrow> pg_signaling_port g)\<rparr>)
          else if starts_with ''--stun='' a then
            (let (host, port) = host_port v in
             g\<lparr>pg_stun_host := host, pg_stun_port := (case port of Some p \<Rightarrow> p | None \<Rightarrow> pg_stun_port g)\<rparr>)
          else if starts_with ''--service-id='' a then g\<lparr>pg_service_id := bcopy 256 v\<rparr>
          else if starts_with ''--listen='' a then
            (let (host, port) = host_port v in
             g\<lparr>pg_listen_ip := bcopy 64 host, pg_listen_port := (case port of Some p \<Rightarrow> p | None \<Rightarrow> pg_listen_port g)\<rparr>)
          else if starts_with ''--latency-ms='' a then g\<lparr>pg_latency_ms := atoi v\<rparr>
          else if starts_with ''--verbose='' a then g\<lparr>pg_verbose := atoi v\<rparr>
          else if starts_with ''--http-path='' a then g\<lparr>pg_http_path := bcopy 128 v\<rparr>
          else g)"

definition parse_args :: "string list \<Rightarrow> phone_cfg option" where
  "parse_args argv =
     (let g = fold phone_arg argv phone_cfg_init in
      if pg_signaling_host g = [] \<or> pg_stun_host g = [] \<or> pg_service_id g = [] \<or> pg_listen_port g \<le> 0 then None
      else Some g)"

subsection \<open>The exchange with the server\<close>

definition phone_request_text :: "phone_cfg \<Rightarrow> binding \<Rightarrow> string \<Rightarrow> string" where
  "phone_request_text g b lan =
     ''type=SRT_REQUEST'' @ nl @ ''service_id='' @ pg_service_id g @ nl @ ''srflx_ip='' @ srflx_ip b @ nl
     @ ''srflx_port='' @ show_int (srflx_port b) @ nl
     @ (if lan \<noteq> [] then ''lan_ip='' else []) @ lan @ (if lan \<noteq> [] then nl else [])"

definition phone_request :: "phone_cfg \<Rightarrow> binding \<Rightarrow> string \<Rightarrow> string" where
  "phone_request g b lan = bcopy 2048 (phone_request_text g b lan)"

text \<open>Where \<open>main\<close> connects to after the server's reply; \<open>None\<close> is one of its failures.\<close>

definition phone_target :: "binding \<Rightarrow> string \<Rightarrow> (string \<times> int) option" where
  "phone_target b inbuf =
     (if snd (kv_get inbuf ''type'' 64) \<noteq> ''SRT_PROVIDER'' then None
      else let ip = snd (kv_get inbuf ''srflx_ip'' 64);
               port = atoi (snd (kv_get inbuf ''srflx_port'' 16));
               lan = snd (kv_get inbuf ''lan_ip'' 64)
        in if ip = [] \<or> port \<le> 0 then None
           else Some (bcopy 64 (if srflx_ip b = ip \<and> lan \<noteq> [] then lan else ip), port))"

subsection \<open>Opening things\<close>

datatype phone_res = Udp | Signaling | SrtSock | Listener

datatype phone_ev = ResOpen phone_res int | ResClose phone_res int | PhoneSent string | Streaming

text \<open>Each call's answers, in the order of the calls; the descriptor it returns and what it did.\<close>

definition allocate_udp_socket :: "int option \<Rightarrow> bool \<Rightarrow> int option \<times> phone_ev list" where
  "allocate_udp_socket sock bound =
     (case sock of
        None \<Rightarrow> (None, [])
      | Some s \<Rightarrow> if bound then (Some s, [ResOpen Udp s]) else (None, [ResOpen Udp s, ResClose Udp s]))"

definition signaling_connect :: "bool \<Rightarrow> int option \<Rightarrow> bool \<Rightarrow> int option \<times> phone_ev list" where
  "signaling_connect resolved sock conn =
     (if \<not> resolved then (None, [])
      else case sock of
        None \<Rightarrow> (None, [])
      | Some s \<Rightarrow> if conn then (Some s, [ResOpen Signaling s]) else (None, [ResOpen Signaling s, ResClose Signaling s]))"

definition phone_listener :: "int option \<Rightarrow> bool \<Rightarrow> bool \<Rightarrow> int option \<times> phone_ev list" where
  "phone_listener sock bound listening =
     (case sock of
        None \<Rightarrow> (None, [])
      | Some s \<Rightarrow> if bound \<and> listening then (Some s, [ResOpen Listener s]) else (None, [ResOpen Listener s, ResClose Listener s]))"

record phone_rdv =
  pr_create :: "int option"
  pr_options :: "bool list"
  pr_bind :: bool
  pr_resolve :: bool
  pr_connect :: bool

definition set_srt_options_phone :: "phone_cfg \<Rightarrow> bool list \<Rightarrow> bool" where
  "set_srt_options_phone g oks \<longleftrightarrow> (\<forall>b \<in> set (take (if pg_service_id g \<noteq> [] then 8 else 7) oks). b)"

definition phone_rendezvous_connect :: "phone_cfg \<Rightarrow> phone_rdv \<Rightarrow> int option \<times> phone_ev list" where
  "phone_rendezvous_connect g r =
     (case pr_create r of
        None \<Rightarrow> (None, [])
      | Some s \<Rightarrow>
          if set_srt_options_phone g (pr_options r) \<and> pr_bind r \<and> pr_resolve r \<and> pr_connect r
          then (Some s, [ResOpen SrtSock s])
          else (None, [ResOpen SrtSock s, ResClose SrtSock s]))"

subsection \<open>The handshake of a local player\<close>

text \<open>True when the connection joins the fan-out, which may still refuse it; else it is closed.\<close>

definition phone_handshake :: "string \<Rightarrow> bool" where
  "phone_handshake input =
     (case read_request_line 2048 input of None \<Rightarrow> False | Some req \<Rightarrow> starts_with ''GET '' req)"

subsection \<open>The program\<close>

record phone_obs =
  po_startup :: bool
  po_udp :: "int option"
  po_udp_bound :: bool
  po_srflx :: "binding option"
  po_lan :: string
  po_resolved :: bool
  po_sig :: "int option"
  po_sig_up :: bool
  po_sent :: bool
  po_reply :: "string option"
  po_rdv :: phone_rdv
  po_listen :: "int option"
  po_bound :: bool
  po_listening :: bool

text \<open>The exit code and what was done; the target of the rendezvous is \<open>phone_target\<close>'s.\<close>

definition phone_stream :: "phone_cfg \<Rightarrow> phone_obs \<Rightarrow> int \<times> phone_ev list" where
  "phone_stream g ob =
     (case phone_rendezvous_connect g (po_rdv ob) of
        (None, ev) \<Rightarrow> (1, ev)
      | (Some s, ev) \<Rightarrow>
          (case phone_listener (po_listen ob) (po_bound ob) (po_listening ob) of
             (None, ev1) \<Rightarrow> (1, ev @ ev1 @ [ResClose SrtSock s])
           | (Some l, ev1) \<Rightarrow> (0, ev @ ev1 @ [Streaming, ResClose Listener l, ResClose SrtSock s])))"

definition phone_ask :: "phone_cfg \<Rightarrow> phone_obs \<Rightarrow> int \<Rightarrow> binding \<Rightarrow> int \<times> phone_ev list" where
  "phone_ask g ob udp b =
     (case signaling_connect (po_resolved ob) (po_sig ob) (po_sig_up ob) of
        (None, ev) \<Rightarrow> (1, ev @ [ResClose Udp udp])
      | (Some c, ev) \<Rightarrow>
          let ev1 = ev @ [PhoneSent (phone_request g b (po_lan ob))]; quit = [ResClose Signaling c, ResClose Udp udp] in
          if \<not> po_sent ob then (1, ev1 @ quit)
          else case po_reply ob of
            None \<Rightarrow> (1, ev1 @ quit)
          | Some inbuf \<Rightarrow>
              if inbuf = [] then (1, ev1 @ quit)
              else case phone_target b inbuf of
                None \<Rightarrow> (1, ev1 @ quit)
              | Some t \<Rightarrow> (let (rc, ev2) = phone_stream g ob in (rc, ev1 @ quit @ ev2)))"

definition phone_main :: "string list \<Rightarrow> phone_obs \<Rightarrow> int \<times> phone_ev list" where
  "phone_main argv ob =
     (case parse_args argv of
        None \<Rightarrow> (1, [])
      | Some g \<Rightarrow>
          if \<not> po_startup ob then (1, [])
          else case allocate_udp_socket (po_udp ob) (po_udp_bound ob) of
            (None, ev) \<Rightarrow> (1, ev)
          | (Some udp, ev) \<Rightarrow>
              (case po_srflx ob of
                 None \<Rightarrow> (1, ev @ [ResClose Udp udp])
               | Some b \<Rightarrow> (let (rc, ev1) = phone_ask g ob udp b in (rc, ev @ ev1))))"

subsection \<open>Lemmas\<close>

primrec res_opened :: "phone_ev list \<Rightarrow> (phone_res \<times> int) list" where
  "res_opened [] = []"
| "res_opened (e # es) = (case e of ResOpen r f \<Rightarrow> [(r, f)] | _ \<Rightarrow> []) @ res_opened es"

primrec res_closed :: "phone_ev list \<Rightarrow> (phone_res \<times> int) list" where
  "res_closed [] = []"
| "res_closed (e # es) = (case e of ResClose r f \<Rightarrow> [(r, f)] | _ \<Rightarrow> []) @ res_closed es"

lemma res_append [simp]:
  "res_opened (a @ b) = res_opened a @ res_opened b" "res_closed (a @ b) = res_closed a @ res_closed b"
  by (induction a) auto

text \<open>How often a descriptor was opened minus how often it was closed.\<close>

definition held :: "phone_ev list \<Rightarrow> phone_res \<times> int \<Rightarrow> int" where
  "held ev x = int (count_list (res_opened ev) x) - int (count_list (res_closed ev) x)"

lemma held_append [simp]: "held (a @ b) x = held a x + held b x"
  by (simp add: held_def)

lemma held_events [simp]:
  "held [] x = 0" "held (ResOpen r f # es) x = (if x = (r, f) then 1 else 0) + held es x"
  "held (ResClose r f # es) x = held es x - (if x = (r, f) then 1 else 0)"
  "held (PhoneSent m # es) x = held es x" "held (Streaming # es) x = held es x"
  by (simp_all add: held_def)

lemma phone_stream_held: "phone_stream g ob = (rc, ev) \<Longrightarrow> held ev x = 0"
  by (auto simp: phone_stream_def phone_rendezvous_connect_def phone_listener_def split: option.splits if_splits)

lemma phone_ask_held: "phone_ask g ob udp b = (rc, ev) \<Longrightarrow> held ev x = (if x = (Udp, udp) then -1 else 0)"
  by (auto simp: phone_ask_def signaling_connect_def Let_def phone_stream_held split: option.splits if_splits prod.splits)

lemma host_port_text:
  assumes "length h + 1 + length (show_int p) < 128" "int_min \<le> p" "p \<le> int_max"
  shows "host_port (h @ CHR '':'' # show_int p) = (h, Some p)"
proof -
  have c: "CHR '':'' \<notin> set (show_int p)" using show_int_chars [of "CHR '':''" p] by (auto simp: isdigit_def)
  have b: "bcopy 128 (h @ CHR '':'' # show_int p) = h @ CHR '':'' # show_int p" by (rule bcopy_short) (use assms(1) in simp)
  have "takeWhile (\<lambda>c. c \<noteq> CHR '':'') (rev (h @ CHR '':'' # show_int p)) = rev (show_int p)"
    using c takeWhile_append2 [of "rev (show_int p)" "\<lambda>c. c \<noteq> CHR '':''" "CHR '':'' # rev h"] by auto
  then show ?thesis using atoi_show_int [OF assms(2,3)] by (simp add: host_port_def b Let_def)
qed

definition option_text :: "string \<Rightarrow> string \<Rightarrow> int \<Rightarrow> string" where
  "option_text opt host port = opt @ host @ CHR '':'' # show_int port"

lemma parse_args_text:
  assumes "length sh + 1 + length (show_int sp) < 128" "length th + 1 + length (show_int tp) < 128"
    "length lh + 1 + length (show_int lp) < 128" "length lh < 64" "length sid < 256" "sh \<noteq> []" "th \<noteq> []" "sid \<noteq> []"
    "int_min \<le> sp" "sp \<le> int_max" "int_min \<le> tp" "tp \<le> int_max" "0 < lp" "lp \<le> int_max"
  shows "parse_args [option_text ''--signaling='' sh sp, option_text ''--stun='' th tp, ''--service-id='' @ sid, option_text ''--listen='' lh lp]
    = Some \<lparr>pg_signaling_host = sh, pg_signaling_port = sp, pg_stun_host = th, pg_stun_port = tp, pg_service_id = sid,
        pg_listen_ip = lh, pg_listen_port = lp, pg_latency_ms = 300, pg_verbose = 0, pg_http_path = ''/flv/live.flv''\<rparr>"
proof -
  have l: "int_min \<le> lp" using assms(13) by (simp add: int_min_def)
  note h = host_port_text [OF assms(1,9,10)] host_port_text [OF assms(2,11,12)] host_port_text [OF assms(3) l assms(14)]
  have a1: "phone_arg (option_text ''--signaling='' sh sp) g = g\<lparr>pg_signaling_host := sh, pg_signaling_port := sp\<rparr>" for g
    by (simp add: phone_arg_def option_text_def h starts_with_def)
  have a2: "phone_arg (option_text ''--stun='' th tp) g = g\<lparr>pg_stun_host := th, pg_stun_port := tp\<rparr>" for g
    by (simp add: phone_arg_def option_text_def h starts_with_def)
  have a3: "phone_arg (''--service-id='' @ sid) g = g\<lparr>pg_service_id := sid\<rparr>" for g
    using assms(5) by (simp add: phone_arg_def starts_with_def bcopy_def)
  have a4: "phone_arg (option_text ''--listen='' lh lp) g = g\<lparr>pg_listen_ip := lh, pg_listen_port := lp\<rparr>" for g
    using assms(4) by (simp add: phone_arg_def option_text_def h starts_with_def bcopy_def)
  show ?thesis using assms(6-8,13) by (simp only: parse_args_def fold.simps o_apply id_apply a1 a2 a3 a4) (simp add: phone_cfg_init_def)
qed

subsection \<open>Properties\<close>

text \<open>
  Whatever fails on the way, the phone's consumer closes everything it opened - the discovery socket, the
  signaling connection, the SRT socket and the listener - and it streams exactly when it exits with 0.
\<close>

theorem phone_main_releases:
  assumes "phone_main argv ob = (rc, ev)"
  shows "mset (res_opened ev) = mset (res_closed ev) \<and> (rc = 0 \<or> rc = 1) \<and> (rc = 0 \<longleftrightarrow> Streaming \<in> set ev)"
proof
  have "held ev x = 0" for x
    using assms by (auto simp: phone_main_def allocate_udp_socket_def phone_ask_held split: option.splits if_splits prod.splits)
  then have "count_list (res_opened ev) x = count_list (res_closed ev) x" for x by (simp add: held_def)
  then show "mset (res_opened ev) = mset (res_closed ev)" by (intro multiset_eqI) (simp add: count_mset)
  have s: "phone_stream g ob = (r, e) \<Longrightarrow> (r = 0 \<or> r = 1) \<and> (r = 0 \<longleftrightarrow> Streaming \<in> set e)" for g r e
    by (auto simp: phone_stream_def phone_rendezvous_connect_def phone_listener_def split: option.splits if_splits)
  then show "(rc = 0 \<or> rc = 1) \<and> (rc = 0 \<longleftrightarrow> Streaming \<in> set ev)"
    using assms by (auto simp: phone_main_def phone_ask_def allocate_udp_socket_def signaling_connect_def Let_def
        split: option.splits if_splits prod.splits)
qed

definition sample_phone_obs :: phone_obs where
  "sample_phone_obs = \<lparr>po_startup = True, po_udp = Some 3, po_udp_bound = True, po_srflx = None, po_lan = [], po_resolved = True,
     po_sig = None, po_sig_up = False, po_sent = False, po_reply = None,
     po_rdv = \<lparr>pr_create = None, pr_options = [], pr_bind = False, pr_resolve = False, pr_connect = False\<rparr>,
     po_listen = None, po_bound = False, po_listening = False\<rparr>"

definition sample_args :: "string list" where
  "sample_args = [option_text ''--signaling='' ''s.example'' 8888, option_text ''--stun='' ''t.example'' 3478, ''--service-id='' @ ''cam'',
     option_text ''--listen='' ''127.0.0.1'' 8090]"

text \<open>
  The command line round trip: what a launcher writes for hosts, ports, service id and listening address
  is what the program runs with, as long as each text fits its buffer; a host may contain colons itself.
\<close>

theorem phone_args_roundtrip:
  assumes "length sh + 1 + length (show_int sp) < 128" "length th + 1 + length (show_int tp) < 128"
    "length lh + 1 + length (show_int lp) < 128" "length lh < 64" "length sid < 256" "sh \<noteq> []" "th \<noteq> []" "sid \<noteq> []"
    "int_min \<le> sp" "sp \<le> int_max" "int_min \<le> tp" "tp \<le> int_max" "0 < lp" "lp \<le> int_max"
  shows "parse_args [option_text ''--signaling='' sh sp, option_text ''--stun='' th tp, ''--service-id='' @ sid, option_text ''--listen='' lh lp]
    = Some \<lparr>pg_signaling_host = sh, pg_signaling_port = sp, pg_stun_host = th, pg_stun_port = tp, pg_service_id = sid,
        pg_listen_ip = lh, pg_listen_port = lp, pg_latency_ms = 300, pg_verbose = 0, pg_http_path = ''/flv/live.flv''\<rparr>"
  by (rule parse_args_text [OF assms])

lemma sample_args_lengths:
  "length ''s.example'' + 1 + length (show_int 8888) < 128" "length ''t.example'' + 1 + length (show_int 3478) < 128"
  "length ''127.0.0.1'' + 1 + length (show_int 8090) < 128"
  using length_show_int [of 8888] length_show_int [of 3478] length_show_int [of 8090] by (simp_all add: int_min_def int_max_def)

theorem phone_args_roundtrip_witness: "\<exists>g. parse_args sample_args = Some g \<and> pg_stun_host g = ''t.example'' \<and> pg_listen_port g = 8090"
  unfolding sample_args_def
  by (subst phone_args_roundtrip) (use sample_args_lengths in \<open>simp_all add: int_min_def int_max_def\<close>)

lemma sample_args_ok: "\<exists>g. parse_args sample_args = Some g"
  unfolding sample_args_def by (subst parse_args_text) (use sample_args_lengths in \<open>simp_all add: int_min_def int_max_def\<close>)

theorem phone_main_releases_witness:
  "\<exists>rc ev. phone_main sample_args sample_phone_obs = (rc, ev) \<and> ev = [ResOpen Udp 3, ResClose Udp 3] \<and> mset (res_opened ev) = mset (res_closed ev)"
proof -
  obtain rc ev where m: "phone_main sample_args sample_phone_obs = (rc, ev)" by fastforce
  moreover obtain g where "parse_args sample_args = Some g" using sample_args_ok by blast
  ultimately have "ev = [ResOpen Udp 3, ResClose Udp 3]"
    by (simp add: phone_main_def sample_phone_obs_def allocate_udp_socket_def)
  then show ?thesis using m phone_main_releases [OF m] by blast
qed

end
