(* ===== verification/Rendezvous.thy ===== *)
theory Rendezvous
  imports SigRaces Phone
begin

text \<open>
  Camera, signaling server and phone together: the registration \<open>srt_thread.c\<close> writes, the request
  \<open>consumer_srt_p2p.c\<close> writes, the server's two threads between them, and what both ends read.  Addresses
  are those of the discovery, \<open>endpoint_ok\<close> says that they and the service id are texts that fit their buffers.
\<close>

definition endpoint_ok :: "string \<Rightarrow> binding \<Rightarrow> string \<Rightarrow> bool" where
  "endpoint_ok sid b lan \<longleftrightarrow> plain sid \<and> plain (srflx_ip b) \<and> plain lan \<and> sid \<noteq> [] \<and> srflx_ip b \<noteq> []
     \<and> length sid < 64 \<and> length (srflx_ip b) < 64 \<and> length lan < 64 \<and> 0 < srflx_port b \<and> srflx_port b \<le> 65535"

definition server_plain :: "sv_cfg \<Rightarrow> bool" where
  "server_plain cfg \<longleftrightarrow> plain (sv_turn_host cfg) \<and> plain (sv_turn_username cfg) \<and> plain (sv_turn_password cfg)"

subsection \<open>The messages\<close>

lemma endpoint_port: "endpoint_ok sid b lan \<Longrightarrow> int_min \<le> srflx_port b \<and> srflx_port b \<le> int_max"
  by (simp add: endpoint_ok_def int_min_def int_max_def)

lemma plain_types [simp]: "plain ''SRT_REGISTER''" "plain ''SRT_REQUEST''"
  by (simp_all add: plain_def)

lemma plain_line_ok: "plain v \<Longrightarrow> k \<noteq> [] \<Longrightarrow> CHR ''='' \<notin> set k \<Longrightarrow> CHR 0x0A \<notin> set k \<Longrightarrow> k \<notin> set sdp_keys \<Longrightarrow> line_ok (k, v)"
  by (simp add: plain_def line_ok_def)

definition camera_entry :: "srt_cfg \<Rightarrow> binding \<Rightarrow> string \<Rightarrow> int \<Rightarrow> srt_info" where
  "camera_entry cam b lan fd = \<lparr>sp_service_id = sc_node_id cam, sp_srflx_ip = srflx_ip b, sp_srflx_port = srflx_port b,
     sp_lan_ip = lan, sp_fd = fd, sp_connected_at = 0, sp_has_consumer = False, sp_consumer_ip = [], sp_last_consumer = 0\<rparr>"

text \<open>The server takes the camera's registration for what it is.\<close>

lemma register_dispatch:
  assumes "endpoint_ok (sc_node_id cam) b lan" "plain (sc_ctrl_token cam)" "length (sc_ctrl_token cam) < 128"
    "sv_api_token cfg = [] \<or> sv_api_token cfg = sc_ctrl_token cam"
  shows "sv_dispatch cfg fd ip (register_msg cam b lan) = Some (Srt (SrtPut (camera_entry cam b lan fd)))"
proof -
  note p = endpoint_port [OF assms(1)]
  have m: "register_msg cam b lan = kv_lines (register_kvs cam b lan)"
    using register_text_length [of cam b lan] assms(1,3) p
    by (simp add: register_msg_def bcopy_def register_text_kvs [symmetric] endpoint_ok_def)
  have ok: "list_all line_ok (register_kvs cam b lan)"
    using assms(1,2) plain_show_int [of "srflx_port b"]
    by (auto simp: register_kvs_def endpoint_ok_def sdp_keys_def intro!: plain_line_ok)
  have f: "map_of (rev (register_kvs cam b lan)) = (\<lambda>k.
      if k = ''api_token'' then (if sc_ctrl_token cam = [] then None else Some (sc_ctrl_token cam))
      else if k = ''lan_ip'' then (if lan = [] then None else Some lan)
      else if k = ''srflx_port'' then Some (show_int (srflx_port b)) else if k = ''srflx_ip'' then Some (srflx_ip b)
      else if k = ''service_id'' then Some (sc_node_id cam) else if k = ''type'' then Some ''SRT_REGISTER'' else None)"
    by (auto simp: register_kvs_def fun_eq_iff)
  have st: "stoi (show_int (srflx_port b)) = Some (srflx_port b)" using stoi_show_int p by blast
  have tok: "\<not> bad_token cfg (parse_message (kv_lines (register_kvs cam b lan)))"
    using assms(4) by (auto simp: bad_token_def msg_field_kv [OF ok] f)
  have "sc_node_id cam \<noteq> []" "srflx_ip b \<noteq> []" "\<not> srflx_port b \<le> 0" using assms(1) by (simp_all add: endpoint_ok_def)
  then show ?thesis
    unfolding m sv_dispatch_def Let_def on_srt_register_def stoi_or_def
    by (simp add: msg_field_kv [OF ok] map_of_parse [OF ok] f st tok camera_entry_def)
qed

definition phone_kvs :: "phone_cfg \<Rightarrow> binding \<Rightarrow> string \<Rightarrow> (string \<times> string) list" where
  "phone_kvs g b lan =
     [(''type'', ''SRT_REQUEST''), (''service_id'', pg_service_id g), (''srflx_ip'', srflx_ip b),
      (''srflx_port'', show_int (srflx_port b))] @ (if lan \<noteq> [] then [(''lan_ip'', lan)] else [])"

definition phone_req :: "phone_cfg \<Rightarrow> binding \<Rightarrow> string \<Rightarrow> srt_req" where
  "phone_req g b lan = \<lparr>rq_service_id = pg_service_id g, rq_srflx_ip = srflx_ip b, rq_srflx_port = srflx_port b, rq_lan_ip = lan\<rparr>"

lemma request_dispatch:
  assumes "endpoint_ok (pg_service_id g) b lan"
  shows "sv_dispatch cfg fd ip (phone_request g b lan) = Some (Srt (SrtFind (phone_req g b lan)))"
proof -
  note p = endpoint_port [OF assms]
  have "length (show_int (srflx_port b)) \<le> 11" using length_show_int p by blast
  then have "length (phone_request_text g b lan) < 2048"
    using assms by (simp add: phone_request_text_def nl_def endpoint_ok_def)
  then have "phone_request g b lan = phone_request_text g b lan" by (simp add: phone_request_def bcopy_short)
  then have m: "phone_request g b lan = kv_lines (phone_kvs g b lan)"
    by (simp add: phone_request_text_def phone_kvs_def kv_lines_def nl_def)
  have ok: "list_all line_ok (phone_kvs g b lan)"
    using assms plain_show_int [of "srflx_port b"] by (auto simp: phone_kvs_def endpoint_ok_def sdp_keys_def intro!: plain_line_ok)
  have f: "map_of (rev (phone_kvs g b lan)) = (\<lambda>k. if k = ''lan_ip'' then (if lan = [] then None else Some lan)
      else if k = ''srflx_port'' then Some (show_int (srflx_port b)) else if k = ''srflx_ip'' then Some (srflx_ip b)
      else if k = ''service_id'' then Some (pg_service_id g) else if k = ''type'' then Some ''SRT_REQUEST'' else None)"
    by (auto simp: phone_kvs_def fun_eq_iff)
  have st: "stoi (show_int (srflx_port b)) = Some (srflx_port b)" using stoi_show_int p by blast
  have "pg_service_id g \<noteq> []" "srflx_ip b \<noteq> []" "\<not> srflx_port b \<le> 0" using assms by (simp_all add: endpoint_ok_def)
  then show ?thesis
    unfolding m sv_dispatch_def Let_def on_srt_request_def stoi_or_def
    by (simp add: msg_field_kv [OF ok] map_of_parse [OF ok] f st phone_req_def)
qed

text \<open>What the camera makes of the announcement.\<close>

lemma peer_request_of_push:
  assumes "endpoint_ok (pg_service_id g) b lan"
  shows "\<exists>req. peer_request cs (srt_peer_msg (phone_req g b lan)) = Some req \<and> pr_peer_port req = srflx_port b
    \<and> pr_peer_ip req = (if lan \<noteq> [] \<and> srflx_ip (cs_srflx cs) = srflx_ip b then lan else srflx_ip b)"
proof -
  have c: "req_clean (phone_req g b lan)" using assms by (simp add: req_clean_def phone_req_def endpoint_ok_def)
  have n: "length (show_int (srflx_port b)) \<le> 11" "atoi (show_int (srflx_port b)) = srflx_port b"
    using length_show_int atoi_show_int endpoint_port [OF assms] by blast+
  have e: "srflx_ip b \<noteq> []" "length (srflx_ip b) < 64" "length lan < 64" "0 < srflx_port b" using assms by (simp_all add: endpoint_ok_def)
  define r where "r = phone_req g b lan"
  have r: "rq_srflx_ip r = srflx_ip b" "rq_srflx_port r = srflx_port b" "rq_lan_ip r = lan" by (simp_all add: r_def phone_req_def)
  have k: "snd (kv_get (srt_peer_msg r) ''srflx_ip'' 64) = srflx_ip b"
    "snd (kv_get (srt_peer_msg r) ''srflx_port'' 16) = show_int (srflx_port b)" "snd (kv_get (srt_peer_msg r) ''lan_ip'' 64) = lan"
    using e n(1) c [folded r_def] by (simp_all add: peer_kv r bcopy_def)
  show ?thesis using e n(2) by (simp add: r_def [symmetric] peer_request_def k bcopy_def Let_def)
qed

lemma plain_turn: "server_plain cfg \<Longrightarrow> p \<in> set (turn_fields cfg) \<Longrightarrow> plain (snd p) \<and> fst p \<notin> {''type'', ''srflx_ip'', ''srflx_port'', ''lan_ip''}
    \<and> fst p \<notin> set sdp_keys \<and> CHR ''='' \<notin> set (fst p) \<and> plain (fst p)"
  by (auto simp: turn_fields_def server_plain_def plain_show_int sdp_keys_def split: if_splits) (simp_all add: plain_def)

lemma turn_absent: "key \<in> {''type'', ''srflx_ip'', ''srflx_port'', ''lan_ip''} \<Longrightarrow> map_of (rev (turn_fields cfg)) key = None"
  by (auto simp: turn_fields_def)

lemma registered_type: "server_plain cfg \<Longrightarrow> snd (kv_get (registered_msg cfg ''SRT_REGISTERED'') ''type'' 64) = ''SRT_REGISTERED''"
proof -
  assume s: "server_plain cfg"
  have "kv_clean ([(''type'', ''SRT_REGISTERED''), (''status'', ''ok'')] @ turn_fields cfg)"
    using plain_turn [OF s] by (auto simp: kv_clean_def list_all_iff plain_def)
  moreover have "\<forall>p \<in> set ([(''type'', ''SRT_REGISTERED''), (''status'', ''ok'')] @ turn_fields cfg). fst p \<notin> set sdp_keys"
    using plain_turn [OF s] by (auto simp: sdp_keys_def)
  ultimately show ?thesis unfolding registered_msg_def
    by (subst kv_get_mk) (simp_all add: turn_absent bcopy_def map_add_def)
qed

lemma provider_target:
  assumes "endpoint_ok sid bc lc" "server_plain cfg" "plain (rq_service_id r)"
    "sp_srflx_ip i = srflx_ip bc" "sp_srflx_port i = srflx_port bc" "sp_lan_ip i = lc"
  shows "phone_target bp (srt_provider_msg cfg r i)
    = Some (if srflx_ip bp = srflx_ip bc \<and> lc \<noteq> [] then lc else srflx_ip bc, srflx_port bc)"
proof -
  define kvs where "kvs = [(''type'', ''SRT_PROVIDER''), (''service_id'', rq_service_id r), (''srflx_ip'', sp_srflx_ip i),
       (''srflx_port'', show_int (sp_srflx_port i))] @ (if sp_lan_ip i \<noteq> [] then [(''lan_ip'', sp_lan_ip i)] else []) @ turn_fields cfg"
  have cl: "kv_clean kvs" "\<forall>p \<in> set kvs. fst p \<notin> set sdp_keys"
    using plain_turn [OF assms(2)] assms(1,3-6) plain_show_int [of "srflx_port bc"]
    by (auto simp: kvs_def kv_clean_def list_all_iff plain_def endpoint_ok_def sdp_keys_def)
  have m: "srt_provider_msg cfg r i = create_message (mk_map kvs)" by (simp add: srt_provider_msg_def kvs_def)
  have f: "map_of (rev kvs) ''type'' = Some ''SRT_PROVIDER''" "map_of (rev kvs) ''srflx_ip'' = Some (srflx_ip bc)"
    "map_of (rev kvs) ''srflx_port'' = Some (show_int (srflx_port bc))" "map_of (rev kvs) ''lan_ip'' = (if lc = [] then None else Some lc)"
    using assms(4-6) by (simp_all add: kvs_def turn_absent map_add_def split: option.split)
  have n: "length (show_int (srflx_port bc)) \<le> 11" "atoi (show_int (srflx_port bc)) = srflx_port bc"
    using length_show_int atoi_show_int endpoint_port [OF assms(1)] by blast+
  show ?thesis unfolding m using assms(1) n
    by (simp add: phone_target_def kv_get_mk [OF cl] f endpoint_ok_def bcopy_def Let_def)
qed

subsection \<open>The run\<close>

lemma step_recv:
  assumes "\<not> ss_down s" "t < length (ss_threads s)" "th_pc (ss_threads s ! t) = Receive"
    "sv_dispatch cfg (th_fd (ss_threads s ! t)) (th_ip (ss_threads s ! t)) msg = Some k"
  shows "\<exists>m. sv_step cfg (SvRecv t (Some msg)) s = put_thread t k (s\<lparr>ss_prov := m\<rparr>)"
  using assms by (auto simp: sv_step_def sv_recv_def Let_def)

text \<open>A connection whose thread waits for a message.\<close>

definition waiting :: "sig_server \<Rightarrow> nat \<Rightarrow> int \<Rightarrow> bool" where
  "waiting s t fd \<longleftrightarrow> \<not> ss_down s \<and> t < length (ss_threads s) \<and> th_fd (ss_threads s ! t) = fd
     \<and> th_pc (ss_threads s ! t) = Receive \<and> fd \<in> set (ss_open s)"

lemma registration_run:
  assumes "waiting s c fd" "\<And>ip. sv_dispatch cfg fd ip reg = Some (Srt (SrtPut i))"
    "s' = sv_run cfg [SvRecv c (Some reg), SvStep c n True, SvStep c n True, SvStep c n True] s"
  shows "waiting s' c fd" "ss_out s' = ss_out s @ [(fd, frame_len (registered_msg cfg ''SRT_REGISTERED'')), (fd, registered_msg cfg ''SRT_REGISTERED'')]"
    "map_of (ss_srt s') (sp_service_id i) = Some (i\<lparr>sp_connected_at := n\<rparr>)" "p \<noteq> c \<Longrightarrow> waiting s p g \<Longrightarrow> waiting s' p g"
proof -
  have w: "\<not> ss_down s" "c < length (ss_threads s)" "th_fd (ss_threads s ! c) = fd" "th_pc (ss_threads s ! c) = Receive" "fd \<in> set (ss_open s)"
    using assms(1) by (simp_all add: waiting_def)
  obtain m where r: "sv_step cfg (SvRecv c (Some reg)) s = put_thread c (Srt (SrtPut i)) (s\<lparr>ss_prov := m\<rparr>)"
    using step_recv [OF w(1,2,4)] assms(2) w(3) by blast
  have s': "s' = sv_run cfg [SvStep c n True, SvStep c n True, SvStep c n True] (put_thread c (Srt (SrtPut i)) (s\<lparr>ss_prov := m\<rparr>))"
    by (simp add: assms(3) r)
  show "waiting s' c fd" "ss_out s' = ss_out s @ [(fd, frame_len (registered_msg cfg ''SRT_REGISTERED'')), (fd, registered_msg cfg ''SRT_REGISTERED'')]"
    "map_of (ss_srt s') (sp_service_id i) = Some (i\<lparr>sp_connected_at := n\<rparr>)"
    using w by (simp_all add: s' step_thread [of _ c] client_step_def sv_send_def waiting_def)
  show "p \<noteq> c \<Longrightarrow> waiting s p g \<Longrightarrow> waiting s' p g"
    using w by (simp add: s' step_thread [of _ c] client_step_def sv_send_def waiting_def)
qed

lemma request_run:
  assumes "waiting s p fd" "\<And>ip. sv_dispatch cfg fd ip rq = Some (Srt (SrtFind r))"
    "map_of (ss_srt s) (rq_service_id r) = Some i" "sp_fd i \<in> set (ss_open s)"
    "s' = sv_run cfg [SvRecv p (Some rq), SvStep p n True, SvStep p n True, SvStep p n True, SvStep p n True, SvStep p n True, SvStep p n True] s"
  shows "waiting s' p fd \<and> ss_out s' = ss_out s @ [(sp_fd i, frame_len (srt_peer_msg r)), (sp_fd i, srt_peer_msg r),
      (fd, frame_len (srt_provider_msg cfg r i)), (fd, srt_provider_msg cfg r i)]"
proof -
  have w: "\<not> ss_down s" "p < length (ss_threads s)" "th_fd (ss_threads s ! p) = fd" "th_pc (ss_threads s ! p) = Receive" "fd \<in> set (ss_open s)"
    using assms(1) by (simp_all add: waiting_def)
  obtain m where r: "sv_step cfg (SvRecv p (Some rq)) s = put_thread p (Srt (SrtFind r)) (s\<lparr>ss_prov := m\<rparr>)"
    using step_recv [OF w(1,2,4)] assms(2) w(3) by blast
  define a where "a = put_thread p (Srt (SrtMark r i)) (put_thread p (Srt (SrtFind r)) (s\<lparr>ss_prov := m\<rparr>))"
  have a: "sv_step cfg (SvStep p n True) (put_thread p (Srt (SrtFind r)) (s\<lparr>ss_prov := m\<rparr>)) = a"
    using w assms(3) by (simp add: a_def step_thread client_step_def)
  have s': "s' = sv_run cfg [SvStep p n True, SvStep p n True, SvStep p n True, SvStep p n True, SvStep p n True] a"
    by (simp add: assms(5) r a)
  have fa: "\<not> ss_down a" "p < length (ss_threads a)" "th_fd (ss_threads a ! p) = fd" "th_pc (ss_threads a ! p) = Srt (SrtMark r i)"
    "fd \<in> set (ss_open a)" "sp_fd i \<in> set (ss_open a)" "ss_out a = ss_out s"
    using w assms(4) by (simp_all add: a_def)
  show ?thesis using fa by (simp add: s' step_thread client_step_def sv_send_def waiting_def)
qed

subsection \<open>Properties\<close>

text \<open>
  C3. Camera and phone find each other: after a registration and a request that nothing disturbs, the server has
  sent the camera an acknowledgement it accepts and an announcement from which it requests a connection to the
  phone's address, and the phone a reply from which it connects to the camera's.  Each side uses the other's
  LAN address exactly when both share a public address and the other named one.
\<close>

theorem rendezvous_targets:
  assumes "waiting s c fc" "waiting s p fp" "c \<noteq> p" "server_plain cfg"
    "sv_api_token cfg = [] \<or> sv_api_token cfg = sc_ctrl_token cam" "plain (sc_ctrl_token cam)" "length (sc_ctrl_token cam) < 128"
    "endpoint_ok (sc_node_id cam) bc lc" "endpoint_ok (pg_service_id g) bp lp" "pg_service_id g = sc_node_id cam"
    "s' = sv_run cfg ([SvRecv c (Some (register_msg cam bc lc)), SvStep c n True, SvStep c n True, SvStep c n True]
       @ [SvRecv p (Some (phone_request g bp lp)), SvStep p n True, SvStep p n True, SvStep p n True, SvStep p n True, SvStep p n True, SvStep p n True]) s"
  shows "\<exists>ack push reply. ss_out s' = ss_out s @ [(fc, frame_len ack), (fc, ack), (fc, frame_len push), (fc, push), (fp, frame_len reply), (fp, reply)]
    \<and> snd (kv_get ack ''type'' 64) = ''SRT_REGISTERED''
    \<and> (\<forall>cs. cs_srflx cs = bc \<longrightarrow> (\<exists>req. peer_request cs push = Some req \<and> pr_peer_port req = srflx_port bp
        \<and> pr_peer_ip req = (if lp \<noteq> [] \<and> srflx_ip bc = srflx_ip bp then lp else srflx_ip bp)))
    \<and> phone_target bp reply = Some (if srflx_ip bp = srflx_ip bc \<and> lc \<noteq> [] then lc else srflx_ip bc, srflx_port bc)"
proof -
  define i where "i = camera_entry cam bc lc fc"
  define u where "u = sv_run cfg [SvRecv c (Some (register_msg cam bc lc)), SvStep c n True, SvStep c n True, SvStep c n True] s"
  note reg = registration_run [OF assms(1) register_dispatch [OF assms(8,6,7,5), where fd = fc, folded i_def] u_def]
  have su: "s' = sv_run cfg [SvRecv p (Some (phone_request g bp lp)), SvStep p n True, SvStep p n True, SvStep p n True, SvStep p n True, SvStep p n True, SvStep p n True] u"
    by (simp add: assms(11) u_def)
  have sid: "rq_service_id (phone_req g bp lp) = sp_service_id i" using assms(10) by (simp add: phone_req_def i_def camera_entry_def)
  have wp: "waiting u p fp" using reg(4) [of p fp] assms(2,3) by simp
  have fd: "sp_fd (i\<lparr>sp_connected_at := n\<rparr>) = fc" by (simp add: i_def camera_entry_def)
  have op: "sp_fd (i\<lparr>sp_connected_at := n\<rparr>) \<in> set (ss_open u)" using reg(1) fd by (simp add: waiting_def)
  have m: "map_of (ss_srt u) (rq_service_id (phone_req g bp lp)) = Some (i\<lparr>sp_connected_at := n\<rparr>)" using reg(3) sid by simp
  let ?ack = "registered_msg cfg ''SRT_REGISTERED''" and ?push = "srt_peer_msg (phone_req g bp lp)"
    and ?reply = "srt_provider_msg cfg (phone_req g bp lp) (i\<lparr>sp_connected_at := n\<rparr>)"
  have out: "ss_out s' = ss_out s @ [(fc, frame_len ?ack), (fc, ?ack), (fc, frame_len ?push), (fc, ?push), (fp, frame_len ?reply), (fp, ?reply)]"
    using request_run [OF wp request_dispatch [OF assms(9)] m op su] reg(2) fd by simp
  have ack: "snd (kv_get ?ack ''type'' 64) = ''SRT_REGISTERED''" by (rule registered_type [OF assms(4)])
  have peer: "\<forall>cs. cs_srflx cs = bc \<longrightarrow> (\<exists>req. peer_request cs ?push = Some req \<and> pr_peer_port req = srflx_port bp
        \<and> pr_peer_ip req = (if lp \<noteq> [] \<and> srflx_ip bc = srflx_ip bp then lp else srflx_ip bp))"
    using peer_request_of_push [OF assms(9)] by metis
  have tgt: "phone_target bp ?reply = Some (if srflx_ip bp = srflx_ip bc \<and> lc \<noteq> [] then lc else srflx_ip bc, srflx_port bc)"
    by (rule provider_target [OF assms(8,4)])
      (use assms(9) in \<open>simp_all add: phone_req_def endpoint_ok_def i_def camera_entry_def\<close>)
  show ?thesis using out ack peer tgt by blast
qed

definition idle_pair :: sig_server where
  "idle_pair = sv_init\<lparr>ss_open := [5, 6], ss_threads :=
     [\<lparr>th_fd = 5, th_ip = ''1.1.1.1'', th_pc = Receive\<rparr>, \<lparr>th_fd = 6, th_ip = ''2.2.2.2'', th_pc = Receive\<rparr>]\<rparr>"

theorem rendezvous_targets_witness:
  "\<exists>s' ack push reply. ss_out s' = [(5, frame_len ack), (5, ack), (5, frame_len push), (5, push), (6, frame_len reply), (6, reply :: string)]
     \<and> phone_target \<lparr>srflx_ip = ''9.9.9.9'', srflx_port = 777\<rparr> reply = Some (''10.0.0.2'', 40000)
     \<and> (s' :: sig_server) = sv_run sv_cfg_default ([SvRecv 0 (Some (register_msg ((snapshot_config ap2p_state_init)\<lparr>sc_node_id := ''cam'', sc_ctrl_token := []\<rparr>)
            \<lparr>srflx_ip = ''9.9.9.9'', srflx_port = 40000\<rparr> ''10.0.0.2'')), SvStep 0 1 True, SvStep 0 1 True, SvStep 0 1 True]
         @ [SvRecv 1 (Some (phone_request (phone_cfg_init\<lparr>pg_service_id := ''cam''\<rparr>) \<lparr>srflx_ip = ''9.9.9.9'', srflx_port = 777\<rparr> [])),
            SvStep 1 1 True, SvStep 1 1 True, SvStep 1 1 True, SvStep 1 1 True, SvStep 1 1 True, SvStep 1 1 True]) idle_pair"
proof -
  let ?cam = "(snapshot_config ap2p_state_init)\<lparr>sc_node_id := ''cam'', sc_ctrl_token := []\<rparr>"
  let ?g = "phone_cfg_init\<lparr>pg_service_id := ''cam''\<rparr>"
  let ?bc = "\<lparr>srflx_ip = ''9.9.9.9'', srflx_port = 40000\<rparr>" and ?bp = "\<lparr>srflx_ip = ''9.9.9.9'', srflx_port = 777\<rparr>"
  define s' where "s' = sv_run sv_cfg_default ([SvRecv 0 (Some (register_msg ?cam ?bc ''10.0.0.2'')), SvStep 0 1 True, SvStep 0 1 True, SvStep 0 1 True]
         @ [SvRecv 1 (Some (phone_request ?g ?bp [])), SvStep 1 1 True, SvStep 1 1 True, SvStep 1 1 True, SvStep 1 1 True, SvStep 1 1 True, SvStep 1 1 True]) idle_pair"
  have w: "waiting idle_pair 0 5" "waiting idle_pair 1 6" by (simp_all add: waiting_def idle_pair_def sv_init_def)
  have e: "endpoint_ok (sc_node_id ?cam) ?bc ''10.0.0.2''" "endpoint_ok (pg_service_id ?g) ?bp []" by (simp_all add: endpoint_ok_def plain_def)
  have o: "ss_out idle_pair = []" by (simp add: idle_pair_def sv_init_def)
  from rendezvous_targets [OF w _ _ _ _ _ e _ s'_def] o show ?thesis
    unfolding s'_def [symmetric]
    by (auto simp: server_plain_def plain_def sv_cfg_default_def)
qed

end
