(* ===== verification/Provider.thy ===== *)
theory Provider
  imports ConsumerHttp CtrlSession
begin

text \<open>
  The stand-alone provider (\<open>provider_srt.c\<close>), the program \<open>ap2p\<close> took its parts from: its configuration
  file, the signaling transport over plain TCP or TLS, and one signaling session.  \<open>stun_lite.h\<close> is
  \<open>edge_lite.h\<close> under other names, so the address of the discovery is a \<open>binding\<close> here too; \<open>kv_get\<close> and
  the framing are those of \<open>srt_thread.c\<close>.
\<close>

subsection \<open>The configuration\<close>

record prov_cfg =
  pf_local_host :: string
  pf_local_port :: int
  pf_local_http_path :: string
  pf_local_http_auth :: string
  pf_service_id :: string
  pf_signaling_host :: string
  pf_signaling_port :: int
  pf_api_token :: string
  pf_stun_host :: string
  pf_stun_port :: int
  pf_turn_host :: string
  pf_turn_port :: int
  pf_turn_username :: string
  pf_turn_password :: string
  pf_bind_port :: int
  pf_latency_ms :: int
  pf_verbose :: int
  pf_scheme :: string
  pf_ca :: string
  pf_cert :: string
  pf_key :: string
  pf_verify_host :: int

text \<open>\<open>g_cfg\<close> is static, so what \<open>load_config\<close> does not set starts empty.\<close>

definition prov_defaults :: prov_cfg where
  "prov_defaults = \<lparr>pf_local_host = ''127.0.0.1'', pf_local_port = 80, pf_local_http_path = [], pf_local_http_auth = [],
     pf_service_id = [], pf_signaling_host = [], pf_signaling_port = 8888, pf_api_token = [], pf_stun_host = [],
     pf_stun_port = 3478, pf_turn_host = [], pf_turn_port = 3478, pf_turn_username = [], pf_turn_password = [],
     pf_bind_port = 0, pf_latency_ms = 300, pf_verbose = 0, pf_scheme = ''plain'', pf_ca = [], pf_cert = [],
     pf_key = [], pf_verify_host = 1\<rparr>"

datatype prov_str = V_local_host | V_http_path | V_http_auth | V_service_id | V_signaling_host | V_api_token
  | V_stun_host | V_turn_host | V_turn_username | V_turn_password | V_scheme | V_ca | V_cert | V_key

datatype prov_int = V_local_port | V_signaling_port | V_stun_port | V_turn_port | V_bind_port | V_latency_ms
  | V_verbose | V_verify_host

datatype prov_field = PS prov_str | PI prov_int

text \<open>The chain of comparisons as a table, in its order.\<close>

definition prov_keys :: "(string \<times> prov_field) list" where
  "prov_keys = [
    (''LOCAL_HOST'', PS V_local_host), (''LOCAL_PORT'', PI V_local_port),
    (''LOCAL_HTTP_PATH'', PS V_http_path), (''LOCAL_HTTP_AUTH'', PS V_http_auth),
    (''SERVICE_ID'', PS V_service_id), (''SIGNALING_HOST'', PS V_signaling_host),
    (''SIGNALING_PORT'', PI V_signaling_port), (''API_TOKEN'', PS V_api_token),
    (''STUN_HOST'', PS V_stun_host), (''STUN_PORT'', PI V_stun_port),
    (''TURN_HOST'', PS V_turn_host), (''TURN_PORT'', PI V_turn_port),
    (''TURN_USERNAME'', PS V_turn_username), (''TURN_PASSWORD'', PS V_turn_password),
    (''BIND_PORT'', PI V_bind_port), (''LATENCY_MS'', PI V_latency_ms), (''VERBOSE'', PI V_verbose),
    (''SIGNALING_SCHEME'', PS V_scheme), (''SIGNALING_CA'', PS V_ca), (''SIGNALING_CERT'', PS V_cert),
    (''SIGNALING_KEY'', PS V_key), (''SIGNALING_VERIFY_HOST'', PI V_verify_host)]"

fun prov_size :: "prov_str \<Rightarrow> nat" where
  "prov_size V_local_host = 128"
| "prov_size V_http_path = 512"
| "prov_size V_http_auth = 256"
| "prov_size V_service_id = 256"
| "prov_size V_signaling_host = 128"
| "prov_size V_api_token = 128"
| "prov_size V_stun_host = 128"
| "prov_size V_turn_host = 128"
| "prov_size V_turn_username = 128"
| "prov_size V_turn_password = 128"
| "prov_size V_scheme = 8"
| "prov_size V_ca = 256"
| "prov_size V_cert = 256"
| "prov_size V_key = 256"

fun pget_str :: "prov_str \<Rightarrow> prov_cfg \<Rightarrow> string" where
  "pget_str V_local_host c = pf_local_host c"
| "pget_str V_http_path c = pf_local_http_path c"
| "pget_str V_http_auth c = pf_local_http_auth c"
| "pget_str V_service_id c = pf_service_id c"
| "pget_str V_signaling_host c = pf_signaling_host c"
| "pget_str V_api_token c = pf_api_token c"
| "pget_str V_stun_host c = pf_stun_host c"
| "pget_str V_turn_host c = pf_turn_host c"
| "pget_str V_turn_username c = pf_turn_username c"
| "pget_str V_turn_password c = pf_turn_password c"
| "pget_str V_scheme c = pf_scheme c"
| "pget_str V_ca c = pf_ca c"
| "pget_str V_cert c = pf_cert c"
| "pget_str V_key c = pf_key c"

fun pput_str :: "prov_str \<Rightarrow> string \<Rightarrow> prov_cfg \<Rightarrow> prov_cfg" where
  "pput_str V_local_host v c = c\<lparr>pf_local_host := v\<rparr>"
| "pput_str V_http_path v c = c\<lparr>pf_local_http_path := v\<rparr>"
| "pput_str V_http_auth v c = c\<lparr>pf_local_http_auth := v\<rparr>"
| "pput_str V_service_id v c = c\<lparr>pf_service_id := v\<rparr>"
| "pput_str V_signaling_host v c = c\<lparr>pf_signaling_host := v\<rparr>"
| "pput_str V_api_token v c = c\<lparr>pf_api_token := v\<rparr>"
| "pput_str V_stun_host v c = c\<lparr>pf_stun_host := v\<rparr>"
| "pput_str V_turn_host v c = c\<lparr>pf_turn_host := v\<rparr>"
| "pput_str V_turn_username v c = c\<lparr>pf_turn_username := v\<rparr>"
| "pput_str V_turn_password v c = c\<lparr>pf_turn_password := v\<rparr>"
| "pput_str V_scheme v c = c\<lparr>pf_scheme := v\<rparr>"
| "pput_str V_ca v c = c\<lparr>pf_ca := v\<rparr>"
| "pput_str V_cert v c = c\<lparr>pf_cert := v\<rparr>"
| "pput_str V_key v c = c\<lparr>pf_key := v\<rparr>"

fun pget_int :: "prov_int \<Rightarrow> prov_cfg \<Rightarrow> int" where
  "pget_int V_local_port c = pf_local_port c"
| "pget_int V_signaling_port c = pf_signaling_port c"
| "pget_int V_stun_port c = pf_stun_port c"
| "pget_int V_turn_port c = pf_turn_port c"
| "pget_int V_bind_port c = pf_bind_port c"
| "pget_int V_latency_ms c = pf_latency_ms c"
| "pget_int V_verbose c = pf_verbose c"
| "pget_int V_verify_host c = pf_verify_host c"

fun pput_int :: "prov_int \<Rightarrow> int \<Rightarrow> prov_cfg \<Rightarrow> prov_cfg" where
  "pput_int V_local_port v c = c\<lparr>pf_local_port := v\<rparr>"
| "pput_int V_signaling_port v c = c\<lparr>pf_signaling_port := v\<rparr>"
| "pput_int V_stun_port v c = c\<lparr>pf_stun_port := v\<rparr>"
| "pput_int V_turn_port v c = c\<lparr>pf_turn_port := v\<rparr>"
| "pput_int V_bind_port v c = c\<lparr>pf_bind_port := v\<rparr>"
| "pput_int V_latency_ms v c = c\<lparr>pf_latency_ms := v\<rparr>"
| "pput_int V_verbose v c = c\<lparr>pf_verbose := v\<rparr>"
| "pput_int V_verify_host v c = c\<lparr>pf_verify_host := v\<rparr>"

fun prov_get :: "prov_field \<Rightarrow> prov_cfg \<Rightarrow> conf_val" where
  "prov_get (PS f) c = VStr (pget_str f c)"
| "prov_get (PI f) c = VInt (pget_int f c)"

fun prov_put :: "prov_field \<Rightarrow> conf_val \<Rightarrow> prov_cfg \<Rightarrow> prov_cfg" where
  "prov_put (PS f) (VStr v) c = pput_str f v c"
| "prov_put (PI f) (VInt v) c = pput_int f v c"
| "prov_put _ _ c = c"

text \<open>\<open>snprintf\<close> into a string's buffer, \<open>atoi\<close> for a number.\<close>

fun prov_value :: "prov_field \<Rightarrow> string \<Rightarrow> conf_val" where
  "prov_value (PS f) v = VStr (bcopy (prov_size f) v)"
| "prov_value (PI f) v = VInt (atoi v)"

definition prov_key :: "string \<Rightarrow> prov_field option" where
  "prov_key k = map_option snd (find (\<lambda>(n, _). strcaseeq k n) prov_keys)"

text \<open>The key and the value of a line; \<open>None\<close> is a comment, a section, or a line without \<open>=\<close>.\<close>

definition prov_line_kv :: "string \<Rightarrow> (string \<times> string) option" where
  "prov_line_kv line =
     (let p = strip (cstr line) in
      if p = [] \<or> hd p \<in> {CHR ''#'', CHR '';'', CHR ''[''} then None
      else case after (CHR ''='') p of
        None \<Rightarrow> None
      | Some r \<Rightarrow> Some (strip (before (CHR ''='') p), strip r))"

definition prov_line :: "string \<Rightarrow> prov_cfg \<Rightarrow> prov_cfg" where
  "prov_line line cfg =
     (case prov_line_kv line of
        None \<Rightarrow> cfg
      | Some (k, v) \<Rightarrow> (case prov_key k of None \<Rightarrow> cfg | Some f \<Rightarrow> prov_put f (prov_value f v) cfg))"

function prov_loop :: "string \<Rightarrow> prov_cfg \<Rightarrow> prov_cfg" where
  "prov_loop s cfg =
     (case fgets 256 s of None \<Rightarrow> cfg | Some (line, rest) \<Rightarrow> prov_loop rest (prov_line line cfg))"
  by pat_completeness auto

termination prov_loop
  by (relation "measure (\<lambda>(s, cfg). length s)") (auto dest: fgets_progress)

declare prov_loop.simps [simp del]

text \<open>What is checked at the end; true is 0.\<close>

definition prov_check :: "prov_cfg \<Rightarrow> bool" where
  "prov_check cfg \<longleftrightarrow>
     \<not> (pf_signaling_host cfg = [] \<or> pf_stun_host cfg = [] \<or> pf_service_id cfg = [])
     \<and> (if strcaseeq (pf_scheme cfg) ''tls'' then \<not> (pf_ca cfg = [] \<or> pf_cert cfg = [] \<or> pf_key cfg = [])
        else strcaseeq (pf_scheme cfg) ''plain'')"

definition prov_load_config :: "string option \<Rightarrow> int \<times> prov_cfg" where
  "prov_load_config file =
     (case file of
        None \<Rightarrow> (-1, prov_defaults)
      | Some bytes \<Rightarrow> (let cfg = prov_loop bytes prov_defaults in (if prov_check cfg then 0 else -1, cfg)))"

subsection \<open>The file as an abstract store\<close>

definition prov_typed :: "prov_field \<Rightarrow> conf_val \<Rightarrow> bool" where
  "prov_typed f v \<longleftrightarrow> (case (f, v) of (PS _, VStr _) \<Rightarrow> True | (PI _, VInt _) \<Rightarrow> True | _ \<Rightarrow> False)"

lemma pget_str_pput_str: "pget_str g (pput_str f v s) = (if g = f then v else pget_str g s)"
  by (cases f; cases g; simp)

lemma pget_int_pput_int: "pget_int g (pput_int f v s) = (if g = f then v else pget_int g s)"
  by (cases f; cases g; simp)

lemma pget_str_pput_int [simp]: "pget_str g (pput_int f v s) = pget_str g s"
  by (cases f; cases g; simp)

lemma pget_int_pput_str [simp]: "pget_int g (pput_str f v s) = pget_int g s"
  by (cases f; cases g; simp)

interpretation prov: field_store prov_get prov_put prov_typed
proof unfold_locales
  fix f g :: prov_field and v s
  assume "prov_typed f v"
  then show "prov_get g (prov_put f v s) = (if g = f then v else prov_get g s)"
    by (cases f; cases v; cases g) (auto simp: prov_typed_def pget_str_pput_str pget_int_pput_int)
qed

text \<open>The lines \<open>fgets\<close> cuts a file into, and the writes they amount to.\<close>

function conf_lines :: "string \<Rightarrow> string list" where
  "conf_lines s = (case fgets 256 s of None \<Rightarrow> [] | Some (line, rest) \<Rightarrow> line # conf_lines rest)"
  by pat_completeness auto

termination conf_lines
  by (relation "measure length") (auto dest: fgets_progress)

declare conf_lines.simps [simp del]

definition line_write :: "string \<Rightarrow> (prov_field \<times> conf_val) option" where
  "line_write line =
     (case prov_line_kv line of
        None \<Rightarrow> None
      | Some (k, v) \<Rightarrow> map_option (\<lambda>f. (f, prov_value f v)) (prov_key k))"

definition prov_writes :: "string \<Rightarrow> (prov_field \<times> conf_val) list" where
  "prov_writes s = List.map_filter line_write (conf_lines s)"

lemma prov_line_write: "prov_line l cfg = (case line_write l of None \<Rightarrow> cfg | Some (f, v) \<Rightarrow> prov_put f v cfg)"
  by (auto simp: prov_line_def line_write_def split: option.splits)

lemma prov_loop_writes: "prov_loop s cfg = fold (\<lambda>(f, v). prov_put f v) (prov_writes s) cfg"
proof (induction s cfg rule: prov_loop.induct)
  case (1 s cfg)
  show ?case
  proof (cases "fgets 256 s")
    case None
    then show ?thesis by (simp add: prov_loop.simps [of s] prov_writes_def conf_lines.simps [of s] List.map_filter_simps)
  next
    case (Some lr)
    obtain l r where lr: "lr = (l, r)" by (cases lr)
    then have "prov_loop r (prov_line l cfg) = fold (\<lambda>(f, v). prov_put f v) (prov_writes r) (prov_line l cfg)"
      using 1 Some by simp
    then show ?thesis using Some lr
      by (simp add: prov_loop.simps [of s] prov_writes_def conf_lines.simps [of s] List.map_filter_simps prov_line_write
          split: option.split prod.split)
  qed
qed

lemma prov_writes_typed: "\<forall>(f, v) \<in> set (prov_writes s). prov_typed f v"
proof -
  have "prov_typed f (prov_value f v)" for f v by (cases f) (auto simp: prov_typed_def)
  then show ?thesis by (auto simp: prov_writes_def List.map_filter_def line_write_def split: option.splits)
qed

lemma prov_get_loaded:
  "prov_get f (prov_loop s cfg) = (case map_of (rev (prov_writes s)) f of None \<Rightarrow> prov_get f cfg | Some v \<Rightarrow> v)"
  unfolding prov_loop_writes by (rule prov.get_fold_put [OF prov_writes_typed])

lemma prov_get_file:
  "prov_get f (snd (prov_load_config (Some s))) = (case map_of (rev (prov_writes s)) f of None \<Rightarrow> prov_get f prov_defaults | Some v \<Rightarrow> v)"
  using prov_get_loaded [of f s prov_defaults] by (simp add: prov_load_config_def Let_def)

text \<open>On names of capitals and underscores \<open>strcasecmp\<close> is equality.\<close>

definition key_char :: "char \<Rightarrow> bool" where
  "key_char c \<longleftrightarrow> (let n = (of_char c :: nat) in 65 \<le> n \<and> n \<le> 95)"

lemma tolower_key: "key_char a \<Longrightarrow> key_char b \<Longrightarrow> tolower a = tolower b \<Longrightarrow> a = b"
proof -
  assume k: "key_char a" "key_char b" and e: "tolower a = tolower b"
  have n: "(of_char (tolower c) :: nat) = (if of_char c \<le> (90 :: nat) then of_char c + 32 else of_char c)" if "key_char c" for c
  proof -
    define m where "m = (of_char c :: nat)"
    have r: "65 \<le> m" "m \<le> 95" using that by (simp_all add: key_char_def Let_def m_def)
    show ?thesis
    proof (cases "m \<le> 90")
      case True
      then have "tolower c = char_of (m + 32)" using r by (simp add: tolower_def Let_def m_def)
      moreover have "(of_char (char_of (m + 32) :: char) :: nat) = m + 32" using True by (simp add: of_char_of)
      ultimately show ?thesis using True by (simp add: m_def)
    qed (simp add: tolower_def Let_def m_def)
  qed
  define x y where "x = (of_char a :: nat)" and "y = (of_char b :: nat)"
  have "(if x \<le> 90 then x + 32 else x) = (if y \<le> 90 then y + 32 else y)"
    unfolding x_def y_def n [OF k(1), symmetric] n [OF k(2), symmetric] e ..
  moreover have "65 \<le> x" "x \<le> 95" "65 \<le> y" "y \<le> 95" using k by (simp_all add: key_char_def Let_def x_def y_def)
  ultimately have "x = y" by (simp split: if_splits)
  then show "a = b" by (simp add: x_def y_def)
qed

lemma strcaseeq_key: "list_all key_char a \<Longrightarrow> list_all key_char b \<Longrightarrow> strcaseeq a b \<longleftrightarrow> a = b"
proof (induction a arbitrary: b)
  case (Cons c a)
  then show ?case using tolower_key by (cases b) (auto simp: strcaseeq_def)
qed (auto simp: strcaseeq_def)

lemma prov_keys_chars: "list_all (\<lambda>(n, f). list_all key_char n) prov_keys"
  by code_simp

lemma prov_key_upper: "list_all key_char k \<Longrightarrow> prov_key k = map_of prov_keys k"
proof -
  assume k: "list_all key_char k"
  have "list_all (\<lambda>(n, f). list_all key_char n) t \<Longrightarrow> map_option snd (find (\<lambda>(n, _). strcaseeq k n) t) = map_of t k" for t :: "(string \<times> prov_field) list"
    by (induction t) (auto simp: strcaseeq_key [OF k])
  then show ?thesis using prov_keys_chars by (simp add: prov_key_def)
qed

subsection \<open>Sizes\<close>

text \<open>Every string keeps within its buffer, and a number is an \<open>int\<close>.\<close>

definition prov_wf :: "prov_cfg \<Rightarrow> bool" where
  "prov_wf cfg \<longleftrightarrow> (\<forall>f. length (pget_str f cfg) < prov_size f) \<and> int_min \<le> pf_local_port cfg \<and> pf_local_port cfg \<le> int_max"

lemma prov_size_pos: "0 < prov_size f"
  by (cases f) simp_all

lemma atoi_range: "int_min \<le> atoi s \<and> atoi s \<le> int_max"
  by (auto simp: atoi_def clamp_def Let_def int_min_def int_max_def split: list.split)

lemma prov_write_value: "(f, v) \<in> set (prov_writes s) \<Longrightarrow> \<exists>x. v = prov_value f x"
  by (clarsimp simp: prov_writes_def List.map_filter_def line_write_def split: option.splits) blast

lemma prov_get_cases: "prov_get f (prov_loop s cfg) = prov_get f cfg \<or> (\<exists>x. prov_get f (prov_loop s cfg) = prov_value f x)"
proof (cases "map_of (rev (prov_writes s)) f")
  case None
  then show ?thesis by (simp add: prov_get_loaded)
next
  case (Some v)
  then have "(f, v) \<in> set (prov_writes s)" by (auto dest: map_of_SomeD)
  then show ?thesis using Some prov_write_value [of f v s] by (simp add: prov_get_loaded)
qed

lemma prov_defaults_wf: "prov_wf prov_defaults"
proof -
  have "length (pget_str f prov_defaults) < prov_size f" for f by (cases f) (simp_all add: prov_defaults_def)
  then show ?thesis by (simp add: prov_wf_def prov_defaults_def int_min_def int_max_def)
qed

lemma prov_loop_wf: "prov_wf cfg \<Longrightarrow> prov_wf (prov_loop s cfg)"
proof -
  assume w: "prov_wf cfg"
  have "length (pget_str f (prov_loop s cfg)) < prov_size f" for f
    using prov_get_cases [of "PS f" s cfg] w length_bcopy [OF prov_size_pos [of f]] by (auto simp: prov_wf_def)
  moreover have "int_min \<le> pf_local_port (prov_loop s cfg) \<and> pf_local_port (prov_loop s cfg) \<le> int_max"
    using prov_get_cases [of "PI V_local_port" s cfg] w atoi_range by (auto simp: prov_wf_def)
  ultimately show ?thesis by (simp add: prov_wf_def)
qed

lemma prov_load_wf: "prov_wf (snd (prov_load_config file))"
  using prov_defaults_wf prov_loop_wf by (auto simp: prov_load_config_def Let_def split: option.split)

subsection \<open>Properties\<close>

text \<open>
  Whatever the file, each of the 22 settings ends as the last line that assigns it says, cut to its buffer
  or read by \<open>atoi\<close>, and at its default when no line does; a line longer than 255 characters counts as
  several.
\<close>

theorem provider_last_assignment_wins:
  "prov_get f (snd (prov_load_config (Some s)))
   = (case map_of (rev (prov_writes s)) f of None \<Rightarrow> prov_get f prov_defaults | Some v \<Rightarrow> v)"
  by (rule prov_get_file)

text \<open>
  The tail of a line of more than 255 characters is taken for a line of its own: a value that long is cut, and
  what follows may set another key.
\<close>

theorem provider_long_line_splits:
  assumes "length a = 255" "CHR 0x0A \<notin> set a" "b \<noteq> []"
  shows "prov_loop (a @ b) cfg = prov_loop b (prov_line a cfg)"
proof -
  have "fgets_loop (length a) (a @ b) = (a, b)" using assms(2)
    by (induction a) (auto split: prod.split)
  then have "fgets 256 (a @ b) = Some (a, b)" using assms by (auto simp: fgets_def)
  then show ?thesis by (simp add: prov_loop.simps [of "a @ b"])
qed

definition padded_auth :: string where
  "padded_auth = ''LOCAL_HTTP_AUTH='' @ replicate 239 (CHR ''x'')"

theorem provider_long_line_splits_witness:
  "prov_loop (padded_auth @ ''SIGNALING_SCHEME=plain'') prov_defaults = prov_loop ''SIGNALING_SCHEME=plain'' (prov_line padded_auth prov_defaults)"
  by (rule provider_long_line_splits) (simp_all add: padded_auth_def)

end
