(* ===== verification/ProviderSession.thy ===== *)
theory ProviderSession
  imports Provider
begin

text \<open>
  The provider's signaling side (\<open>provider_srt.c\<close>): reading and writing over TCP or TLS, opening and closing
  the connection, one session, and the supervisor in \<open>main\<close>.  What OpenSSL and the sockets answer are
  arguments; what is opened, closed, sent and posted is a list of \<open>prov_ev\<close>.
\<close>

subsection \<open>The transport\<close>

text \<open>An answer of \<open>recv\<close> or \<open>SSL_read\<close>; \<open>IoAgain\<close> is \<open>SSL_ERROR_WANT_READ\<close>, or an interrupted \<open>recv\<close>.\<close>

datatype io_ans = IoGot string | IoAgain | IoFail

fun sig_read_all :: "bool \<Rightarrow> io_ans list \<Rightarrow> nat \<Rightarrow> (string \<times> io_ans list) option" where
  "sig_read_all tls as 0 = Some ([], as)"
| "sig_read_all tls [] (Suc n) = None"
| "sig_read_all tls (IoAgain # as) (Suc n) = (if tls then sig_read_all tls as (Suc n) else None)"
| "sig_read_all tls (IoFail # as) (Suc n) = None"
| "sig_read_all tls (IoGot seg # as) (Suc n) =
     (if seg = [] then None
      else if length seg \<le> Suc n
      then map_option (\<lambda>(r, rest). (seg @ r, rest)) (sig_read_all tls as (Suc n - length seg))
      else Some (take (Suc n) seg, IoGot (drop (Suc n) seg) # as))"

datatype wr_ans = WrTook nat | WrAgain | WrFail

fun sig_write_all :: "bool \<Rightarrow> wr_ans list \<Rightarrow> string \<Rightarrow> string \<times> wr_ans list option" where
  "sig_write_all tls acc [] = ([], Some acc)"
| "sig_write_all tls [] (c # cs) = ([], None)"
| "sig_write_all tls (WrAgain # acc) (c # cs) = (if tls then sig_write_all tls acc (c # cs) else ([], None))"
| "sig_write_all tls (WrFail # acc) (c # cs) = ([], None)"
| "sig_write_all tls (WrTook k # acc) (c # cs) =
     (if k = 0 then ([], None)
      else let (w, r) = sig_write_all tls acc (drop k (c # cs)) in (take k (c # cs) @ w, r))"

definition sig_send :: "bool \<Rightarrow> wr_ans list \<Rightarrow> string \<Rightarrow> string \<times> wr_ans list option" where
  "sig_send tls acc msg =
     (case sig_write_all tls acc (htonl_bytes (length msg mod 2 ^ 32)) of
        (w, None) \<Rightarrow> (w, None)
      | (w, Some acc') \<Rightarrow> (let (w', r) = sig_write_all tls acc' msg in (w @ w', r)))"

definition sig_recv :: "bool \<Rightarrow> io_ans list \<Rightarrow> nat \<Rightarrow> (string \<times> io_ans list) option" where
  "sig_recv tls as cap =
     (case sig_read_all tls as 4 of
        None \<Rightarrow> None
      | Some (hdr, as') \<Rightarrow>
          (let len = ntohl_bytes hdr in
           if len \<ge> cap then None else sig_read_all tls as' len))"

text \<open>\<open>held_back\<close> is what \<open>SSL_pending\<close> answers; it is asked before \<open>poll\<close>.\<close>

definition sig_recv_timed :: "bool \<Rightarrow> nat \<Rightarrow> poll_result \<Rightarrow> io_ans list \<Rightarrow> nat \<Rightarrow> (string \<times> io_ans list) option" where
  "sig_recv_timed tls held_back pr as cap =
     (if tls \<and> 0 < held_back then sig_recv tls as cap
      else case pr of
        PollError \<Rightarrow> None
      | PollInterrupted \<Rightarrow> Some ([], as)
      | Ctrl.PollTimeout \<Rightarrow> Some ([], as)
      | PollHangup \<Rightarrow> None
      | PollReadable \<Rightarrow> sig_recv tls as cap)"

subsection \<open>Opening and closing the connection\<close>

datatype prov_res = PUdp int | PMem | PFd int | PCtx | PSsl

record prov_request =
  vr_peer_ip :: string
  vr_peer_port :: int
  vr_local_port :: int
  vr_my_srflx_ip :: string

text \<open>\<open>TlsUp\<close>: the server's certificate chain ends in this CA file, and it names this host if one was checked.\<close>

datatype prov_ev =
    Got prov_res
  | Freed prov_res
  | TlsUp string "string option"
  | SslShutdown
  | ProvSent string
  | ProvPost prov_request

record sig_io =
  si_fd :: int
  si_tls :: bool

record sig_obs =
  so_mem :: bool
  so_resolved :: bool
  so_sock :: "int option"
  so_conn :: bool
  so_ctx :: bool
  so_ca :: bool
  so_cert :: bool
  so_key :: bool
  so_match :: bool
  so_ssl :: bool
  so_set_host :: bool
  so_handshake :: bool
  so_verified :: bool

definition signaling_tcp_connect :: "sig_obs \<Rightarrow> int option \<times> prov_ev list" where
  "signaling_tcp_connect ob =
     (if \<not> so_resolved ob then (None, [])
      else case so_sock ob of
        None \<Rightarrow> (None, [])
      | Some fd \<Rightarrow> if \<not> so_conn ob then (None, [Got (PFd fd), Freed (PFd fd)]) else (Some fd, [Got (PFd fd)]))"

text \<open>The label \<open>fail\<close>.\<close>

definition sig_fail :: "int \<Rightarrow> bool \<Rightarrow> prov_ev list" where
  "sig_fail fd ctx = (if ctx then [Freed PCtx] else []) @ [Freed (PFd fd), Freed PMem]"

definition sig_open :: "prov_cfg \<Rightarrow> sig_obs \<Rightarrow> sig_io option \<times> prov_ev list" where
  "sig_open cfg ob =
     (if \<not> so_mem ob then (None, [])
      else case signaling_tcp_connect ob of
        (None, ev) \<Rightarrow> (None, Got PMem # ev @ [Freed PMem])
      | (Some fd, ev) \<Rightarrow>
          let ev1 = Got PMem # ev in
          if strcaseeq (pf_scheme cfg) ''plain'' then (Some \<lparr>si_fd = fd, si_tls = False\<rparr>, ev1)
          else if \<not> so_ctx ob then (None, ev1 @ sig_fail fd False)
          else let ev2 = ev1 @ [Got PCtx] in
            if \<not> so_ca ob \<or> \<not> so_cert ob \<or> \<not> so_key ob \<or> \<not> so_match ob \<or> \<not> so_ssl ob then (None, ev2 @ sig_fail fd True)
            else let ev3 = ev2 @ [Got PSsl] in
              if pf_verify_host cfg \<noteq> 0 \<and> \<not> so_set_host ob then (None, ev3 @ Freed PSsl # sig_fail fd True)
              else if \<not> so_handshake ob then (None, ev3 @ Freed PSsl # sig_fail fd True)
              else if \<not> so_verified ob then (None, ev3 @ Freed PSsl # sig_fail fd True)
              else (Some \<lparr>si_fd = fd, si_tls = True\<rparr>,
                    ev3 @ [TlsUp (pf_ca cfg) (if pf_verify_host cfg \<noteq> 0 then Some (pf_signaling_host cfg) else None)]))"

definition sig_close :: "sig_io \<Rightarrow> prov_ev list" where
  "sig_close sig = (if si_tls sig then [SslShutdown, Freed PSsl, Freed PCtx] else []) @ [Freed (PFd (si_fd sig)), Freed PMem]"

subsection \<open>One session\<close>

definition prov_register_text :: "prov_cfg \<Rightarrow> binding \<Rightarrow> string \<Rightarrow> string" where
  "prov_register_text cfg b lan =
     ''type=SRT_REGISTER'' @ nl @ ''service_id='' @ pf_service_id cfg @ nl @ ''srflx_ip='' @ srflx_ip b @ nl
     @ ''srflx_port='' @ show_int (srflx_port b) @ nl
     @ (if lan \<noteq> [] then ''lan_ip='' else []) @ lan @ (if lan \<noteq> [] then nl else [])
     @ (if pf_api_token cfg \<noteq> [] then ''api_token='' else []) @ pf_api_token cfg
     @ (if pf_api_token cfg \<noteq> [] then nl else [])"

definition prov_register_msg :: "prov_cfg \<Rightarrow> binding \<Rightarrow> string \<Rightarrow> string" where
  "prov_register_msg cfg b lan = bcopy 1024 (prov_register_text cfg b lan)"

definition prov_ping_msg :: "prov_cfg \<Rightarrow> string" where
  "prov_ping_msg cfg = bcopy 256 (''type=PING'' @ nl @ ''service_id='' @ pf_service_id cfg @ nl)"

definition allocate_stun_socket :: "alloc_calls \<Rightarrow> int option \<times> prov_ev list" where
  "allocate_stun_socket a =
     (case al_sock a of
        None \<Rightarrow> (None, [])
      | Some s \<Rightarrow>
          if al_bind a then (Some s, [Got (PUdp s)])
          else (case al_sock2 a of
                  None \<Rightarrow> (None, [Got (PUdp s), Freed (PUdp s)])
                | Some s2 \<Rightarrow>
                    if al_bind2 a then (Some s2, [Got (PUdp s), Freed (PUdp s), Got (PUdp s2)])
                    else (None, [Got (PUdp s), Freed (PUdp s), Got (PUdp s2), Freed (PUdp s2)])))"

record prov_sess =
  vs_sig :: sig_io
  vs_srflx :: binding
  vs_port :: int

record prov_obs =
  vo_alloc :: alloc_calls
  vo_port :: int
  vo_srflx :: "binding option"
  vo_sig :: sig_obs
  vo_sent :: bool
  vo_ack :: "string option"

text \<open>The discovery socket is closed before the connection to the server is made.\<close>

definition prov_setup :: "prov_cfg \<Rightarrow> string \<Rightarrow> prov_obs \<Rightarrow> prov_sess option \<times> prov_ev list" where
  "prov_setup cfg lan ob =
     (case allocate_stun_socket (vo_alloc ob) of
        (None, ev) \<Rightarrow> (None, ev)
      | (Some udp, ev) \<Rightarrow>
          (case vo_srflx ob of
             None \<Rightarrow> (None, ev @ [Freed (PUdp udp)])
           | Some b \<Rightarrow>
               let ev1 = ev @ [Freed (PUdp udp)] in
               (case sig_open cfg (vo_sig ob) of
                  (None, ev2) \<Rightarrow> (None, ev1 @ ev2)
                | (Some sig, ev2) \<Rightarrow>
                    let ev3 = ev1 @ ev2 @ [ProvSent (prov_register_msg cfg b lan)] in
                    if \<not> vo_sent ob then (None, ev3 @ sig_close sig)
                    else (case vo_ack ob of
                       None \<Rightarrow> (None, ev3 @ sig_close sig)
                     | Some msg \<Rightarrow>
                         if msg = [] then (None, ev3 @ sig_close sig)
                         else if snd (kv_get msg ''type'' 64) \<noteq> ''SRT_REGISTERED'' then (None, ev3 @ sig_close sig)
                         else (Some \<lparr>vs_sig = sig, vs_srflx = b, vs_port = vo_port ob\<rparr>, ev3)))))"

definition prov_peer :: "prov_sess \<Rightarrow> string \<Rightarrow> prov_request option" where
  "prov_peer vs msg =
     (let ip = snd (kv_get msg ''srflx_ip'' 64);
          port = atoi (snd (kv_get msg ''srflx_port'' 16));
          peer_lan = snd (kv_get msg ''lan_ip'' 64)
      in if ip = [] \<or> port \<le> 0 then None
         else Some \<lparr>vr_peer_ip = bcopy 64 (if peer_lan \<noteq> [] \<and> srflx_ip (vs_srflx vs) = ip then peer_lan else ip),
                    vr_peer_port = port, vr_local_port = vs_port vs, vr_my_srflx_ip = bcopy 64 (srflx_ip (vs_srflx vs))\<rparr>)"

text \<open>One turn: the flag, what was received (\<open>None\<close> is -1, the empty message 0), whether the ping went out.\<close>

record prov_turn_obs =
  vt_shutdown :: bool
  vt_got :: "string option"
  vt_ping :: bool

definition prov_turn :: "prov_cfg \<Rightarrow> prov_sess \<Rightarrow> prov_turn_obs \<Rightarrow> bool \<times> prov_ev list" where
  "prov_turn cfg vs ob =
     (if vt_shutdown ob then (False, [])
      else case vt_got ob of
        None \<Rightarrow> (False, [])
      | Some msg \<Rightarrow>
          if msg = [] then (vt_ping ob, [ProvSent (prov_ping_msg cfg)])
          else let t = snd (kv_get msg ''type'' 64) in
            if t = [] then (True, [])
            else if t = ''SRT_PEER'' then
              (True, case prov_peer vs msg of None \<Rightarrow> [] | Some req \<Rightarrow> [ProvPost req])
            else if t = ''PING'' then (True, [ProvSent pong_msg])
            else (True, []))"

text \<open>\<open>True\<close> is a session that still runs.\<close>

primrec prov_turns :: "prov_cfg \<Rightarrow> prov_sess \<Rightarrow> prov_turn_obs list \<Rightarrow> bool \<times> prov_ev list" where
  "prov_turns cfg vs [] = (True, [])"
| "prov_turns cfg vs (ob # obs) =
     (let (go, ev) = prov_turn cfg vs ob in
      if go then (let (r, ev') = prov_turns cfg vs obs in (r, ev @ ev'))
      else (False, ev @ sig_close (vs_sig vs)))"

definition run_signaling :: "prov_cfg \<Rightarrow> string \<Rightarrow> prov_obs \<Rightarrow> prov_turn_obs list \<Rightarrow> prov_sess option \<times> prov_ev list" where
  "run_signaling cfg lan ob obs =
     (case prov_setup cfg lan ob of
        (None, ev) \<Rightarrow> (None, ev)
      | (Some vs, ev) \<Rightarrow> (let (r, ev') = prov_turns cfg vs obs in (if r then Some vs else None, ev @ ev')))"

subsection \<open>The supervisor\<close>

text \<open>The exit code and what was done; the sessions are those of \<open>reconnect_loop\<close>, each a \<open>run_signaling\<close>.\<close>

definition prov_main :: "string option \<Rightarrow> bool \<Rightarrow> bool \<Rightarrow> (nat \<times> bool) list \<Rightarrow> int \<times> thread_out list" where
  "prov_main file startup_ok create_ok sessions =
     (if fst (prov_load_config file) \<noteq> 0 then (1, [])
      else if \<not> startup_ok then (1, [])
      else if \<not> create_ok then (1, [SrtStartup])
      else (0, [SrtStartup, PumpStarted] @ reconnect_loop sessions reconnect_min_ms @ [PumpJoined, SrtCleanup]))"

subsection \<open>TLS does not show\<close>

text \<open>What the transport delivers, as the segments of a TCP connection; over TLS a retry is invisible.\<close>

fun segments :: "bool \<Rightarrow> io_ans list \<Rightarrow> string list" where
  "segments tls [] = []"
| "segments tls (IoGot s # as) = s # segments tls as"
| "segments tls (IoAgain # as) = (if tls then segments tls as else [])"
| "segments tls (IoFail # as) = []"

fun accepted :: "bool \<Rightarrow> wr_ans list \<Rightarrow> nat list" where
  "accepted tls [] = []"
| "accepted tls (WrTook k # as) = k # accepted tls as"
| "accepted tls (WrAgain # as) = (if tls then accepted tls as else [])"
| "accepted tls (WrFail # as) = []"

lemma sig_read_segments: "ctrl_read_all (segments tls as) n = map_option (map_prod id (segments tls)) (sig_read_all tls as n)"
  by (induction tls as n rule: sig_read_all.induct) (auto simp: option.map_comp o_def split_def map_prod_def)

lemma sig_write_accepted:
  "ctrl_write_all (accepted tls acc) s = map_prod id (map_option (accepted tls)) (sig_write_all tls acc s)"
  by (induction tls acc s rule: sig_write_all.induct) (auto simp: split_def Let_def)

lemma sig_recv_segments: "ctrl_recv (segments tls as) cap = map_option (map_prod id (segments tls)) (sig_recv tls as cap)"
  by (auto simp: ctrl_recv_def sig_recv_def sig_read_segments Let_def split: option.splits)

lemma sig_send_accepted: "ctrl_send (accepted tls acc) msg = map_prod id (map_option (accepted tls)) (sig_send tls acc msg)"
  by (auto simp: ctrl_send_def sig_send_def sig_write_accepted Let_def split: prod.splits option.splits)

subsection \<open>What is open\<close>

primrec res_got :: "prov_ev list \<Rightarrow> prov_res list" where
  "res_got [] = []"
| "res_got (e # es) = (case e of Got r \<Rightarrow> [r] | _ \<Rightarrow> []) @ res_got es"

primrec res_freed :: "prov_ev list \<Rightarrow> prov_res list" where
  "res_freed [] = []"
| "res_freed (e # es) = (case e of Freed r \<Rightarrow> [r] | _ \<Rightarrow> []) @ res_freed es"

definition owned :: "prov_ev list \<Rightarrow> prov_res \<Rightarrow> int" where
  "owned ev x = int (count_list (res_got ev) x) - int (count_list (res_freed ev) x)"

lemma res_got_append [simp]: "res_got (a @ b) = res_got a @ res_got b" "res_freed (a @ b) = res_freed a @ res_freed b"
  by (induction a) auto

lemma owned_append [simp]: "owned (a @ b) x = owned a x + owned b x"
  by (simp add: owned_def)

lemma owned_events [simp]:
  "owned [] x = 0" "owned (Got r # es) x = (if x = r then 1 else 0) + owned es x"
  "owned (Freed r # es) x = owned es x - (if x = r then 1 else 0)" "owned (TlsUp c h # es) x = owned es x"
  "owned (SslShutdown # es) x = owned es x" "owned (ProvSent m # es) x = owned es x" "owned (ProvPost q # es) x = owned es x"
  by (simp_all add: owned_def)

definition sig_holds :: "sig_io \<Rightarrow> prov_res \<Rightarrow> int" where
  "sig_holds sig x = (if x = PMem \<or> x = PFd (si_fd sig) \<or> (x = PCtx \<or> x = PSsl) \<and> si_tls sig then 1 else 0)"

lemma sig_close_owned [simp]: "owned (sig_close sig) x = - sig_holds sig x"
  by (auto simp: sig_close_def sig_holds_def)

lemma sig_open_owned:
  "sig_open cfg ob = (r, ev) \<Longrightarrow> owned ev x = (case r of None \<Rightarrow> 0 | Some sig \<Rightarrow> sig_holds sig x)"
  by (auto simp: sig_open_def signaling_tcp_connect_def sig_fail_def sig_holds_def Let_def split: if_splits option.splits)

lemma prov_setup_owned:
  assumes "prov_setup cfg lan ob = (r, ev)"
  shows "owned ev x = (case r of None \<Rightarrow> 0 | Some vs \<Rightarrow> sig_holds (vs_sig vs) x)"
proof -
  obtain u ev0 where u: "allocate_stun_socket (vo_alloc ob) = (u, ev0)" by (cases "allocate_stun_socket (vo_alloc ob)")
  then have u0: "owned ev0 x = (case u of None \<Rightarrow> 0 | Some s \<Rightarrow> if x = PUdp s then 1 else 0)"
    by (auto simp: allocate_stun_socket_def split: option.splits if_splits)
  obtain g ev1 where g: "sig_open cfg (vo_sig ob) = (g, ev1)" by (cases "sig_open cfg (vo_sig ob)")
  show ?thesis
    using assms u0 sig_open_owned [OF g, of x]
    by (auto simp: prov_setup_def u g Let_def split: option.splits if_splits)
qed

lemma prov_turn_owned: "prov_turn cfg vs ob = (go, ev) \<Longrightarrow> owned ev x = 0"
  by (auto simp: prov_turn_def Let_def split: if_splits option.splits)

lemma prov_turns_owned:
  "prov_turns cfg vs obs = (r, ev) \<Longrightarrow> owned ev x = (if r then 0 else - sig_holds (vs_sig vs) x)"
proof (induction obs arbitrary: r ev)
  case (Cons ob obs)
  obtain go e1 where t: "prov_turn cfg vs ob = (go, e1)" by (cases "prov_turn cfg vs ob")
  obtain r2 e2 where s: "prov_turns cfg vs obs = (r2, e2)" by (cases "prov_turns cfg vs obs")
  show ?case using Cons.IH [OF s] Cons.prems t s prov_turn_owned [OF t] by (auto split: if_splits)
qed simp

subsection \<open>What is sent before TLS is up\<close>

definition guarded :: "prov_ev \<Rightarrow> prov_ev list \<Rightarrow> bool" where
  "guarded t ev \<longleftrightarrow> (\<forall>i < length ev. \<forall>m. ev ! i = ProvSent m \<longrightarrow> t \<in> set (take i ev))"

definition quiet :: "prov_ev list \<Rightarrow> bool" where
  "quiet ev \<longleftrightarrow> (\<forall>m. ProvSent m \<notin> set ev)"

lemma quiet_guarded: "quiet ev \<Longrightarrow> guarded t ev"
  by (metis guarded_def nth_mem quiet_def)

lemma guarded_up: "quiet a \<Longrightarrow> t \<in> set a \<Longrightarrow> guarded t (a @ b)"
  by (auto simp: guarded_def quiet_def nth_append) (metis nth_mem)

definition tls_up :: "prov_cfg \<Rightarrow> prov_ev" where
  "tls_up cfg = TlsUp (pf_ca cfg) (if pf_verify_host cfg \<noteq> 0 then Some (pf_signaling_host cfg) else None)"

lemma sig_open_quiet:
  assumes "sig_open cfg ob = (r, ev)" "\<not> strcaseeq (pf_scheme cfg) ''plain''"
  shows "quiet ev \<and> (r \<noteq> None \<longrightarrow> tls_up cfg \<in> set ev)"
  using assms
  by (auto simp: sig_open_def signaling_tcp_connect_def sig_fail_def quiet_def tls_up_def Let_def split: if_splits option.splits)

lemma prov_setup_guarded:
  assumes "prov_setup cfg lan ob = (r, ev)" "\<not> strcaseeq (pf_scheme cfg) ''plain''"
  shows "(r = None \<longrightarrow> guarded (tls_up cfg) ev) \<and> (r \<noteq> None \<longrightarrow> guarded (tls_up cfg) (ev @ rest))"
proof -
  obtain u ev0 where u: "allocate_stun_socket (vo_alloc ob) = (u, ev0)" by (cases "allocate_stun_socket (vo_alloc ob)")
  then have q: "quiet ev0" by (auto simp: allocate_stun_socket_def quiet_def split: option.splits if_splits)
  obtain g ev1 where g: "sig_open cfg (vo_sig ob) = (g, ev1)" by (cases "sig_open cfg (vo_sig ob)")
  note s = sig_open_quiet [OF g assms(2)]
  have up: "guarded (tls_up cfg) (ev0 @ Freed f # ev1 @ z)" if "g \<noteq> None" for f z
    using guarded_up [of "ev0 @ Freed f # ev1" "tls_up cfg" z] q s that by (auto simp: quiet_def)
  have n: "guarded (tls_up cfg) (ev0 @ Freed f # ev1)" for f using quiet_guarded q s by (auto simp: quiet_def)
  have d: "guarded (tls_up cfg) (ev0 @ [Freed f])" "guarded (tls_up cfg) ev0" for f using quiet_guarded q by (auto simp: quiet_def)
  show ?thesis using assms(1) up n d by (auto simp: prov_setup_def u g Let_def split: option.splits if_splits)
qed

text \<open>TLS is reported up only after every step it took.\<close>

definition tls_checked :: "prov_cfg \<Rightarrow> sig_obs \<Rightarrow> bool" where
  "tls_checked cfg ob \<longleftrightarrow> so_ca ob \<and> so_cert ob \<and> so_key ob \<and> so_match ob \<and> so_handshake ob \<and> so_verified ob
     \<and> (pf_verify_host cfg \<noteq> 0 \<longrightarrow> so_set_host ob)"

lemma sig_open_checked: "sig_open cfg ob = (r, ev) \<Longrightarrow> TlsUp c h \<in> set ev \<Longrightarrow> tls_checked cfg ob"
  by (auto simp: sig_open_def signaling_tcp_connect_def sig_fail_def tls_checked_def Let_def split: if_splits option.splits)

lemma sig_close_no_tls: "TlsUp c h \<notin> set (sig_close sig)"
  by (simp add: sig_close_def)

lemma prov_turns_no_tls: "prov_turns cfg vs obs = (r, ev) \<Longrightarrow> TlsUp c h \<notin> set ev"
proof (induction obs arbitrary: r ev)
  case (Cons ob obs)
  obtain go e1 where t: "prov_turn cfg vs ob = (go, e1)" by (cases "prov_turn cfg vs ob")
  then have "TlsUp c h \<notin> set e1" by (auto simp: prov_turn_def Let_def split: if_splits option.splits)
  moreover obtain r2 e2 where s: "prov_turns cfg vs obs = (r2, e2)" by (cases "prov_turns cfg vs obs")
  ultimately show ?case using Cons.IH [OF s] Cons.prems t s by (auto simp: sig_close_no_tls split: if_splits)
qed simp

lemma prov_setup_checked: "prov_setup cfg lan ob = (r, ev) \<Longrightarrow> TlsUp c h \<in> set ev \<Longrightarrow> tls_checked cfg (vo_sig ob)"
  by (auto simp: prov_setup_def allocate_stun_socket_def Let_def sig_close_no_tls
      split: if_splits option.splits prod.splits dest: sig_open_checked)

lemma run_signaling_checked:
  assumes "run_signaling cfg lan ob obs = (r, ev)" "TlsUp c h \<in> set ev"
  shows "tls_checked cfg (vo_sig ob)"
proof -
  obtain s e1 where s: "prov_setup cfg lan ob = (s, e1)" by (cases "prov_setup cfg lan ob")
  then have "TlsUp c h \<in> set e1" using assms prov_turns_no_tls
    by (auto simp: run_signaling_def split: option.splits prod.splits)
  then show ?thesis using prov_setup_checked [OF s] by blast
qed

lemma strcaseeq_tls_plain: "strcaseeq s ''tls'' \<Longrightarrow> \<not> strcaseeq s ''plain''"
  by (auto simp: strcaseeq_def)

definition sig_list :: "sig_io \<Rightarrow> prov_res list" where
  "sig_list g = [PMem, PFd (si_fd g)] @ (if si_tls g then [PCtx, PSsl] else [])"

lemma sig_holds_count: "sig_holds g x = int (count (mset (sig_list g)) x)"
  by (auto simp: sig_holds_def sig_list_def)

lemma mset_of_counts:
  assumes "\<And>x. int (count_list a x) = int (count_list b x) + int (count M x)"
  shows "mset a = mset b + M"
proof (rule multiset_eqI)
  fix x
  show "count (mset a) x = count (mset b + M) x" using assms [of x] by (simp add: count_mset)
qed

subsection \<open>A sample\<close>

lemma prov_loop_line:
  assumes "CHR 0x0A \<notin> set l" "length l < 255"
  shows "prov_loop (l @ nl @ r) cfg = prov_loop r (prov_line (l @ nl) cfg)"
proof -
  have "fgets 256 (l @ nl @ r) = Some (l @ nl, r)"
    using fgets_loop_line [of l 255 r] assms by (simp add: fgets_def nl_def del: fgets_loop_numeral)
  then show ?thesis by (simp add: prov_loop.simps [of "l @ nl @ r"])
qed

lemma prov_loop_lines:
  "\<forall>l \<in> set ls. CHR 0x0A \<notin> set l \<and> length l < 255 \<Longrightarrow>
     prov_loop (concat (map (\<lambda>l. l @ nl) ls)) cfg = fold prov_line (map (\<lambda>l. l @ nl) ls) cfg"
proof (induction ls arbitrary: cfg)
  case Nil
  then show ?case by (simp add: prov_loop.simps fgets_def)
qed (simp add: prov_loop_line)

definition tls_lines :: "string list" where
  "tls_lines = [''SIGNALING_HOST=s'', ''STUN_HOST=t'', ''SERVICE_ID=cam'', ''SIGNALING_SCHEME=TLS'', ''SIGNALING_CA=a'', ''SIGNALING_CERT=c'', ''SIGNALING_KEY=k'']"

definition tls_cfg :: prov_cfg where
  "tls_cfg = prov_defaults\<lparr>pf_signaling_host := ''s'', pf_stun_host := ''t'', pf_service_id := ''cam'', pf_scheme := ''TLS'',
     pf_ca := ''a'', pf_cert := ''c'', pf_key := ''k''\<rparr>"

lemma tls_line_kvs:
  "prov_line_kv (''SIGNALING_HOST=s'' @ nl) = Some (''SIGNALING_HOST'', ''s'')" "prov_line_kv (''STUN_HOST=t'' @ nl) = Some (''STUN_HOST'', ''t'')"
  "prov_line_kv (''SERVICE_ID=cam'' @ nl) = Some (''SERVICE_ID'', ''cam'')" "prov_line_kv (''SIGNALING_SCHEME=TLS'' @ nl) = Some (''SIGNALING_SCHEME'', ''TLS'')"
  "prov_line_kv (''SIGNALING_CA=a'' @ nl) = Some (''SIGNALING_CA'', ''a'')" "prov_line_kv (''SIGNALING_CERT=c'' @ nl) = Some (''SIGNALING_CERT'', ''c'')"
  "prov_line_kv (''SIGNALING_KEY=k'' @ nl) = Some (''SIGNALING_KEY'', ''k'')"
  by code_simp+

lemma tls_keys:
  "prov_key ''SIGNALING_HOST'' = Some (PS V_signaling_host)" "prov_key ''STUN_HOST'' = Some (PS V_stun_host)"
  "prov_key ''SERVICE_ID'' = Some (PS V_service_id)" "prov_key ''SIGNALING_SCHEME'' = Some (PS V_scheme)"
  "prov_key ''SIGNALING_CA'' = Some (PS V_ca)" "prov_key ''SIGNALING_CERT'' = Some (PS V_cert)" "prov_key ''SIGNALING_KEY'' = Some (PS V_key)"
  by (subst prov_key_upper; code_simp)+

lemma tls_prov_line:
  "prov_line (''SIGNALING_HOST=s'' @ nl) cfg = cfg\<lparr>pf_signaling_host := ''s''\<rparr>" "prov_line (''STUN_HOST=t'' @ nl) cfg = cfg\<lparr>pf_stun_host := ''t''\<rparr>"
  "prov_line (''SERVICE_ID=cam'' @ nl) cfg = cfg\<lparr>pf_service_id := ''cam''\<rparr>" "prov_line (''SIGNALING_SCHEME=TLS'' @ nl) cfg = cfg\<lparr>pf_scheme := ''TLS''\<rparr>"
  "prov_line (''SIGNALING_CA=a'' @ nl) cfg = cfg\<lparr>pf_ca := ''a''\<rparr>" "prov_line (''SIGNALING_CERT=c'' @ nl) cfg = cfg\<lparr>pf_cert := ''c''\<rparr>"
  "prov_line (''SIGNALING_KEY=k'' @ nl) cfg = cfg\<lparr>pf_key := ''k''\<rparr>"
  unfolding prov_line_def tls_line_kvs option.case prod.case tls_keys by (simp_all add: bcopy_def)

lemma tls_load: "prov_load_config (Some (concat (map (\<lambda>l. l @ nl) tls_lines))) = (0, tls_cfg)"
proof -
  have "prov_loop (concat (map (\<lambda>l. l @ nl) tls_lines)) prov_defaults = fold prov_line (map (\<lambda>l. l @ nl) tls_lines) prov_defaults"
    by (rule prov_loop_lines) (simp add: tls_lines_def)
  also have "\<dots> = tls_cfg"
    by (simp only: tls_lines_def list.map fold.simps o_apply id_apply tls_prov_line) (simp add: tls_cfg_def)
  finally have l: "prov_loop (concat (map (\<lambda>l. l @ nl) tls_lines)) prov_defaults = tls_cfg" .
  have "strcaseeq ''TLS'' ''tls''" by code_simp
  then have "prov_check tls_cfg" by (simp add: prov_check_def tls_cfg_def)
  then show ?thesis by (simp add: prov_load_config_def l)
qed

subsection \<open>Properties\<close>

text \<open>
  C26. TLS is invisible to the protocol: over either transport the bytes written and the message read are those
  of \<open>srt_thread.c\<close>'s functions on the same connection, with the records that only ask for a retry left out.
\<close>

theorem provider_transport_equivalent:
  "map_option (map_prod id (segments tls)) (sig_recv tls as cap) = ctrl_recv (segments tls as) cap
   \<and> map_prod id (map_option (accepted tls)) (sig_send tls acc msg) = ctrl_send (accepted tls acc) msg"
  by (simp add: sig_recv_segments sig_send_accepted)

text \<open>
  C22. A session closes and frees exactly what it opened and allocated, on every path out of it; while it runs it
  holds its connection, and no discovery socket.
\<close>

theorem provider_session_releases:
  assumes "run_signaling cfg lan ob obs = (r, ev)"
  shows "(r = None \<longrightarrow> mset (res_got ev) = mset (res_freed ev))
    \<and> (\<forall>vs. r = Some vs \<longrightarrow> mset (res_got ev) = mset (res_freed ev)
         + mset ([PMem, PFd (si_fd (vs_sig vs))] @ (if si_tls (vs_sig vs) then [PCtx, PSsl] else [])))"
proof -
  have o: "owned ev x = (case r of None \<Rightarrow> 0 | Some vs \<Rightarrow> sig_holds (vs_sig vs) x)" for x
  proof -
    obtain s e1 where s: "prov_setup cfg lan ob = (s, e1)" by (cases "prov_setup cfg lan ob")
    show ?thesis
    proof (cases s)
      case None
      then show ?thesis using assms s prov_setup_owned [OF s, of x] by (simp add: run_signaling_def)
    next
      case (Some vs)
      obtain b e2 where t: "prov_turns cfg vs obs = (b, e2)" by (cases "prov_turns cfg vs obs")
      show ?thesis using assms s Some t prov_setup_owned [OF s, of x] prov_turns_owned [OF t, of x]
        by (auto simp: run_signaling_def)
    qed
  qed
  have c: "int (count_list (res_got ev) x) = int (count_list (res_freed ev) x)
      + (case r of None \<Rightarrow> 0 | Some vs \<Rightarrow> sig_holds (vs_sig vs) x)" for x using o [of x] by (simp add: owned_def)
  show ?thesis
  proof (cases r)
    case None
    then show ?thesis using mset_of_counts [of "res_got ev" "res_freed ev" "{#}"] c by simp
  next
    case (Some vs)
    have "mset (res_got ev) = mset (res_freed ev) + mset (sig_list (vs_sig vs))"
      by (rule mset_of_counts) (use c Some in \<open>simp add: sig_holds_count\<close>)
    then show ?thesis using Some by (simp add: sig_list_def)
  qed
qed

text \<open>
  C21. No silent downgrade: when the configuration asks for TLS, the load succeeds only with a CA, a certificate and
  a key, and nothing at all is sent to the server before the handshake is done and its certificate verified
  against that CA, and against the server's name unless that check is switched off.
\<close>

theorem provider_never_downgrades:
  assumes "prov_load_config file = (0, cfg)" "strcaseeq (pf_scheme cfg) ''tls''" "run_signaling cfg lan ob obs = (r, a @ ProvSent m # b)"
  shows "TlsUp (pf_ca cfg) (if pf_verify_host cfg \<noteq> 0 then Some (pf_signaling_host cfg) else None) \<in> set a
    \<and> pf_ca cfg \<noteq> [] \<and> pf_cert cfg \<noteq> [] \<and> pf_key cfg \<noteq> []
    \<and> so_ca (vo_sig ob) \<and> so_handshake (vo_sig ob) \<and> so_verified (vo_sig ob) \<and> (pf_verify_host cfg = 0 \<or> so_set_host (vo_sig ob))"
proof -
  have "prov_check cfg" using assms(1) by (auto simp: prov_load_config_def Let_def split: option.splits if_splits)
  then have k: "pf_ca cfg \<noteq> [] \<and> pf_cert cfg \<noteq> [] \<and> pf_key cfg \<noteq> []" using assms(2) by (simp add: prov_check_def)
  obtain s e1 where s: "prov_setup cfg lan ob = (s, e1)" by (cases "prov_setup cfg lan ob")
  have "guarded (tls_up cfg) (a @ ProvSent m # b)"
  proof (cases s)
    case None
    then show ?thesis using assms(3) s prov_setup_guarded [OF s strcaseeq_tls_plain [OF assms(2)]] by (simp add: run_signaling_def)
  next
    case (Some vs)
    obtain q e2 where t: "prov_turns cfg vs obs = (q, e2)" by (cases "prov_turns cfg vs obs")
    have "guarded (tls_up cfg) (e1 @ e2)" using prov_setup_guarded [OF s strcaseeq_tls_plain [OF assms(2)], of e2] Some by simp
    then show ?thesis using assms(3) s Some t by (simp add: run_signaling_def)
  qed
  moreover have "length a < length (a @ ProvSent m # b)" "(a @ ProvSent m # b) ! length a = ProvSent m"
    "take (length a) (a @ ProvSent m # b) = a" by simp_all
  ultimately have t: "tls_up cfg \<in> set a" unfolding guarded_def by metis
  then have "TlsUp (pf_ca cfg) (if pf_verify_host cfg \<noteq> 0 then Some (pf_signaling_host cfg) else None) \<in> set (a @ ProvSent m # b)"
    by (simp add: tls_up_def)
  then have "tls_checked cfg (vo_sig ob)" by (rule run_signaling_checked [OF assms(3)])
  then show ?thesis using k t by (auto simp: tls_up_def tls_checked_def)
qed

definition of_daemon :: "pump_request \<Rightarrow> prov_request" where
  "of_daemon r = \<lparr>vr_peer_ip = pr_peer_ip r, vr_peer_port = pr_peer_port r, vr_local_port = pr_local_port r, vr_my_srflx_ip = pr_my_srflx_ip r\<rparr>"

definition tls_calls :: sig_obs where
  "tls_calls = \<lparr>so_mem = True, so_resolved = True, so_sock = Some 5, so_conn = True, so_ctx = True, so_ca = True, so_cert = True,
     so_key = True, so_match = True, so_ssl = True, so_set_host = True, so_handshake = True, so_verified = True\<rparr>"

definition tls_obs :: prov_obs where
  "tls_obs = \<lparr>vo_alloc = \<lparr>al_sock = Some 4, al_bind = True, al_sock2 = None, al_bind2 = False\<rparr>, vo_port = 5000,
     vo_srflx = Some \<lparr>srflx_ip = ''1.2.3.4'', srflx_port = 777\<rparr>, vo_sig = tls_calls, vo_sent = False, vo_ack = None\<rparr>"

lemma tls_run:
  "run_signaling tls_cfg [] tls_obs [] = (None, [Got (PUdp 4), Freed (PUdp 4), Got PMem, Got (PFd 5), Got PCtx, Got PSsl, TlsUp ''a'' (Some ''s'')]
     @ ProvSent (prov_register_msg tls_cfg \<lparr>srflx_ip = ''1.2.3.4'', srflx_port = 777\<rparr> [])
     # [SslShutdown, Freed PSsl, Freed PCtx, Freed (PFd 5), Freed PMem])"
proof -
  have "\<not> strcaseeq ''TLS'' ''plain''" by code_simp
  then have "sig_open tls_cfg tls_calls = (Some \<lparr>si_fd = 5, si_tls = True\<rparr>, [Got PMem, Got (PFd 5), Got PCtx, Got PSsl, TlsUp ''a'' (Some ''s'')])"
    by (simp add: sig_open_def tls_calls_def signaling_tcp_connect_def tls_cfg_def prov_defaults_def)
  then show ?thesis
    by (simp add: run_signaling_def prov_setup_def tls_obs_def allocate_stun_socket_def sig_close_def)
qed

theorem provider_session_releases_witness:
  "\<exists>ev. run_signaling tls_cfg [] tls_obs [] = (None, ev) \<and> length ev = 13 \<and> mset (res_got ev) = mset (res_freed ev)"
  using tls_run provider_session_releases [OF tls_run] by simp

theorem provider_never_downgrades_witness:
  "prov_load_config (Some (concat (map (\<lambda>l. l @ nl) tls_lines))) = (0, tls_cfg)
   \<and> (\<exists>a m b. run_signaling tls_cfg [] tls_obs [] = (None, a @ ProvSent m # b) \<and> TlsUp ''a'' (Some ''s'') \<in> set a)"
proof -
  have "strcaseeq (pf_scheme tls_cfg) ''tls''" unfolding tls_cfg_def by code_simp
  moreover have "pf_ca tls_cfg = ''a''" "pf_verify_host tls_cfg \<noteq> 0" "pf_signaling_host tls_cfg = ''s''"
    by (simp_all add: tls_cfg_def prov_defaults_def)
  ultimately have "TlsUp ''a'' (Some ''s'') \<in> set [Got (PUdp 4), Freed (PUdp 4), Got PMem, Got (PFd 5), Got PCtx, Got PSsl, TlsUp ''a'' (Some ''s'')]"
    using provider_never_downgrades [OF tls_load _ tls_run] by presburger
  then show ?thesis using tls_load tls_run by blast
qed

text \<open>
  The provider and the daemon speak alike: with the same identity, token and addresses they register with the
  same text, ping with the same text, and ask their pumps for the same peer, the daemon's descriptor apart.
\<close>

theorem provider_speaks_as_daemon:
  assumes "sc_node_id c = pf_service_id cfg" "sc_ctrl_token c = pf_api_token cfg" "cs_srflx cs = vs_srflx vs" "cs_port cs = vs_port vs"
  shows "prov_register_msg cfg b lan = register_msg c b lan \<and> prov_ping_msg cfg = ping_msg c
    \<and> prov_peer vs msg = map_option of_daemon (peer_request cs msg)"
  using assms
  by (simp add: prov_register_msg_def prov_register_text_def register_msg_def register_text_def prov_ping_msg_def ping_msg_def
      prov_peer_def peer_request_def of_daemon_def Let_def)

theorem provider_speaks_as_daemon_witness:
  "prov_ping_msg (prov_defaults\<lparr>pf_service_id := ''cam''\<rparr>)
     = ping_msg ((snapshot_config ap2p_state_init)\<lparr>sc_node_id := ''cam'', sc_ctrl_token := []\<rparr>)"
  using provider_speaks_as_daemon [of "(snapshot_config ap2p_state_init)\<lparr>sc_node_id := ''cam'', sc_ctrl_token := []\<rparr>"
      "prov_defaults\<lparr>pf_service_id := ''cam''\<rparr>" "\<lparr>cs_udp = 4, cs_port = 7, cs_srflx = b, cs_tick = 0\<rparr>"
      "\<lparr>vs_sig = g, vs_srflx = b, vs_port = 7\<rparr>" for g b]
  by (simp add: prov_defaults_def)

end
