(* ===== verification/ProviderPump.thy ===== *)
theory ProviderPump
  imports ProviderSession
begin

text \<open>
  The provider's pump thread (\<open>provider_srt.c\<close>): the mailbox it shares with the signaling thread, one session
  from the rendezvous to the last byte, and the wait on the condition variable.  The mailbox is \<open>Pump\<close>'s with
  the descriptors left out, for this program opens its SRT port itself; \<open>vp_open\<close>, \<open>vp_again\<close>, \<open>vp_posted\<close> and
  \<open>vp_taken\<close> are ghosts: the open SRT sockets, those \<open>srt_close\<close> was called on again, and the requests posted
  and taken.
\<close>

subsection \<open>The mailbox\<close>

datatype prov_pc =
    PvWaiting
  | PvConnecting prov_request
  | PvOpened prov_request int
  | PvPumping prov_request int
  | PvClosing prov_request int
  | PvExited

record prov_pump =
  vp_pending :: "prov_request option"
  vp_cancel :: bool
  vp_running :: bool
  vp_active :: int
  vp_pc :: prov_pc
  vp_open :: "int list"
  vp_again :: "int list"
  vp_posted :: "prov_request list"
  vp_taken :: "prov_request list"

definition prov_pump_init :: prov_pump where
  "prov_pump_init = \<lparr>vp_pending = None, vp_cancel = False, vp_running = False, vp_active = -1, vp_pc = PvWaiting,
     vp_open = [], vp_again = [], vp_posted = [], vp_taken = []\<rparr>"

definition prov_srt_close :: "int \<Rightarrow> prov_pump \<Rightarrow> prov_pump" where
  "prov_srt_close s p =
     (if s \<in> set (vp_open p) then p\<lparr>vp_open := filter (\<lambda>x. x \<noteq> s) (vp_open p)\<rparr>
      else p\<lparr>vp_again := vp_again p @ [s]\<rparr>)"

definition prov_post :: "prov_request \<Rightarrow> prov_pump \<Rightarrow> prov_pump" where
  "prov_post req p =
     (let p1 = p\<lparr>vp_cancel := True\<rparr>;
          p2 = (if vp_active p1 \<noteq> -1 then (prov_srt_close (vp_active p1) p1)\<lparr>vp_active := -1\<rparr> else p1)
      in p2\<lparr>vp_pending := Some req, vp_posted := vp_posted p2 @ [req]\<rparr>)"

definition prov_take :: "prov_request \<Rightarrow> prov_pump \<Rightarrow> prov_pump" where
  "prov_take r p = p\<lparr>vp_pending := None, vp_cancel := False, vp_running := True, vp_pc := PvConnecting r, vp_taken := vp_taken p @ [r]\<rparr>"

datatype prov_event = PvPost prov_request | PvTake | PvFailed | PvConnected int | PvPublish | PvWithdraw | PvCloseSrt | PvStop

text \<open>\<open>None\<close> is an event that is not possible there.\<close>

definition prov_exec :: "prov_event \<Rightarrow> prov_pump \<Rightarrow> prov_pump option" where
  "prov_exec e p =
     (case e of
        PvPost req \<Rightarrow> Some (prov_post req p)
      | PvTake \<Rightarrow> (case (vp_pc p, vp_pending p) of (PvWaiting, Some r) \<Rightarrow> Some (prov_take r p) | _ \<Rightarrow> None)
      | PvFailed \<Rightarrow> (case vp_pc p of PvConnecting r \<Rightarrow> Some (p\<lparr>vp_pc := PvWaiting, vp_running := False\<rparr>) | _ \<Rightarrow> None)
      | PvConnected s \<Rightarrow>
          (case vp_pc p of
             PvConnecting r \<Rightarrow>
               if 0 \<le> s \<and> s \<notin> set (vp_open p) then Some (p\<lparr>vp_pc := PvOpened r s, vp_open := s # vp_open p\<rparr>) else None
           | _ \<Rightarrow> None)
      | PvPublish \<Rightarrow> (case vp_pc p of PvOpened r s \<Rightarrow> Some (p\<lparr>vp_active := s, vp_pc := PvPumping r s\<rparr>) | _ \<Rightarrow> None)
      | PvWithdraw \<Rightarrow> (case vp_pc p of PvPumping r s \<Rightarrow> Some (p\<lparr>vp_active := -1, vp_pc := PvClosing r s\<rparr>) | _ \<Rightarrow> None)
      | PvCloseSrt \<Rightarrow>
          (case vp_pc p of PvClosing r s \<Rightarrow> Some ((prov_srt_close s p)\<lparr>vp_running := False, vp_pc := PvWaiting\<rparr>) | _ \<Rightarrow> None)
      | PvStop \<Rightarrow> (case vp_pc p of PvWaiting \<Rightarrow> Some (p\<lparr>vp_pc := PvExited\<rparr>) | _ \<Rightarrow> None))"

fun prov_run :: "prov_event list \<Rightarrow> prov_pump \<Rightarrow> prov_pump option" where
  "prov_run [] p = Some p"
| "prov_run (e # es) p = (case prov_exec e p of None \<Rightarrow> None | Some p' \<Rightarrow> prov_run es p')"

subsection \<open>One session\<close>

definition prov_http_text :: "prov_cfg \<Rightarrow> string" where
  "prov_http_text cfg =
     ''GET '' @ pf_local_http_path cfg @ '' HTTP/1.1'' @ cr_lf @ ''Host: '' @ pf_local_host cfg @ '':''
     @ show_int (pf_local_port cfg) @ cr_lf @ ''User-Agent: arcis-srt-provider/3.0'' @ cr_lf
     @ ''Accept: */*'' @ cr_lf @ ''Connection: keep-alive'' @ cr_lf
     @ (if pf_local_http_auth cfg \<noteq> [] then ''Authorization: '' else []) @ pf_local_http_auth cfg
     @ (if pf_local_http_auth cfg \<noteq> [] then cr_lf else []) @ cr_lf"

definition prov_send_http_get :: "prov_cfg \<Rightarrow> int \<Rightarrow> string option" where
  "prov_send_http_get cfg sent =
     (let req = prov_http_text cfg in
      if length req \<ge> 1024 then None else if sent \<noteq> int (length req) then None else Some req)"

text \<open>The loops are those of \<open>srt_thread.c\<close>; \<open>Stopped\<close> is the shutdown or the cancel flag.\<close>

definition pump_local_to_srt ::
    "prov_cfg \<Rightarrow> bool \<Rightarrow> int \<Rightarrow> string \<Rightarrow> string list \<Rightarrow> src_obs list \<Rightarrow> srt_ans list \<Rightarrow> bool \<times> string" where
  "pump_local_to_srt cfg have_mem sent mem segs obs ans =
     (if \<not> have_mem then (False, [])
      else if pf_local_http_path cfg = [] then (True, pump_loop obs ans)
      else case prov_send_http_get cfg sent of
        None \<Rightarrow> (False, [])
      | Some _ \<Rightarrow>
          (case read_http_response_headers mem local_buffer_size segs of
             None \<Rightarrow> (False, [])
           | Some (body, _) \<Rightarrow>
               (let (res, out, rest) = srt_pump_bytes ans body in
                case res of
                  PumpFailed \<Rightarrow> (False, out)
                | PumpStopped \<Rightarrow> (True, out)
                | PumpOk \<Rightarrow> (True, out @ pump_loop obs rest))))"

record prov_rdv =
  vr_create :: "int option"
  vr_options :: "bool list"
  vr_bind :: bool
  vr_resolve :: bool
  vr_connect :: bool

definition prov_srt_options :: "prov_cfg \<Rightarrow> bool list \<Rightarrow> bool" where
  "prov_srt_options cfg oks \<longleftrightarrow> (\<forall>b \<in> set (take (if pf_service_id cfg \<noteq> [] then 8 else 7) oks). b)"

definition prov_rendezvous_connect :: "prov_cfg \<Rightarrow> prov_rdv \<Rightarrow> int option \<times> rdv_event list" where
  "prov_rendezvous_connect cfg r =
     (case vr_create r of
        None \<Rightarrow> (None, [])
      | Some s \<Rightarrow>
          if \<not> prov_srt_options cfg (vr_options r) then (None, [SrtCreated s, SrtClosed s])
          else if \<not> vr_bind r then (None, [SrtCreated s, SrtClosed s])
          else if \<not> vr_resolve r then (None, [SrtCreated s, SrtClosed s])
          else if \<not> vr_connect r then (None, [SrtCreated s, SrtClosed s])
          else (Some s, [SrtCreated s]))"

text \<open>Between publishing the SRT socket and withdrawing it: the bytes sent, and what became of the local socket.\<close>

definition prov_serve ::
    "prov_cfg \<Rightarrow> bool \<Rightarrow> int option \<Rightarrow> bool \<Rightarrow> bool \<Rightarrow> int \<Rightarrow> string \<Rightarrow> string list \<Rightarrow> src_obs list \<Rightarrow> srt_ans list
       \<Rightarrow> string \<times> int list" where
  "prov_serve cfg resolved sock conn_ok have_mem sent mem segs obs ans =
     (case tcp_connect resolved sock conn_ok of
        (None, cl) \<Rightarrow> ([], cl)
      | (Some fd, cl) \<Rightarrow> (snd (pump_local_to_srt cfg have_mem sent mem segs obs ans), cl @ [fd]))"

subsection \<open>The wait\<close>

text \<open>
  The pump thread's loop against those that wake it.  From \<open>Tested\<close> it holds the mutex and is about to
  call \<open>pthread_cond_wait\<close>, which releases the mutex and sleeps in one step; \<open>Running\<close> is a session of a request
  it has taken.  \<open>post_pump_request\<close>, called by the signaling loop of \<open>main\<close>, takes the mutex; the signal handler
  and the end of \<open>main\<close> do not.  The handler stays installed: a signal may arrive at any time, also while another
  one is handled and while \<open>main\<close> joins the thread; \<open>ws_handlers\<close> counts the activations that have set the flag
  and not yet broadcast.  \<open>Spurious\<close> is the freedom POSIX gives \<open>pthread_cond_wait\<close> to return without cause.
\<close>

datatype wait_pc = Testing | Tested | Asleep | Running | Finished
datatype main_pc = Serving | Joining | Joined
datatype wait_ev = PumpStep | PostRequest | SignalArrives | HandlerBroadcast | MainStep | Spurious

record wait_state =
  ws_shutdown :: bool
  ws_pending :: bool
  ws_handlers :: nat
  ws_pump :: wait_pc
  ws_main :: main_pc

definition wait_init :: wait_state where
  "wait_init = \<lparr>ws_shutdown = False, ws_pending = False, ws_handlers = 0, ws_pump = Testing, ws_main = Serving\<rparr>"

definition woken :: "wait_state \<Rightarrow> wait_state" where
  "woken w = (if ws_pump w = Asleep then w\<lparr>ws_pump := Testing\<rparr> else w)"

inductive wait_step :: "wait_state \<Rightarrow> wait_ev \<Rightarrow> wait_state \<Rightarrow> bool" where
  wait_finish: "ws_pump w = Testing \<Longrightarrow> ws_shutdown w \<Longrightarrow> wait_step w PumpStep (w\<lparr>ws_pump := Finished\<rparr>)"
| wait_take: "ws_pump w = Testing \<Longrightarrow> ws_pending w \<Longrightarrow> \<not> ws_shutdown w
    \<Longrightarrow> wait_step w PumpStep (w\<lparr>ws_pending := False, ws_pump := Running\<rparr>)"
| wait_stay: "ws_pump w = Testing \<Longrightarrow> \<not> ws_pending w \<Longrightarrow> \<not> ws_shutdown w \<Longrightarrow> wait_step w PumpStep (w\<lparr>ws_pump := Tested\<rparr>)"
| wait_sleep: "ws_pump w = Tested \<Longrightarrow> wait_step w PumpStep (w\<lparr>ws_pump := Asleep\<rparr>)"
| wait_served: "ws_pump w = Running \<Longrightarrow> wait_step w PumpStep (w\<lparr>ws_pump := (if ws_shutdown w then Finished else Testing)\<rparr>)"
| wait_post: "ws_pump w \<noteq> Tested \<Longrightarrow> ws_main w = Serving \<Longrightarrow> wait_step w PostRequest (woken (w\<lparr>ws_pending := True\<rparr>))"
| wait_flag: "wait_step w SignalArrives (w\<lparr>ws_shutdown := True, ws_handlers := Suc (ws_handlers w)\<rparr>)"
| wait_signal: "ws_handlers w = Suc n \<Longrightarrow> wait_step w HandlerBroadcast (woken (w\<lparr>ws_handlers := n\<rparr>))"
| wait_end: "ws_main w = Serving \<Longrightarrow> ws_shutdown w \<Longrightarrow> wait_step w MainStep (woken (w\<lparr>ws_main := Joining\<rparr>))"
| wait_join: "ws_main w = Joining \<Longrightarrow> ws_pump w = Finished \<Longrightarrow> wait_step w MainStep (w\<lparr>ws_main := Joined\<rparr>)"
| wait_spurious: "ws_pump w = Asleep \<Longrightarrow> wait_step w Spurious (woken w)"

inductive wait_run :: "wait_state \<Rightarrow> wait_ev list \<Rightarrow> wait_state \<Rightarrow> bool" where
  run_nil: "wait_run w [] w"
| run_cons: "wait_step w e w1 \<Longrightarrow> wait_run w1 es w2 \<Longrightarrow> wait_run w (e # es) w2"

subsection \<open>The mailbox is the daemon's\<close>

text \<open>The requests as the daemon would post them, each with some descriptor.\<close>

definition with_fd :: "prov_request \<Rightarrow> pump_request" where
  "with_fd r = \<lparr>pr_peer_ip = vr_peer_ip r, pr_peer_port = vr_peer_port r, pr_local_port = vr_local_port r,
     pr_my_srflx_ip = vr_my_srflx_ip r, pr_udp_fd = 0\<rparr>"

lemma of_daemon_with_fd [simp]: "of_daemon (with_fd r) = r" "\<not> pr_udp_fd (with_fd r) < 0"
  by (simp_all add: of_daemon_def with_fd_def)

fun daemon_event :: "prov_event \<Rightarrow> pump_event" where
  "daemon_event (PvPost r) = Post (with_fd r)"
| "daemon_event PvTake = Take"
| "daemon_event PvFailed = ConnectFailed"
| "daemon_event (PvConnected s) = ConnectOk s"
| "daemon_event PvPublish = Publish"
| "daemon_event PvWithdraw = Withdraw"
| "daemon_event PvCloseSrt = CloseSrt"
| "daemon_event PvStop = Stop"

primrec prov_pc_of :: "pump_pc \<Rightarrow> prov_pc" where
  "prov_pc_of Waiting = PvWaiting"
| "prov_pc_of (Connecting r) = PvConnecting (of_daemon r)"
| "prov_pc_of (Opened r s) = PvOpened (of_daemon r) s"
| "prov_pc_of (Pumping r s) = PvPumping (of_daemon r) s"
| "prov_pc_of (Closing r s) = PvClosing (of_daemon r) s"
| "prov_pc_of Exited = PvExited"

definition same_mailbox :: "prov_pump \<Rightarrow> pump \<Rightarrow> bool" where
  "same_mailbox p q \<longleftrightarrow> vp_pending p = map_option of_daemon (pending q) \<and> (\<forall>r. pending q = Some r \<longrightarrow> \<not> pr_udp_fd r < 0)
     \<and> vp_cancel p = cancel q \<and> vp_running p = running q \<and> vp_active p = active_srt q \<and> vp_pc p = prov_pc_of (pc q)
     \<and> vp_open p = map fst (sockets q) \<and> vp_again p = reclosed q"

lemma map_fst_filter: "map fst (filter (\<lambda>(x, _). x \<noteq> s) l) = filter (\<lambda>x. x \<noteq> s) (map fst l)"
  by (induction l) auto

lemma same_mailbox_close:
  assumes "same_mailbox p q"
  shows "same_mailbox (prov_srt_close s p) (srt_close s q)"
proof (cases "map_of (sockets q) s")
  case None
  then have "s \<notin> set (vp_open p)" using assms by (simp add: same_mailbox_def map_of_eq_None_iff)
  then show ?thesis using None assms by (simp add: same_mailbox_def prov_srt_close_def srt_close_def)
next
  case (Some fd)
  then have "s \<in> set (vp_open p)" using assms by (auto simp: same_mailbox_def dest: map_of_SomeD intro: rev_image_eqI)
  then show ?thesis using Some assms by (simp add: same_mailbox_def prov_srt_close_def srt_close_def map_fst_filter)
qed

lemma same_mailbox_post: "same_mailbox p q \<Longrightarrow> same_mailbox (prov_post r p) (post_pump_request (with_fd r) q)"
proof -
  assume "same_mailbox p q"
  then have s: "same_mailbox (p\<lparr>vp_cancel := True\<rparr>) (q\<lparr>cancel := True\<rparr>)" by (simp add: same_mailbox_def)
  have a: "vp_active p = active_srt q" using s by (simp add: same_mailbox_def)
  show ?thesis
    using s same_mailbox_close [OF s, of "active_srt q"] a
    by (simp add: prov_post_def post_pump_request_def Let_def same_mailbox_def)
qed

lemma same_mailbox_exec:
  assumes "same_mailbox p q" "prov_exec e p = Some p'"
  shows "\<exists>q'. pump_exec (daemon_event e) q = Some q' \<and> same_mailbox p' q'"
proof (cases e)
  case (PvPost r)
  then show ?thesis using assms(2) same_mailbox_post [OF assms(1), of r] by (auto simp: prov_exec_def pump_exec_def)
next
  case PvTake
  then obtain r where r: "vp_pc p = PvWaiting" "vp_pending p = Some r" "p' = prov_take r p"
    using assms(2) by (auto simp: prov_exec_def split: prov_pc.splits option.splits)
  then obtain r' where "pending q = Some r'" "of_daemon r' = r" "\<not> pr_udp_fd r' < 0" using assms(1) by (cases "pending q") (simp_all add: same_mailbox_def)
  moreover have "pc q = Waiting" using assms(1) r(1) by (cases "pc q") (simp_all add: same_mailbox_def)
  ultimately show ?thesis using assms(1) PvTake r(3)
    by (simp add: pump_exec_def pump_take_def prov_take_def same_mailbox_def Let_def)
next
  case (PvCloseSrt)
  then obtain r s where r: "vp_pc p = PvClosing r s" "p' = (prov_srt_close s p)\<lparr>vp_running := False, vp_pc := PvWaiting\<rparr>"
    using assms(2) by (auto simp: prov_exec_def split: prov_pc.splits)
  then obtain r' where "pc q = Closing r' s" using assms(1) by (cases "pc q") (simp_all add: same_mailbox_def)
  then show ?thesis using r(2) PvCloseSrt same_mailbox_close [OF assms(1), of s]
    by (simp add: pump_exec_def same_mailbox_def)
qed (use assms in \<open>cases "pc q"; auto simp: prov_exec_def pump_exec_def same_mailbox_def split: if_splits\<close>)+

lemma same_mailbox_run:
  "prov_run es p = Some p' \<Longrightarrow> same_mailbox p q \<Longrightarrow> \<exists>q'. pump_run (map daemon_event es) q = Some q' \<and> same_mailbox p' q'"
proof (induction es arbitrary: p q)
  case (Cons e es)
  then obtain p1 where p1: "prov_exec e p = Some p1" "prov_run es p1 = Some p'" by (auto split: option.splits)
  then obtain q1 where "pump_exec (daemon_event e) q = Some q1" "same_mailbox p1 q1" using same_mailbox_exec Cons.prems(2) by blast
  then show ?case using Cons.IH [OF p1(2)] by auto
qed simp

lemma same_mailbox_init: "same_mailbox prov_pump_init pump_init"
  by (simp add: same_mailbox_def prov_pump_init_def pump_init_def)

subsection \<open>The newest request\<close>

fun in_session :: "prov_pc \<Rightarrow> prov_request option" where
  "in_session PvWaiting = None"
| "in_session (PvConnecting r) = Some r"
| "in_session (PvOpened r s) = Some r"
| "in_session (PvPumping r s) = Some r"
| "in_session (PvClosing r s) = Some r"
| "in_session PvExited = None"

definition newest_ok :: "prov_pump \<Rightarrow> bool" where
  "newest_ok p \<longleftrightarrow>
     (case vp_pending p of
        Some r \<Rightarrow> vp_cancel p \<and> vp_posted p \<noteq> [] \<and> last (vp_posted p) = r \<and> subseq (vp_taken p) (butlast (vp_posted p))
      | None \<Rightarrow> subseq (vp_taken p) (vp_posted p) \<and> (vp_posted p \<noteq> [] \<longrightarrow> vp_taken p \<noteq> [] \<and> last (vp_taken p) = last (vp_posted p)))
     \<and> (\<forall>r. in_session (vp_pc p) = Some r \<longrightarrow> vp_taken p \<noteq> [] \<and> last (vp_taken p) = r)"

lemma prov_srt_close_frame [simp]:
  "vp_pending (prov_srt_close s p) = vp_pending p" "vp_cancel (prov_srt_close s p) = vp_cancel p" "vp_pc (prov_srt_close s p) = vp_pc p"
  "vp_posted (prov_srt_close s p) = vp_posted p" "vp_taken (prov_srt_close s p) = vp_taken p"
  by (simp_all add: prov_srt_close_def)

lemma newest_post: "newest_ok p \<Longrightarrow> newest_ok (prov_post r p)"
proof -
  assume n: "newest_ok p"
  have "subseq (vp_taken p) (vp_posted p)"
  proof (cases "vp_pending p")
    case (Some x)
    then have "subseq (vp_taken p) (butlast (vp_posted p))" using n by (simp add: newest_ok_def)
    then show ?thesis by (metis butlast_append subseq_order.trans prefix_imp_subseq prefixeq_butlast)
  qed (use n in \<open>simp add: newest_ok_def\<close>)
  then show ?thesis using n by (auto simp: newest_ok_def prov_post_def Let_def split: option.splits)
qed

lemma newest_take:
  assumes "newest_ok p" "vp_pending p = Some r"
  shows "newest_ok (prov_take r p)"
proof -
  have "vp_posted p = butlast (vp_posted p) @ [r]" "subseq (vp_taken p) (butlast (vp_posted p))"
    using assms append_butlast_last_id [of "vp_posted p"] by (auto simp: newest_ok_def)
  then have "subseq (vp_taken p @ [r]) (vp_posted p)" by (metis list_emb_append_mono subseq_order.refl)
  then show ?thesis using assms by (simp add: newest_ok_def prov_take_def)
qed

lemma newest_exec: "newest_ok p \<Longrightarrow> prov_exec e p = Some p' \<Longrightarrow> newest_ok p'"
proof (cases e)
  case PvTake
  assume "newest_ok p" "prov_exec e p = Some p'"
  then show ?thesis using PvTake newest_take by (auto simp: prov_exec_def split: prov_pc.splits option.splits)
next
  case (PvPost r)
  assume "newest_ok p" "prov_exec e p = Some p'"
  then show ?thesis using PvPost newest_post by (auto simp: prov_exec_def)
qed (auto simp: prov_exec_def newest_ok_def split: prov_pc.splits option.splits if_splits)

lemma newest_run: "prov_run es p = Some p' \<Longrightarrow> newest_ok p \<Longrightarrow> newest_ok p'"
proof (induction es arbitrary: p)
  case (Cons e es)
  then obtain q where "prov_exec e p = Some q" "prov_run es q = Some p'" by (auto split: option.splits)
  then show ?case using newest_exec Cons by blast
qed simp

subsection \<open>Lengths\<close>

lemma prov_http_length: "prov_wf cfg \<Longrightarrow> length (prov_http_text cfg) < 1024"
proof -
  assume w: "prov_wf cfg"
  have f: "length (pget_str x cfg) < prov_size x" for x using w by (simp add: prov_wf_def)
  have "length (show_int (pf_local_port cfg)) \<le> 11" using w length_show_int by (simp add: prov_wf_def)
  then show ?thesis using f [of V_local_host] f [of V_http_path] f [of V_http_auth] by (simp add: prov_http_text_def cr_lf_def)
qed

lemma prov_register_length:
  assumes "prov_wf cfg" "length (srflx_ip b) < 64" "length lan < 64" "0 \<le> srflx_port b" "srflx_port b \<le> 65535"
  shows "length (prov_register_text cfg b lan) < 1024"
proof -
  have f: "length (pget_str x cfg) < prov_size x" for x using assms(1) by (simp add: prov_wf_def)
  have "length (show_int (srflx_port b)) \<le> 11" using assms(4,5) by (intro length_show_int) (simp_all add: int_min_def int_max_def)
  then show ?thesis using f [of V_service_id] f [of V_api_token] assms(2,3) by (simp add: prov_register_text_def nl_def)
qed

subsection \<open>The wait\<close>

definition wait_inv :: "wait_state \<Rightarrow> bool" where
  "wait_inv w \<longleftrightarrow> (ws_pending w \<longrightarrow> ws_pump w \<noteq> Tested \<and> ws_pump w \<noteq> Asleep)"

lemma wait_step_inv: "wait_step w e w' \<Longrightarrow> wait_inv w \<Longrightarrow> wait_inv w'"
  by (induction rule: wait_step.induct) (auto simp: wait_inv_def woken_def)

lemma wait_run_inv: "wait_run w es w' \<Longrightarrow> wait_inv w \<Longrightarrow> wait_inv w'"
  by (induction rule: wait_run.induct) (auto intro: wait_step_inv)

inductive_cases wait_stepE: "wait_step w e w'"

subsection \<open>Properties\<close>

text \<open>
  C24. The provider's mailbox is the daemon's without the descriptors: whatever its two threads do, the daemon's do
  the same on the same requests, and the two agree on everything they share.  So the provider too has at most
  one SRT socket open, publishes none but the one it pumps, and holds none while it waits.
\<close>

theorem provider_mailbox_refines:
  assumes "prov_run es prov_pump_init = Some p"
  shows "(\<exists>q. pump_run (map daemon_event es) pump_init = Some q \<and> same_mailbox p q) \<and> length (vp_open p) \<le> 1
    \<and> (vp_active p \<noteq> -1 \<longrightarrow> (\<exists>r. vp_pc p = PvPumping r (vp_active p))) \<and> (vp_pc p = PvWaiting \<longrightarrow> vp_open p = [])"
proof -
  obtain q where q: "pump_run (map daemon_event es) pump_init = Some q" "same_mailbox p q"
    using same_mailbox_run [OF assms same_mailbox_init] by blast
  then have "position_ok q" using pump_run_reach [OF reach_init] reach_inv by (auto simp: pump_inv_def)
  then have "length (vp_open p) \<le> 1 \<and> (vp_active p \<noteq> -1 \<longrightarrow> (\<exists>r. vp_pc p = PvPumping r (vp_active p))) \<and> (vp_pc p = PvWaiting \<longrightarrow> vp_open p = [])"
    using q(2) by (cases "pc q") (auto simp: same_mailbox_def position_ok_def)
  then show ?thesis using q by blast
qed

text \<open>
  C23. The newest viewer is served: the pump thread takes requests in the order they were posted, skips only those
  overtaken by a newer one, never forgets the newest, and a session for any other has been told to stop.
\<close>

theorem provider_serves_newest:
  assumes "prov_run es prov_pump_init = Some p"
  shows "subseq (vp_taken p) (vp_posted p)
    \<and> (vp_posted p \<noteq> [] \<longrightarrow> vp_pending p = Some (last (vp_posted p)) \<or> vp_taken p \<noteq> [] \<and> last (vp_taken p) = last (vp_posted p))
    \<and> (\<forall>r. in_session (vp_pc p) = Some r \<longrightarrow> r = last (vp_posted p) \<or> vp_cancel p)"
proof -
  have "newest_ok p" by (rule newest_run [OF assms]) (simp add: newest_ok_def prov_pump_init_def)
  then show ?thesis
    by (cases "vp_pending p") (auto simp: newest_ok_def intro: subseq_order.trans [OF _ prefix_imp_subseq [OF prefixeq_butlast]])
qed

definition sample_prov_req :: "int \<Rightarrow> prov_request" where
  "sample_prov_req n = \<lparr>vr_peer_ip = ''10.0.0.9'', vr_peer_port = n, vr_local_port = 4000, vr_my_srflx_ip = ''1.2.3.4''\<rparr>"

definition sample_prov_run :: "prov_event list" where
  "sample_prov_run = [PvPost (sample_prov_req 1), PvTake, PvConnected 3, PvPublish, PvPost (sample_prov_req 2), PvPost (sample_prov_req 3), PvWithdraw]"

text \<open>A viewer is preempted, and the second overtaken by a third.\<close>

lemma sample_prov_runs:
  "prov_run sample_prov_run prov_pump_init = Some \<lparr>vp_pending = Some (sample_prov_req 3), vp_cancel = True, vp_running = True, vp_active = -1,
     vp_pc = PvClosing (sample_prov_req 1) 3, vp_open = [], vp_again = [],
     vp_posted = [sample_prov_req 1, sample_prov_req 2, sample_prov_req 3], vp_taken = [sample_prov_req 1]\<rparr>"
  by (simp add: sample_prov_run_def prov_exec_def prov_post_def prov_take_def prov_srt_close_def prov_pump_init_def)

theorem provider_mailbox_refines_witness:
  "\<exists>p q. prov_run sample_prov_run prov_pump_init = Some p \<and> pump_run (map daemon_event sample_prov_run) pump_init = Some q \<and> same_mailbox p q"
  using provider_mailbox_refines [OF sample_prov_runs] sample_prov_runs by blast

theorem provider_serves_newest_witness:
  "\<exists>p. prov_run sample_prov_run prov_pump_init = Some p \<and> in_session (vp_pc p) = Some (sample_prov_req 1) \<and> vp_cancel p
     \<and> vp_pending p = Some (sample_prov_req 3) \<and> subseq (vp_taken p) (vp_posted p)"
  using provider_serves_newest [OF sample_prov_runs] sample_prov_runs by simp

text \<open>
  Every configuration that loads gives texts that fit their buffers: the request to the camera's server its
  1,024 bytes, and the registration with any address of the discovery its own.
\<close>

theorem provider_texts_fit:
  assumes "cfg = snd (prov_load_config file)" "length (srflx_ip b) < 64" "length lan < 64" "0 \<le> srflx_port b" "srflx_port b \<le> 65535"
  shows "prov_send_http_get cfg (int (length (prov_http_text cfg))) = Some (prov_http_text cfg)
    \<and> prov_register_msg cfg b lan = prov_register_text cfg b lan"
proof -
  have w: "prov_wf cfg" unfolding assms(1) by (rule prov_load_wf)
  show ?thesis using prov_http_length [OF w] prov_register_length [OF w assms(2-5)]
    by (simp add: prov_send_http_get_def Let_def prov_register_msg_def bcopy_short)
qed

theorem provider_texts_fit_witness:
  "prov_register_msg prov_defaults \<lparr>srflx_ip = ''1.2.3.4'', srflx_port = 777\<rparr> []
   = prov_register_text prov_defaults \<lparr>srflx_ip = ''1.2.3.4'', srflx_port = 777\<rparr> []"
  using provider_texts_fit [of prov_defaults None "\<lparr>srflx_ip = ''1.2.3.4'', srflx_port = 777\<rparr>" "[]"]
  by (simp add: prov_load_config_def)

text \<open>
  A request posted while the pump thread is on its way to sleep wakes it: no state is reached in which one is
  pending and the thread asleep or about to be.
\<close>

theorem post_never_missed:
  assumes "wait_run wait_init es w" "ws_pending w"
  shows "ws_pump w \<noteq> Tested \<and> ws_pump w \<noteq> Asleep"
  using wait_run_inv [OF assms(1)] assms(2) by (simp add: wait_inv_def wait_init_def)

theorem post_never_missed_witness:
  "wait_run wait_init [PostRequest] (wait_init\<lparr>ws_pending := True\<rparr>) \<and> ws_pump (wait_init\<lparr>ws_pending := True\<rparr>) \<noteq> Asleep"
proof -
  have "wait_step wait_init PostRequest (woken (wait_init\<lparr>ws_pending := True\<rparr>))" by (rule wait_post) (simp_all add: wait_init_def)
  then have r: "wait_run wait_init [PostRequest] (wait_init\<lparr>ws_pending := True\<rparr>)"
    by (intro run_cons [OF _ run_nil]) (simp add: woken_def wait_init_def)
  then show ?thesis using post_never_missed [OF r] by simp
qed

text \<open>
  C25. A shutdown can be missed: neither the signal handler nor \<open>main\<close> takes the mutex for its broadcast, so both
  can fall between the pump thread's test and its sleep.  A state is reached in which the flag is set, the
  end of \<open>main\<close> waits for a thread that sleeps, and no step of the program is possible: only a further
  signal (or a spurious return of \<open>pthread_cond_wait\<close>) gets it out, and a further signal does.
\<close>

theorem provider_shutdown_can_hang:
  "\<exists>es w. wait_run wait_init es w \<and> ws_shutdown w \<and> ws_handlers w = 0 \<and> ws_main w = Joining \<and> ws_pump w = Asleep
     \<and> (\<nexists>e w'. wait_step w e w' \<and> e \<notin> {SignalArrives, Spurious})
     \<and> (\<exists>w'. wait_run w [SignalArrives, HandlerBroadcast, PumpStep, MainStep] w' \<and> ws_main w' = Joined)"
proof -
  define w1 where "w1 = wait_init\<lparr>ws_pump := Tested\<rparr>"
  define w2 where "w2 = w1\<lparr>ws_shutdown := True, ws_handlers := 1\<rparr>"
  define w3 where "w3 = w2\<lparr>ws_handlers := 0\<rparr>"
  define w4 where "w4 = w3\<lparr>ws_main := Joining\<rparr>"
  define w5 where "w5 = w4\<lparr>ws_pump := Asleep\<rparr>"
  define w6 where "w6 = w5\<lparr>ws_handlers := 1\<rparr>"
  define w7 where "w7 = w6\<lparr>ws_handlers := 0, ws_pump := Testing\<rparr>"
  define w8 where "w8 = w7\<lparr>ws_pump := Finished\<rparr>"
  define w9 where "w9 = w8\<lparr>ws_main := Joined\<rparr>"
  note d = wait_init_def w1_def w2_def w3_def w4_def w5_def w6_def w7_def w8_def w9_def
  have s1: "wait_step wait_init PumpStep w1" unfolding w1_def by (rule wait_stay) (simp_all add: wait_init_def)
  have s2: "wait_step w1 SignalArrives w2" using wait_flag [of w1] by (simp add: d)
  have s3: "wait_step w2 HandlerBroadcast w3" using wait_signal [of w2 0] by (simp add: d woken_def)
  have s4: "wait_step w3 MainStep w4" using wait_end [of w3] by (simp add: d woken_def)
  have s5: "wait_step w4 PumpStep w5" unfolding w5_def by (rule wait_sleep) (simp add: d)
  have s6: "wait_step w5 SignalArrives w6" using wait_flag [of w5] by (simp add: d)
  have s7: "wait_step w6 HandlerBroadcast w7" using wait_signal [of w6 0] by (simp add: d woken_def)
  have s8: "wait_step w7 PumpStep w8" unfolding w8_def by (rule wait_finish) (simp_all add: d)
  have s9: "wait_step w8 MainStep w9" unfolding w9_def by (rule wait_join) (simp_all add: d)
  have "wait_run wait_init [PumpStep, SignalArrives, HandlerBroadcast, MainStep, PumpStep] w5"
    by (intro run_cons [OF s1] run_cons [OF s2] run_cons [OF s3] run_cons [OF s4] run_cons [OF s5] run_nil)
  moreover have "wait_run w5 [SignalArrives, HandlerBroadcast, PumpStep, MainStep] w9"
    by (intro run_cons [OF s6] run_cons [OF s7] run_cons [OF s8] run_cons [OF s9] run_nil)
  moreover have "\<nexists>e w'. wait_step w5 e w' \<and> e \<notin> {SignalArrives, Spurious}" by (auto elim!: wait_stepE simp: d)
  moreover have "ws_shutdown w5 \<and> ws_handlers w5 = 0 \<and> ws_main w5 = Joining \<and> ws_pump w5 = Asleep" "ws_main w9 = Joined"
    by (simp_all add: d)
  ultimately show ?thesis by blast
qed

text \<open>
  The provider carries the same bytes as the daemon: where both requests to the camera's server go out, a
  session sends on exactly what the daemon's pump would.
\<close>

theorem provider_media_as_daemon:
  assumes "sc_src_path c = pf_local_http_path cfg" "prov_send_http_get cfg sent = Some r1" "send_http_get c sent' = Some r2"
  shows "pump_local_to_srt cfg have_mem sent mem segs obs ans = pump_src_to_srt c have_mem sent' mem segs obs ans"
  using assms by (simp add: pump_local_to_srt_def pump_src_to_srt_def)

theorem provider_media_as_daemon_witness:
  "\<forall>obs ans. pump_local_to_srt prov_defaults True (int (length (prov_http_text prov_defaults))) [] [] obs ans
     = pump_src_to_srt (snapshot_config ap2p_state_init) True (int (length (http_get_text (snapshot_config ap2p_state_init)))) [] [] obs ans"
proof -
  have a: "prov_send_http_get prov_defaults (int (length (prov_http_text prov_defaults))) = Some (prov_http_text prov_defaults)"
    using prov_http_length [OF prov_defaults_wf] by (simp add: prov_send_http_get_def Let_def)
  have w: "wf_state ap2p_state_init"
    by (simp add: wf_state_def all_str_fields_def all_int_fields_def ap2p_state_init_def int_min_def int_max_def)
  have b: "send_http_get (snapshot_config ap2p_state_init) (int (length (http_get_text (snapshot_config ap2p_state_init))))
      = Some (http_get_text (snapshot_config ap2p_state_init))"
    using http_get_length [OF w] by (simp add: send_http_get_def Let_def)
  have c: "sc_src_path (snapshot_config ap2p_state_init) = pf_local_http_path prov_defaults"
    by (simp add: snapshot_config_def ap2p_state_init_def bcopy_def prov_defaults_def)
  show ?thesis using provider_media_as_daemon [OF c a b] by blast
qed

end
