(* ===== verification/Creds.thy ===== *)
theory Creds
  imports Prelude
begin

text \<open>
  The camera's HTTP credentials and its local HTTP client: the Basic-auth header that
  \<open>legacy_cases.c\<close> rebuilds from user name and password, and \<open>n_https.c\<close>, which calls the camera's own
  web server through libcurl.  libcurl is outside the repository: what a call observes of it (whether a
  handle could be made, whether the transfer succeeded, the pieces the body arrived in) is an argument.
\<close>

subsection \<open>Base64\<close>

definition b64_table :: string where
  "b64_table = ''ABCDEFGHIJKLMNOPQRSTUVWXYZabcdefghijklmnopqrstuvwxyz0123456789+/''"

definition b64 :: "nat \<Rightarrow> char" where
  "b64 n = b64_table ! (n mod 64)"

abbreviation byte_of :: "char \<Rightarrow> nat" where
  "byte_of c \<equiv> of_char c"

definition triple :: "nat \<Rightarrow> nat \<Rightarrow> nat \<Rightarrow> nat" where
  "triple a b c = a * 65536 + b * 256 + c"

text \<open>The loop of \<open>base64_encode\<close>: \<open>j\<close> characters are out, a group needs four more and the NUL.\<close>

fun base64_loop :: "nat \<Rightarrow> nat \<Rightarrow> string \<Rightarrow> string" where
  "base64_loop out_size j [] = []"
| "base64_loop out_size j [a] =
     (if j + 4 < out_size
      then (let t = triple (byte_of a) 0 0 in [b64 (t div 262144), b64 (t div 4096), CHR ''='', CHR ''=''])
      else [])"
| "base64_loop out_size j [a, b] =
     (if j + 4 < out_size
      then (let t = triple (byte_of a) (byte_of b) 0
            in [b64 (t div 262144), b64 (t div 4096), b64 (t div 64), CHR ''=''])
      else [])"
| "base64_loop out_size j (a # b # c # rest) =
     (if j + 4 < out_size
      then (let t = triple (byte_of a) (byte_of b) (byte_of c)
            in [b64 (t div 262144), b64 (t div 4096), b64 (t div 64), b64 t] @ base64_loop out_size (j + 4) rest)
      else [])"

definition base64_encode :: "string \<Rightarrow> nat \<Rightarrow> string" where
  "base64_encode input out_size = base64_loop out_size 0 input"

subsection \<open>The credentials\<close>

record creds =
  cam_username :: string
  cam_password :: string
  cam_auth_basic :: string

definition creds_init :: creds where
  "creds_init = \<lparr>cam_username = ''admin'', cam_password = [], cam_auth_basic = ''Basic YWRtaW46''\<rparr>"

definition rebuild_basic_auth :: "creds \<Rightarrow> creds" where
  "rebuild_basic_auth c =
     (let raw = bcopy 128 (cam_username c @ CHR '':'' # cam_password c);
          encoded = base64_encode raw 192
      in c\<lparr>cam_auth_basic := bcopy 256 (''Basic '' @ encoded)\<rparr>)"

definition get_cam_credentials :: "creds \<Rightarrow> nat \<Rightarrow> nat \<Rightarrow> string \<times> string" where
  "get_cam_credentials c user_size pass_size = (bcopy user_size (cam_username c), bcopy pass_size (cam_password c))"

definition get_cam_auth_basic :: "creds \<Rightarrow> nat \<Rightarrow> string" where
  "get_cam_auth_basic c auth_size = bcopy auth_size (cam_auth_basic c)"

definition is_password_change_success :: "string option \<Rightarrow> bool" where
  "is_password_change_success response =
     (case response of None \<Rightarrow> False
      | Some r \<Rightarrow> strstr r ''<success>'' \<noteq> None \<or> strstr r ''200'' \<noteq> None)"

definition update_password :: "string option \<Rightarrow> creds \<Rightarrow> int \<times> creds" where
  "update_password new_password c =
     (case new_password of None \<Rightarrow> (-1, c)
      | Some p \<Rightarrow> if p = [] then (-1, c)
                  else (0, rebuild_basic_auth (c\<lparr>cam_password := bcopy 64 p\<rparr>)))"

text \<open>Case 80: the server's user name and password, each taken if it is a string.\<close>

definition sync_credentials :: "string option \<Rightarrow> string option \<Rightarrow> creds \<Rightarrow> creds" where
  "sync_credentials user pass c =
     (let c1 = (case user of None \<Rightarrow> c | Some u \<Rightarrow> c\<lparr>cam_username := bcopy 64 u\<rparr>);
          c2 = (case pass of None \<Rightarrow> c1 | Some p \<Rightarrow> c1\<lparr>cam_password := bcopy 64 p\<rparr>)
      in rebuild_basic_auth c2)"

subsection \<open>The HTTP client\<close>

text \<open>\<open>write_callback_1\<close>: the bytes stored so far in a buffer of \<open>cap\<close> bytes.\<close>

definition write_callback_1 :: "nat \<Rightarrow> string \<Rightarrow> string \<Rightarrow> string" where
  "write_callback_1 cap stored piece =
     (let remaining = cap - length stored - 1;
          to_copy = (if length piece < remaining then length piece else remaining)
      in if to_copy > 0 then stored @ take to_copy piece else stored)"

datatype curl_ans = InitFailed | Performed bool "string list"

datatype http_method = GET | PUT | POST

record http_call =
  hc_url :: string
  hc_method :: http_method
  hc_body :: "string option"
  hc_user :: string
  hc_pass :: string

definition base_url :: string where "base_url = ''http://localhost''"

text \<open>
  \<open>send_https_request\<close>: the return value, the response buffer (of which \<open>response\<close> is the previous
  contents) and the call made.  A body goes with POST and PUT only.
\<close>

definition send_https_request ::
    "creds \<Rightarrow> curl_ans \<Rightarrow> string \<Rightarrow> http_method \<Rightarrow> string \<Rightarrow> string \<Rightarrow> nat \<Rightarrow> int \<times> string \<times> http_call option" where
  "send_https_request c ans endpoint m body response cap =
     (case ans of
        InitFailed \<Rightarrow> (-1, response, None)
      | Performed ok pieces \<Rightarrow>
          (let (u, p) = get_cam_credentials c 64 64
           in (if ok then 0 else -1, foldl (write_callback_1 cap) [] pieces,
               Some \<lparr>hc_url = bcopy 256 (base_url @ endpoint), hc_method = m,
                     hc_body = (if m = GET then None else Some body), hc_user = u, hc_pass = p\<rparr>)))"

definition ptz_endpoint :: "string \<Rightarrow> string" where
  "ptz_endpoint act = bcopy 256 (''/cgi-bin/hi3510/ptzctrl.cgi?-step=0&-act='' @ act @ ''&-speed=5&-presetNUM=1'')"

definition send_HTTPSPTZ_request ::
    "creds \<Rightarrow> curl_ans \<Rightarrow> string \<Rightarrow> string \<Rightarrow> nat \<Rightarrow> int \<times> string \<times> http_call option" where
  "send_HTTPSPTZ_request c ans act response cap =
     send_https_request c ans (ptz_endpoint act) PUT [] response cap"

subsection \<open>Decoding\<close>

text \<open>The other side of the header, as a server reads it (RFC 4648).\<close>

definition b64_val :: "char \<Rightarrow> nat" where
  "b64_val c = (let n = byte_of c in
     if 65 \<le> n \<and> n \<le> 90 then n - 65
     else if 97 \<le> n \<and> n \<le> 122 then n - 71
     else if 48 \<le> n \<and> n \<le> 57 then n + 4
     else if c = CHR ''+'' then 62 else 63)"

fun b64_decode :: "string \<Rightarrow> string" where
  "b64_decode (w # x # y # z # rest) =
     (let t = ((b64_val w * 64 + b64_val x) * 64 + (if y = CHR ''='' then 0 else b64_val y)) * 64
              + (if z = CHR ''='' then 0 else b64_val z)
      in char_of (t div 65536)
         # (if y = CHR ''='' then [] else [char_of (t div 256 mod 256)])
         @ (if z = CHR ''='' then [] else [char_of (t mod 256)]) @ b64_decode rest)"
| "b64_decode _ = []"

lemma b64_table_ok:
  "list_all (\<lambda>(n, c). b64_val c = n \<and> c \<noteq> CHR ''='' \<and> c \<noteq> CHR 0x00) (enumerate 0 b64_table)"
  "length b64_table = 64"
  by (simp_all add: b64_table_def b64_val_def Let_def)

lemma b64_small: "n < 64 \<Longrightarrow> b64_val (b64 n) = n \<and> b64 n \<noteq> CHR ''='' \<and> b64 n \<noteq> CHR 0x00"
proof -
  assume n: "n < 64"
  then have "(n, b64_table ! n) \<in> set (enumerate 0 b64_table)"
    using b64_table_ok(2) by (simp add: in_set_enumerate_eq)
  then show ?thesis using b64_table_ok(1) n by (auto simp: list_all_iff b64_def)
qed

lemma b64_mod: "b64 n = b64 (n mod 64)"
  by (simp add: b64_def)

lemma b64_val_b64 [simp]: "b64_val (b64 n) = n mod 64" "b64 n \<noteq> CHR ''=''" "b64 n \<noteq> CHR 0x00"
  using b64_small [of "n mod 64"] by (simp_all add: b64_mod [of n, symmetric])

lemma byte_lt [simp]: "byte_of c < 256"
  by (metis of_char_mod_256 mod_less_divisor zero_less_numeral)

lemma digits_4:
  assumes "t < 16777216"
  shows "((t div 262144 mod 64 * 64 + t div 4096 mod 64) * 64 + t div 64 mod 64) * 64 + t mod 64 = (t :: nat)"
proof -
  define x y where "x = t div 64" and "y = x div 64"
  have d: "t div 4096 = y" "t div 262144 = y div 64" by (simp_all add: x_def y_def div_mult2_eq [symmetric])
  have e: "t = x * 64 + t mod 64" "x = y * 64 + x mod 64" "y = y div 64 * 64 + y mod 64"
    by (simp_all add: x_def y_def)
  have "y div 64 mod 64 = y div 64" using assms d by simp
  then have "((t div 262144 mod 64 * 64 + t div 4096 mod 64) * 64 + t div 64 mod 64) * 64 + t mod 64
    = ((y div 64 * 64 + y mod 64) * 64 + x mod 64) * 64 + t mod 64" by (simp add: d x_def)
  also have "\<dots> = t" using e by simp
  finally show ?thesis .
qed

lemma triple_bytes:
  assumes "a < 256" "b < 256" "c < 256"
  shows "triple a b c div 65536 = a" "triple a b c div 256 mod 256 = b" "triple a b c mod 256 = c"
    "triple a b c < 16777216"
proof -
  have e: "triple a b c div 256 = a * 256 + b" using assms by (simp add: triple_def)
  have "triple a b c div 65536 = triple a b c div 256 div 256" by (simp add: div_mult2_eq [symmetric])
  then show "triple a b c div 65536 = a" "triple a b c div 256 mod 256 = b" using e assms by simp_all
  have "triple a b c = c + 256 * (a * 256 + b)" by (simp add: triple_def)
  then show "triple a b c mod 256 = c" using assms(3) by (metis mod_less mod_mult_self2)
  show "triple a b c < 16777216" using assms by (simp add: triple_def)
qed

lemma decode_loop:
  "j + 4 * ((length s + 2) div 3) < out \<Longrightarrow> b64_decode (base64_loop out j s) = s"
proof (induction out j s rule: base64_loop.induct)
  case (2 out j a)
  define t where "t = triple (byte_of a) 0 0"
  have t: "t div 65536 = byte_of a" "t < 16777216" using triple_bytes [of "byte_of a" 0 0] by (simp_all add: t_def)
  have z: "t div 64 mod 64 = 0" "t mod 64 = 0" by (simp_all add: t_def triple_def)
  have e: "((t div 262144 mod 64 * 64 + t div 4096 mod 64) * 64 + 0) * 64 + 0 = t"
    using digits_4 [OF t(2)] z by (simp only:)
  have "t div 262144 < 64" using t(2) by simp
  then have "((t div 262144 * 64 + t div 4096 mod 64) * 64 + 0) * 64 + 0 = t" using e by (simp only: mod_less)
  then show ?case using 2 t e by (simp add: t_def [symmetric] Let_def)
next
  case (3 out j a b)
  define t where "t = triple (byte_of a) (byte_of b) 0"
  have t: "t div 65536 = byte_of a" "t div 256 mod 256 = byte_of b" "t < 16777216"
    using triple_bytes [of "byte_of a" "byte_of b" 0] by (simp_all add: t_def)
  have z: "t mod 64 = 0" by (simp add: t_def triple_def)
  have e: "((t div 262144 mod 64 * 64 + t div 4096 mod 64) * 64 + t div 64 mod 64) * 64 + 0 = t"
    using digits_4 [OF t(3)] z by (simp only:)
  have "t div 262144 < 64" using t(3) by simp
  then have "((t div 262144 * 64 + t div 4096 mod 64) * 64 + t div 64 mod 64) * 64 + 0 = t" using e by (simp only: mod_less)
  moreover have "(char_of (t div 256) :: char) = b" using t(2) by (metis char_of_mod_256 char_of_char)
  ultimately show ?case using 3 t by (simp add: t_def [symmetric] Let_def)
next
  case (4 out j a b c rest)
  define t where "t = triple (byte_of a) (byte_of b) (byte_of c)"
  have t: "t div 65536 = byte_of a" "t div 256 mod 256 = byte_of b" "t mod 256 = byte_of c" "t < 16777216"
    using triple_bytes [of "byte_of a" "byte_of b" "byte_of c"] by (simp_all add: t_def)
  have b: "(char_of (t div 256) :: char) = b" using t(2) by (metis char_of_mod_256 char_of_char)
  have c: "(char_of t :: char) = c" using t(3) by (metis char_of_mod_256 char_of_char)
  have "(length (a # b # c # rest) + 2) div 3 = Suc ((length rest + 2) div 3)" by simp
  with "4.prems" have l: "j + 4 < out" "j + 4 + 4 * ((length rest + 2) div 3) < out" by (simp_all del: length_Cons)
  have "b64_decode (base64_loop out (j + 4) rest) = rest" using "4.IH" [OF l(1) refl l(2)] .
  then show ?case using b c l(1) t digits_4 [OF t(4)] by (simp add: t_def [symmetric] Let_def)
qed simp

lemma base64_roundtrip:
  "4 * ((length s + 2) div 3) < out \<Longrightarrow> b64_decode (base64_encode s out) = s"
  by (simp add: base64_encode_def decode_loop)

lemma length_base64_loop: "length (base64_loop out j s) \<le> 4 * ((length s + 2) div 3)"
proof (induction out j s rule: base64_loop.induct)
  case (4 out j a b c rest)
  have "(length (a # b # c # rest) + 2) div 3 = Suc ((length rest + 2) div 3)" by simp
  then show ?case using 4 by (simp add: Let_def del: length_Cons)
qed (simp_all add: Let_def)

subsection \<open>Consistency of the header\<close>

definition creds_ok :: "creds \<Rightarrow> bool" where
  "creds_ok c \<longleftrightarrow> fits 64 (cam_username c) \<and> fits 64 (cam_password c)
     \<and> cam_auth_basic c = ''Basic '' @ base64_encode (cam_username c @ CHR '':'' # cam_password c) 192"

lemma rebuild_ok:
  assumes "fits 64 (cam_username c)" "fits 64 (cam_password c)"
  shows "creds_ok (rebuild_basic_auth c)"
proof -
  have l: "length (cam_username c @ CHR '':'' # cam_password c) \<le> 127" using assms by (simp add: fits_def)
  then have "length (base64_encode (cam_username c @ CHR '':'' # cam_password c) 192) \<le> 4 * (129 div 3)"
    using length_base64_loop [of 192 0 "cam_username c @ CHR '':'' # cam_password c"]
      div_le_mono [of "length (cam_username c @ CHR '':'' # cam_password c) + 2" 129 3]
    by (simp add: base64_encode_def)
  then show ?thesis
    using assms l by (simp add: creds_ok_def rebuild_basic_auth_def bcopy_def Let_def)
qed

datatype cred_op = SetPassword "string option" | SyncCreds "string option" "string option"

fun cred_exec :: "cred_op \<Rightarrow> creds \<Rightarrow> creds" where
  "cred_exec (SetPassword p) c = snd (update_password p c)"
| "cred_exec (SyncCreds u p) c = sync_credentials u p c"

definition c_string :: "string option \<Rightarrow> bool" where
  "c_string s \<longleftrightarrow> (case s of None \<Rightarrow> True | Some t \<Rightarrow> CHR 0x00 \<notin> set t)"

fun cred_op_ok :: "cred_op \<Rightarrow> bool" where
  "cred_op_ok (SetPassword p) \<longleftrightarrow> c_string p"
| "cred_op_ok (SyncCreds u p) \<longleftrightarrow> c_string u \<and> c_string p"

lemma cred_exec_ok: "creds_ok c \<Longrightarrow> cred_op_ok e \<Longrightarrow> creds_ok (cred_exec e c)"
proof (cases e)
  case (SetPassword p)
  then show "creds_ok c \<Longrightarrow> cred_op_ok e \<Longrightarrow> creds_ok (cred_exec e c)"
    by (auto simp: update_password_def c_string_def creds_ok_def [of c] intro!: rebuild_ok fits_bcopy split: option.splits)
next
  case (SyncCreds u p)
  then show "creds_ok c \<Longrightarrow> cred_op_ok e \<Longrightarrow> creds_ok (cred_exec e c)"
    by (auto simp: sync_credentials_def c_string_def creds_ok_def [of c] Let_def
        intro!: rebuild_ok fits_bcopy split: option.splits)
qed

lemma creds_init_ok: "creds_ok creds_init"
  by (simp add: creds_ok_def creds_init_def fits_def base64_encode_def b64_def b64_table_def triple_def Let_def)

lemma cred_run_ok: "creds_ok c \<Longrightarrow> \<forall>e \<in> set es. cred_op_ok e \<Longrightarrow> creds_ok (fold cred_exec es c)"
  by (induction es arbitrary: c) (simp_all add: cred_exec_ok)

subsection \<open>The response buffer\<close>

lemma write_callback_take:
  "0 < cap \<Longrightarrow> length stored < cap \<Longrightarrow> write_callback_1 cap stored piece = take (cap - 1) (stored @ piece)"
  by (auto simp: write_callback_1_def Let_def)

lemma take_take_append: "take n (take n xs @ ys) = take n (xs @ ys)"
  by (cases "n \<le> length xs") simp_all

lemma write_callbacks:
  assumes "0 < cap"
  shows "length stored < cap \<Longrightarrow> foldl (write_callback_1 cap) stored pieces = take (cap - 1) (stored @ concat pieces)"
proof (induction pieces arbitrary: stored)
  case Nil
  then show ?case by simp
next
  case (Cons p ps)
  have w: "write_callback_1 cap stored p = take (cap - 1) (stored @ p)"
    using write_callback_take assms Cons.prems by blast
  then have "foldl (write_callback_1 cap) (write_callback_1 cap stored p) ps
    = take (cap - 1) (take (cap - 1) (stored @ p) @ concat ps)"
    using assms by (simp add: Cons.IH)
  also have "\<dots> = take (cap - 1) (stored @ p @ concat ps)"
    using take_take_append [of "cap - 1" "stored @ p" "concat ps"] by simp
  finally show ?case by simp
qed

subsection \<open>Properties\<close>

text \<open>
  Whatever sequence of password changes and credential pushes arrives, the Basic-auth header is the
  complete encoding of the current user name and password: none of its three buffers ever cuts it, and
  a server decodes it to exactly \<open>user:password\<close>.
\<close>

theorem basic_auth_always_consistent:
  assumes "\<forall>e \<in> set es. cred_op_ok e" "c = fold cred_exec es creds_init"
  shows "take 6 (cam_auth_basic c) = ''Basic ''
    \<and> b64_decode (drop 6 (cam_auth_basic c)) = cam_username c @ CHR '':'' # cam_password c
    \<and> length (cam_auth_basic c) < 256"
proof -
  have ok: "creds_ok c" using cred_run_ok [OF creds_init_ok assms(1)] assms(2) by simp
  define raw where "raw = cam_username c @ CHR '':'' # cam_password c"
  have "length raw \<le> 127" using ok by (simp add: creds_ok_def fits_def raw_def)
  then have l: "4 * ((length raw + 2) div 3) < 192"
    using div_le_mono [of "length raw + 2" 129 3] by simp
  have "length (base64_encode raw 192) < 192"
    using length_base64_loop [of 192 0 raw] l by (simp add: base64_encode_def)
  then show ?thesis using ok base64_roundtrip [OF l] by (simp add: creds_ok_def raw_def)
qed

theorem basic_auth_always_consistent_witness:
  "b64_decode (drop 6 (cam_auth_basic (fold cred_exec [SyncCreds (Some ''root'') None, SetPassword (Some ''s3'')] creds_init)))
     = ''root:s3''"
  using basic_auth_always_consistent [of "[SyncCreds (Some ''root'') None, SetPassword (Some ''s3'')]", OF _ refl]
  by (simp add: c_string_def sync_credentials_def update_password_def rebuild_basic_auth_def creds_init_def bcopy_def Let_def)

text \<open>
  The camera's answer is stored without overflow however libcurl cuts it up: the buffer holds the
  body's first \<open>cap - 1\<close> bytes.  The URL requested is the endpoint's only if it has at most 239
  characters; a longer one is requested cut, without an error.
\<close>

theorem https_response_bounded:
  assumes "0 < cap"
  shows "send_https_request c (Performed ok pieces) endpoint m body response cap
      = (if ok then 0 else -1, take (cap - 1) (concat pieces), Some \<lparr>hc_url = take 255 (base_url @ endpoint), hc_method = m,
           hc_body = (if m = GET then None else Some body), hc_user = bcopy 64 (cam_username c), hc_pass = bcopy 64 (cam_password c)\<rparr>)
    \<and> (take 255 (base_url @ endpoint) = base_url @ endpoint \<longleftrightarrow> length endpoint \<le> 239)"
  using write_callbacks [OF assms, of "[]" pieces] assms
  by (auto simp: send_https_request_def get_cam_credentials_def bcopy_def base_url_def)

theorem https_response_bounded_witness:
  "fst (snd (send_https_request creds_init (Performed True [''abc'', ''def'']) ''/x'' GET [] [] 5)) = ''abcd''"
  using https_response_bounded [of 5 creds_init True "[''abc'', ''def'']" "''/x''" GET "[]" "[]"]
  by (simp add: eval_nat_numeral)

end
