(* ===== verification/MqttThread.thy ===== *)
theory MqttThread
  imports Config
begin

text \<open>
  The MQTT client thread (\<open>mqtt_thread.c\<close>): the message callback, the subscriptions, one connection
  attempt with its retry loop, and the outer loop that reconnects and fails over.  The Paho library is
  outside the repository: whether a client can be created, whether each connect succeeds and what the
  clock and the shutdown flag say at that moment are observations passed in, one per call; what the
  thread does is the list of \<open>mqtt_ev\<close> it returns.  A loop that is still running when its observations
  are used up yields \<open>None\<close>.
\<close>

subsection \<open>Dispatch of an incoming message\<close>

definition topic_recv :: "string \<Rightarrow> string" where
  "topic_recv node = bcopy 80 (''torque/rx/'' @ node @ ''/'')"

definition case_of_topic :: "string \<Rightarrow> string \<Rightarrow> int" where
  "case_of_topic recv topic =
     (if starts_with recv topic then atoi (drop (length recv) topic) else -1)"

datatype dispatch = PayloadAllocFailed | ConfPush int "bt_milestone list" | LegacyMessage

definition message_arrived ::
    "bool \<Rightarrow> string \<Rightarrow> string \<Rightarrow> string \<Rightarrow> ap2p_state \<Rightarrow> dispatch \<times> ap2p_state" where
  "message_arrived alloc_ok recv topic payload st =
     (if \<not> alloc_ok then (PayloadAllocFailed, st)
      else if case_of_topic recv topic = 90
           then (case apply_ap2p_conf_payload st payload of (rc, st', marks) \<Rightarrow> (ConfPush rc marks, st'))
           else (LegacyMessage, st))"

subsection \<open>Connecting\<close>

datatype mqtt_ev =
    Destroy int
  | CreateFailed string
  | Create string int
  | Marked bt_milestone
  | SleepMs nat
  | LegacyInit int string
  | Subscribe string
  | SpawnStartup
  | SpawnKeepalive
  | Disconnect int nat

text \<open>
  \<open>mq_live\<close> lists the library handles created and not yet destroyed; \<open>mq_exposed\<close> is
  \<open>state->mqtt_client_handle\<close> and \<open>mq_legacy\<close> the client pointer of \<open>legacy_cases.c\<close>, both read by other
  threads.
\<close>

record mqtt =
  g_client :: "int option"
  mq_live :: "int list"
  fast_window_used :: bool
  startup_fired :: bool
  mq_exposed :: "int option"
  mq_legacy :: "int option"

definition mqtt_init :: mqtt where
  "mqtt_init = \<lparr>g_client = None, mq_live = [], fast_window_used = False, startup_fired = False,
     mq_exposed = None, mq_legacy = None\<rparr>"

definition fast_boot_window_ns :: int where "fast_boot_window_ns = 30 * 10 ^ 9"
definition fast_boot_retry_ms :: nat where "fast_boot_retry_ms = 500"
definition reconnect_interval_s :: nat where "reconnect_interval_s = 5"
definition reconnect_backoff_cap :: nat where "reconnect_backoff_cap = 60"

text \<open>One call of \<open>MQTTClient_connect\<close>: its success, the time since the start, the shutdown flag.\<close>

record attempt =
  at_ok :: bool
  at_elapsed_ns :: int
  at_shutdown :: bool

fun connect_loop :: "bool \<Rightarrow> nat \<Rightarrow> attempt list \<Rightarrow> bool option \<times> nat list" where
  "connect_loop used backoff_s [] = (None, [])"
| "connect_loop used backoff_s (a # as) =
     (if at_ok a then (Some True, [])
      else if at_shutdown a then (Some False, [])
      else if \<not> used \<and> at_elapsed_ns a < fast_boot_window_ns
           then (let (r, sl) = connect_loop used backoff_s as in (r, fast_boot_retry_ms # sl))
           else (let b' = (if backoff_s * 2 > reconnect_backoff_cap then reconnect_backoff_cap else backoff_s * 2);
                     (r, sl) = connect_loop used b' as
                 in (r, backoff_s * 1000 # sl)))"

record conn_obs =
  co_create :: "int option"
  co_attempts :: "attempt list"

definition destroy_client :: "mqtt \<Rightarrow> mqtt \<times> mqtt_ev list" where
  "destroy_client m =
     (case g_client m of None \<Rightarrow> (m, [])
      | Some h \<Rightarrow> (m\<lparr>g_client := None, mq_live := remove1 h (mq_live m)\<rparr>, [Destroy h]))"

text \<open>\<open>connect_once\<close>: \<open>Some True\<close> is the C result 0, \<open>Some False\<close> is -1.\<close>

definition connect_once :: "string \<Rightarrow> conn_obs \<Rightarrow> mqtt \<Rightarrow> bool option \<times> mqtt \<times> mqtt_ev list" where
  "connect_once uri ob m =
     (let (m1, ev1) = destroy_client m in
      case co_create ob of
        None \<Rightarrow> (Some False, m1, ev1 @ [CreateFailed uri])
      | Some h \<Rightarrow>
          (let m2 = m1\<lparr>g_client := Some h, mq_live := h # mq_live m1\<rparr>;
               ev2 = ev1 @ [Create uri h, Marked BT_MQTT_CONNECTING];
               (r, sl) = connect_loop (fast_window_used m2) 1 (co_attempts ob);
               ev3 = ev2 @ map SleepMs sl
           in if r = Some True
              then (r, m2\<lparr>fast_window_used := True, mq_exposed := Some h, mq_legacy := Some h\<rparr>,
                    ev3 @ [Marked BT_MQTT_CONNECTED, LegacyInit h uri])
              else (r, m2, ev3)))"

definition subscribe_topics :: "string \<Rightarrow> bool \<Rightarrow> bool \<times> mqtt_ev list" where
  "subscribe_topics recv ok =
     (let wild = bcopy 96 (recv @ ''#'') in
      if \<not> ok then (False, [Subscribe wild])
      else (True, [Subscribe wild, Marked BT_SUBSCRIBED, Subscribe ''torque/rx/all/#'']))"

subsection \<open>The outer loop\<close>

text \<open>One poll of the idle loop: the shutdown flag, the flag of \<open>connection_lost\<close>, \<open>isConnected\<close>.\<close>

record idle_obs =
  id_shutdown :: bool
  id_lost :: bool
  id_connected :: bool

primrec idle_loop :: "idle_obs list \<Rightarrow> nat option" where
  "idle_loop [] = None"
| "idle_loop (i # is) =
     (if id_shutdown i \<or> id_lost i \<or> \<not> id_connected i then Some 0 else map_option Suc (idle_loop is))"

record mturn_obs =
  mo_shutdown :: bool
  mo_primary :: conn_obs
  mo_secondary :: conn_obs
  mo_subscribed :: bool
  mo_idle :: "idle_obs list"

definition primary_url :: "string option \<Rightarrow> ap2p_state \<Rightarrow> string" where
  "primary_url last_ok st = (case last_ok of Some u \<Rightarrow> u | None \<Rightarrow> bootstrap_mqtt_url st)"

definition secondary_url :: "string \<Rightarrow> ap2p_state \<Rightarrow> string option" where
  "secondary_url primary st =
     (if bootstrap_mqtt_url_bkp st = [] then None
      else if bootstrap_mqtt_url_bkp st = primary then Some (bootstrap_mqtt_url st)
      else Some (bootstrap_mqtt_url_bkp st))"

text \<open>The two connection attempts of a turn: the URL connected, if any; \<open>None\<close> outside: still trying.\<close>

definition connect_turn ::
    "ap2p_state \<Rightarrow> mturn_obs \<Rightarrow> string option \<Rightarrow> mqtt \<Rightarrow> string option option \<times> mqtt \<times> mqtt_ev list" where
  "connect_turn st ob last_ok m =
     (let p = primary_url last_ok st;
          (r1, m1, ev1) = connect_once p (mo_primary ob) m
      in case r1 of
           None \<Rightarrow> (None, m1, ev1)
         | Some True \<Rightarrow> (Some (Some p), m1, ev1)
         | Some False \<Rightarrow>
             (case secondary_url p st of
                None \<Rightarrow> (Some None, m1, ev1 @ [SleepMs (reconnect_interval_s * 1000)])
              | Some s \<Rightarrow>
                  (let (r2, m2, ev2) = connect_once s (mo_secondary ob) m1
                   in case r2 of
                        None \<Rightarrow> (None, m2, ev1 @ ev2)
                      | Some True \<Rightarrow> (Some (Some s), m2, ev1 @ ev2)
                      | Some False \<Rightarrow> (Some None, m2, ev1 @ ev2 @ [SleepMs (reconnect_interval_s * 1000)]))))"

definition fire_startup :: "mqtt \<Rightarrow> mqtt \<times> mqtt_ev list" where
  "fire_startup m =
     (if startup_fired m then (m, []) else (m\<lparr>startup_fired := True\<rparr>, [SpawnStartup, SpawnKeepalive]))"

definition disconnect_ev :: "mqtt \<Rightarrow> nat \<Rightarrow> mqtt_ev list" where
  "disconnect_ev m ms = (case g_client m of None \<Rightarrow> [] | Some h \<Rightarrow> [Disconnect h ms])"

text \<open>One turn of the loop: \<open>None\<close> is still inside it, else the URL the next turn starts with.\<close>

definition mqtt_turn ::
    "string \<Rightarrow> ap2p_state \<Rightarrow> mturn_obs \<Rightarrow> string option \<Rightarrow> mqtt \<Rightarrow> string option option \<times> mqtt \<times> mqtt_ev list" where
  "mqtt_turn recv st ob last_ok m =
     (case connect_turn st ob last_ok m of
        (None, m1, ev1) \<Rightarrow> (None, m1, ev1)
      | (Some None, m1, ev1) \<Rightarrow> (Some last_ok, m1, ev1)
      | (Some (Some u), m1, ev1) \<Rightarrow>
          (let (ok, ev2) = subscribe_topics recv (mo_subscribed ob) in
           if \<not> ok
           then (Some (Some u), m1, ev1 @ ev2 @ disconnect_ev m1 10000 @ [SleepMs (reconnect_interval_s * 1000)])
           else let (m2, ev3) = fire_startup m1 in
             (case idle_loop (mo_idle ob) of
                None \<Rightarrow> (None, m2, ev1 @ ev2 @ ev3)
              | Some n \<Rightarrow> (Some (Some u), m2, ev1 @ ev2 @ ev3 @ replicate n (SleepMs 1000) @ disconnect_ev m2 2000))))"



subsection \<open>Client handles\<close>

definition the_client :: "mqtt \<Rightarrow> int list" where
  "the_client m = (case g_client m of None \<Rightarrow> [] | Some h \<Rightarrow> [h])"

definition mq_ok :: "mqtt \<Rightarrow> bool" where
  "mq_ok m \<longleftrightarrow> mq_live m = the_client m"

primrec created :: "mqtt_ev list \<Rightarrow> int list" where
  "created [] = []"
| "created (e # ev) = (case e of Create u h \<Rightarrow> [h] | _ \<Rightarrow> []) @ created ev"

primrec destroyed :: "mqtt_ev list \<Rightarrow> int list" where
  "destroyed [] = []"
| "destroyed (e # ev) = (case e of Destroy h \<Rightarrow> [h] | _ \<Rightarrow> []) @ destroyed ev"

text \<open>The thread starts of a trace, in order.\<close>

definition spawned :: "mqtt_ev list \<Rightarrow> mqtt_ev list" where
  "spawned ev = filter (\<lambda>e. e = SpawnStartup \<or> e = SpawnKeepalive) ev"


lemma created_append [simp]: "created (a @ b) = created a @ created b"
  by (induction a) simp_all

lemma destroyed_append [simp]: "destroyed (a @ b) = destroyed a @ destroyed b"
  by (induction a) simp_all

lemma spawned_simps [simp]:
  "spawned [] = []" "spawned (a @ b) = spawned a @ spawned b"
  "spawned (e # ev) = (if e = SpawnStartup \<or> e = SpawnKeepalive then [e] else []) @ spawned ev"
  by (simp_all add: spawned_def)

lemma sleeps_silent [simp]:
  "created (map SleepMs sl) = []" "destroyed (map SleepMs sl) = []" "spawned (map SleepMs sl) = []"
  by (induction sl) simp_all

lemma naps_silent [simp]:
  "created (replicate n (SleepMs k)) = []" "destroyed (replicate n (SleepMs k)) = []"
  "spawned (replicate n (SleepMs k)) = []"
  by (induction n) simp_all







lemma disconnect_silent [simp]:
  "created (disconnect_ev m k) = []" "destroyed (disconnect_ev m k) = []" "spawned (disconnect_ev m k) = []"
  by (simp_all add: disconnect_ev_def split: option.split)








subsection \<open>The retry schedule\<close>

definition failing :: "attempt \<Rightarrow> bool" where
  "failing a \<longleftrightarrow> \<not> at_ok a \<and> \<not> at_shutdown a"

definition backoff :: "nat \<Rightarrow> nat" where
  "backoff i = min reconnect_backoff_cap (2 ^ i)"

lemma connect_loop_fast:
  "\<forall>a \<in> set fs. failing a \<and> \<not> used \<and> at_elapsed_ns a < fast_boot_window_ns \<Longrightarrow>
   connect_loop used b (fs @ as)
     = (fst (connect_loop used b as), replicate (length fs) fast_boot_retry_ms @ snd (connect_loop used b as))"
  by (induction fs) (auto simp: failing_def split: prod.split)

lemma backoff_Suc: "(if backoff i * 2 > reconnect_backoff_cap then reconnect_backoff_cap else backoff i * 2) = backoff (Suc i)"
  by (simp add: backoff_def reconnect_backoff_cap_def min_def)

lemma connect_loop_steady:
  "\<forall>a \<in> set ss. failing a \<and> (used \<or> at_elapsed_ns a \<ge> fast_boot_window_ns) \<Longrightarrow>
   connect_loop used (backoff i) (ss @ as)
     = (fst (connect_loop used (backoff (i + length ss)) as),
        map (\<lambda>j. backoff j * 1000) [i..<i + length ss] @ snd (connect_loop used (backoff (i + length ss)) as))"
proof (induction ss arbitrary: i)
  case (Cons a ss)
  then have a: "\<not> at_ok a" "\<not> at_shutdown a" "\<not> (\<not> used \<and> at_elapsed_ns a < fast_boot_window_ns)"
    by (auto simp: failing_def)
  have "[i..<i + length (a # ss)] = i # [Suc i..<Suc i + length ss]"
    by (simp add: upt_conv_Cons [of i] del: upt_Suc)
  then show ?case using a Cons.IH [of "Suc i"] Cons.prems
    by (auto simp: backoff_Suc Let_def split_beta simp del: upt_Suc)
qed simp

lemma connect_loop_failing: "\<forall>a \<in> set as. failing a \<Longrightarrow> fst (connect_loop used b as) = None"
  by (induction as arbitrary: b) (auto simp: failing_def Let_def split_beta)

subsection \<open>Properties\<close>

lemma own_topic:
  "fits 64 nid \<Longrightarrow> topic_recv nid = ''torque/rx/'' @ nid @ ''/''"
  by (auto simp: topic_recv_def fits_def intro!: bcopy_short)

lemma own_topic_case:
  assumes "fits 64 nid" "int n \<le> int_max"
  shows "case_of_topic (topic_recv nid) (''torque/rx/'' @ nid @ ''/'' @ show_nat n) = int n"
proof -
  have "starts_with (topic_recv nid) (''torque/rx/'' @ nid @ ''/'' @ show_nat n)"
    using starts_with_append [of "topic_recv nid" "show_nat n"] by (simp add: own_topic [OF assms(1)])
  then show ?thesis using assms by (simp add: case_of_topic_def own_topic atoi_show_nat)
qed

text \<open>
  Messages are dispatched by their topic: case 90 of the device's own topic is applied to the shared
  state, every other case of it, and every message of another topic (the broadcast topic
  \<open>torque/rx/all\<close> included, whatever its case), goes to the legacy handlers and leaves the state alone.
  The topic buffer never cuts a node id that fits its own.
\<close>

theorem dispatch_by_topic:
  assumes "fits 64 nid" "int n \<le> int_max"
  shows "message_arrived True (topic_recv nid) (''torque/rx/'' @ nid @ ''/'' @ show_nat n) payload st
      = (if n = 90 then (case apply_ap2p_conf_payload st payload of (rc, st', marks) \<Rightarrow> (ConfPush rc marks, st'))
         else (LegacyMessage, st))
    \<and> (\<not> starts_with (''torque/rx/'' @ nid @ ''/'') topic
        \<longrightarrow> message_arrived True (topic_recv nid) topic payload st = (LegacyMessage, st))"
  using own_topic_case [OF assms] by (simp add: message_arrived_def case_of_topic_def own_topic [OF assms(1)])

theorem dispatch_by_topic_witness:
  "message_arrived True (topic_recv ''cam1'') (''torque/rx/'' @ ''cam1'' @ ''/'' @ show_nat 81) ''CTRL_HOST=a'' ap2p_state_init
     = (LegacyMessage, ap2p_state_init)
   \<and> message_arrived True (topic_recv ''cam1'') ''torque/rx/all/90'' ''CTRL_HOST=a'' ap2p_state_init
     = (LegacyMessage, ap2p_state_init)"
  using dispatch_by_topic [of "''cam1''" 81 "''CTRL_HOST=a''" ap2p_state_init "''torque/rx/all/90''"]
  by (simp add: fits_def int_max_def starts_with_def)

text \<open>
  A connection attempt retries until the broker answers: every half second while the one-shot fast
  window is open, then after 1, 2, 4, ... and at most 60 seconds.  When it answers, the new handle is the
  library's current client, the one other threads publish with and the one the legacy handlers got, and
  the fast window is spent.
\<close>

theorem connect_retries_until_answered:
  assumes "\<forall>a \<in> set fs. failing a \<and> \<not> fast_window_used m \<and> at_elapsed_ns a < fast_boot_window_ns"
    "\<forall>a \<in> set ss. failing a \<and> (fast_window_used m \<or> at_elapsed_ns a \<ge> fast_boot_window_ns)" "at_ok a"
    "connect_once uri \<lparr>co_create = Some h, co_attempts = fs @ ss @ a # rest\<rparr> m = (r, m', ev)"
  shows "r = Some True \<and> fast_window_used m' \<and> g_client m' = Some h \<and> mq_exposed m' = Some h \<and> mq_legacy m' = Some h
    \<and> ev = snd (destroy_client m) @ [Create uri h, Marked BT_MQTT_CONNECTING]
         @ map SleepMs (replicate (length fs) 500 @ map (\<lambda>j. min 60 (2 ^ j) * 1000) [0..<length ss])
         @ [Marked BT_MQTT_CONNECTED, LegacyInit h uri]"
proof -
  let ?u = "fast_window_used m"
  have d: "fast_window_used (fst (destroy_client m)) = ?u" by (simp add: destroy_client_def split: option.split)
  have "connect_loop ?u (backoff 0) (ss @ a # rest) = (Some True, map (\<lambda>j. backoff j * 1000) [0..<length ss])"
    using connect_loop_steady [OF assms(2), of 0 "a # rest"] assms(3) by simp
  then have "connect_loop ?u 1 (fs @ ss @ a # rest)
    = (Some True, replicate (length fs) 500 @ map (\<lambda>j. min 60 (2 ^ j) * 1000) [0..<length ss])"
    using connect_loop_fast [OF assms(1), of "backoff 0" "ss @ a # rest"]
    by (simp add: backoff_def reconnect_backoff_cap_def fast_boot_retry_ms_def)
  then show ?thesis using assms(4) d
    by (auto simp: connect_once_def Let_def split_beta split: option.splits)
qed

definition try_at :: "bool \<Rightarrow> int \<Rightarrow> attempt" where
  "try_at ok s = \<lparr>at_ok = ok, at_elapsed_ns = s * 10 ^ 9, at_shutdown = False\<rparr>"

theorem connect_retries_until_answered_witness:
  "snd (snd (connect_once ''tcp://b'' \<lparr>co_create = Some 7, co_attempts = [try_at False 1] @ [try_at False 40, try_at False 42] @ try_at True 45 # []\<rparr> mqtt_init))
    = [Create ''tcp://b'' 7, Marked BT_MQTT_CONNECTING, SleepMs 500, SleepMs 1000, SleepMs 2000,
       Marked BT_MQTT_CONNECTED, LegacyInit 7 ''tcp://b'']"
proof -
  obtain r m' ev where c: "connect_once ''tcp://b'' \<lparr>co_create = Some 7,
      co_attempts = [try_at False 1] @ [try_at False 40, try_at False 42] @ try_at True 45 # []\<rparr> mqtt_init = (r, m', ev)"
    by (metis prod_cases3)
  show ?thesis using connect_retries_until_answered [OF _ _ _ c] c
    by (simp add: try_at_def failing_def mqtt_init_def fast_boot_window_ns_def destroy_client_def upt_rec)
qed

text \<open>
  C34. As long as a client can be created and no shutdown is seen, a turn whose first broker never answers
  never leaves that broker: the configured backup is not contacted, however long it lasts.
\<close>

theorem unreachable_primary_never_fails_over:
  assumes "co_create (mo_primary ob) = Some h" "\<forall>a \<in> set (co_attempts (mo_primary ob)). failing a"
    "mqtt_turn recv st ob last_ok m = (r, m', ev)"
  shows "r = None \<and> (\<forall>u k. Create u k \<in> set ev \<longrightarrow> u = primary_url last_ok st \<and> k = h)"
proof -
  have f: "fst (connect_loop b n (co_attempts (mo_primary ob))) = None" for b n
    by (rule connect_loop_failing [OF assms(2)])
  have "\<forall>u k. Create u k \<notin> set (snd (destroy_client m))" by (simp add: destroy_client_def split: option.split)
  then show ?thesis using assms f
    by (auto simp: mqtt_turn_def connect_turn_def connect_once_def Let_def split_beta)
qed

definition down_turn :: mturn_obs where
  "down_turn = \<lparr>mo_shutdown = False, mo_primary = \<lparr>co_create = Some 5, co_attempts = replicate 100 (try_at False 60)\<rparr>,
     mo_secondary = \<lparr>co_create = Some 6, co_attempts = [try_at True 0]\<rparr>, mo_subscribed = True, mo_idle = []\<rparr>"

theorem unreachable_primary_never_fails_over_witness:
  "fst (mqtt_turn (topic_recv ''cam1'') (ap2p_state_init\<lparr>bootstrap_mqtt_url := ''a'', bootstrap_mqtt_url_bkp := ''b''\<rparr>) down_turn None mqtt_init) = None"
  using unreachable_primary_never_fails_over [of down_turn 5 "topic_recv ''cam1''"
      "ap2p_state_init\<lparr>bootstrap_mqtt_url := ''a'', bootstrap_mqtt_url_bkp := ''b''\<rparr>" None mqtt_init]
  by (cases "mqtt_turn (topic_recv ''cam1'') (ap2p_state_init\<lparr>bootstrap_mqtt_url := ''a'', bootstrap_mqtt_url_bkp := ''b''\<rparr>) down_turn None mqtt_init")
    (simp add: down_turn_def try_at_def failing_def)

text \<open>
  While the thread reconnects, the handle the other threads publish with is one the library has
  already destroyed: \<open>connect_once\<close> destroys the old client before the loop that may wait for hours, and
  replaces the shared pointer only after it.
\<close>

theorem exposed_client_dangles:
  assumes "mq_ok m" "g_client m = Some k" "mq_exposed m = Some k" "h \<noteq> k" "\<forall>a \<in> set as. failing a"
    "connect_once uri \<lparr>co_create = Some h, co_attempts = as\<rparr> m = (r, m', ev)"
  shows "r = None \<and> Destroy k \<in> set ev \<and> mq_live m' = [h] \<and> mq_exposed m' = Some k \<and> mq_legacy m' = mq_legacy m"
  using assms connect_loop_failing [OF assms(5)]
  by (auto simp: connect_once_def destroy_client_def mq_ok_def the_client_def Let_def split_beta)

definition up_mqtt :: mqtt where
  "up_mqtt = \<lparr>g_client = Some 3, mq_live = [3], fast_window_used = True, startup_fired = True,
     mq_exposed = Some 3, mq_legacy = Some 3\<rparr>"

theorem exposed_client_dangles_witness:
  "\<exists>m' ev. connect_once ''a'' \<lparr>co_create = Some 4, co_attempts = [try_at False 1]\<rparr> up_mqtt = (None, m', ev)
     \<and> mq_live m' = [4] \<and> mq_exposed m' = Some 3"
proof -
  obtain r m' ev where c: "connect_once ''a'' \<lparr>co_create = Some 4, co_attempts = [try_at False 1]\<rparr> up_mqtt = (r, m', ev)"
    by (metis prod_cases3)
  show ?thesis using exposed_client_dangles [OF _ _ _ _ _ c, of 3] c
    by (simp add: up_mqtt_def mq_ok_def the_client_def try_at_def failing_def)
qed





end
