(* ===== verification/Double.thy ===== *)
theory Double
  imports Complex_Main Prelude
begin

text \<open>
  C's \<open>float\<close> and \<open>double\<close> as the daemon computes with them: IEEE values with a sign, rounding to
  nearest even, \<open>strtod\<close>, and \<open>sprintf\<close> with \<open>%1.<P>g\<close>.  A finite value keeps its sign and its
  exact rational magnitude, so that minus zero is \<open>Finite True 0\<close>.
\<close>

datatype dbl = Finite bool rat | Infinite bool | NaN

subsection \<open>Logarithms and rounding\<close>

function ilog :: "nat \<Rightarrow> nat \<Rightarrow> nat" where
  "ilog b n = (if b < 2 \<or> n < b then 0 else Suc (ilog b (n div b)))"
  by pat_completeness auto

termination ilog
  by (relation "measure snd") auto

declare ilog.simps [simp del]

text \<open>The exponent of the leading digit of a positive rational in base \<open>b\<close>.\<close>

definition rlog :: "nat \<Rightarrow> rat \<Rightarrow> int" where
  "rlog b m =
     (case quotient_of m of (p, q) \<Rightarrow>
        (let e = int (ilog b (nat p)) - int (ilog b (nat q))
         in if power_int (of_nat b) e \<le> m then e else e - 1))"

definition round_even :: "rat \<Rightarrow> int" where
  "round_even q =
     (let f = \<lfloor>q\<rfloor>; d = q - of_int f
      in if d < 1 / 2 then f else if 1 / 2 < d then f + 1 else if even f then f else f + 1)"

text \<open>Rounding to \<open>p\<close> bits with the least exponent \<open>emin\<close>; from \<open>2 ^ emax\<close> on it is an infinity.\<close>

definition round_fp :: "nat \<Rightarrow> int \<Rightarrow> nat \<Rightarrow> bool \<Rightarrow> rat \<Rightarrow> dbl" where
  "round_fp p emin emax neg m =
     (if m = 0 then Finite neg 0
      else let e = max emin (rlog 2 m - (int p - 1));
               v = of_int (round_even (m / power_int 2 e)) * power_int 2 e
           in if 2 ^ emax \<le> v then Infinite neg else Finite neg v)"

definition to_double :: "bool \<Rightarrow> rat \<Rightarrow> dbl" where
  "to_double = round_fp 53 (-1074) 1024"

definition to_float :: "bool \<Rightarrow> rat \<Rightarrow> dbl" where
  "to_float = round_fp 24 (-149) 128"

lemma ilog_bounds:
  assumes "2 \<le> b" "0 < n"
  shows "b ^ ilog b n \<le> n \<and> n < b ^ Suc (ilog b n)"
  using assms
proof (induction n rule: less_induct)
  case (less n)
  show ?case
  proof (cases "n < b")
    case True
    then show ?thesis using less.prems by (simp add: ilog.simps [of b n])
  next
    case False
    then have "0 < n div b" "n div b < n" using less.prems by (simp_all add: div_greater_zero_iff)
    then have IH: "b ^ ilog b (n div b) \<le> n div b" "n div b < b ^ Suc (ilog b (n div b))"
      using less.IH less.prems by blast+
    have "b * b ^ ilog b (n div b) \<le> b * (n div b)" using IH(1) by simp
    also have "\<dots> \<le> n" by simp
    finally have l: "b ^ ilog b n \<le> n" using False less.prems(1) by (simp add: ilog.simps [of b n])
    have "n < b * (n div b) + b" using less.prems(1) by (metis add.commute dividend_less_times_div mult.commute not_less_zero gr0I less_le_trans pos2)
    also have "\<dots> \<le> b * b ^ Suc (ilog b (n div b))" using IH(2)
      by (metis Suc_leI add.commute mult_Suc_right mult_le_mono2)
    finally have "n < b ^ Suc (ilog b n)" using False less.prems(1) by (simp add: ilog.simps [of b n])
    with l show ?thesis by blast
  qed
qed

lemma rlog_bounds:
  assumes "2 \<le> b" "0 < m"
  shows "power_int (of_nat b) (rlog b m) \<le> m \<and> m < power_int (of_nat b) (rlog b m + 1)"
proof -
  obtain p q where pq: "quotient_of m = (p, q)" by force
  have q: "0 < q" and m: "m = of_int p / of_int q" using pq by (auto simp: quotient_of_denom_pos quotient_of_div)
  then have p: "0 < p" using assms(2) by (simp add: zero_less_divide_iff)
  let ?P = "ilog b (nat p)" and ?Q = "ilog b (nat q)"
  let ?B = "of_nat b :: rat"
  have B: "1 < ?B" "?B \<noteq> 0" using assms(1) by simp_all
  have "b ^ ?P \<le> nat p \<and> nat p < b ^ Suc ?P" "b ^ ?Q \<le> nat q \<and> nat q < b ^ Suc ?Q"
    using ilog_bounds assms(1) p q by simp_all
  then have "of_nat (b ^ ?P) \<le> (of_nat (nat p) :: rat)" "(of_nat (nat p) :: rat) < of_nat (b ^ Suc ?P)"
    "of_nat (b ^ ?Q) \<le> (of_nat (nat q) :: rat)" "(of_nat (nat q) :: rat) < of_nat (b ^ Suc ?Q)"
    by (simp_all only: of_nat_le_iff of_nat_less_iff)
  then have bp: "?B ^ ?P \<le> of_int p" "of_int p < ?B ^ Suc ?P" "?B ^ ?Q \<le> of_int q" "of_int q < ?B ^ Suc ?Q"
    using p q by (simp_all add: of_nat_nat)
  have pos: "0 < ?B ^ n" for n using B by simp
  let ?e = "int ?P - int ?Q"
  have "m < ?B ^ Suc ?P / ?B ^ ?Q"
    unfolding m by (rule frac_less) (use bp pos [of ?Q] p in \<open>simp_all add: less_imp_le\<close>)
  also have "\<dots> = power_int ?B (?e + 1)" using B
    by (simp add: power_int_diff power_int_add)
  finally have up: "m < power_int ?B (?e + 1)" .
  have "power_int ?B (?e - 1) = ?B ^ ?P / ?B ^ Suc ?Q" using B by (simp add: power_int_diff)
  also have "\<dots> \<le> m" unfolding m by (rule frac_le) (use bp q pos [of ?P] p in \<open>simp_all add: less_imp_le\<close>)
  finally have lo: "power_int ?B (?e - 1) \<le> m" .
  show ?thesis
  proof (cases "power_int ?B ?e \<le> m")
    case True
    then have "rlog b m = ?e" by (simp add: rlog_def pq)
    with True up show ?thesis by (simp only:)
  next
    case False
    then have e: "rlog b m = ?e - 1" by (simp add: rlog_def pq)
    have "rlog b m + 1 = ?e" unfolding e by simp
    then have "m < power_int ?B (rlog b m + 1)" using False by (simp only: not_le)
    moreover have "power_int ?B (rlog b m) \<le> m" unfolding e by (rule lo)
    ultimately show ?thesis by blast
  qed
qed

lemma power_int_less_exp: "1 < (b :: rat) \<Longrightarrow> power_int b i < power_int b j \<longleftrightarrow> i < j"
  using power_int_strict_increasing [of i j b] power_int_increasing [of j i b] by (cases "i < j") auto

lemma rlog_unique:
  assumes "2 \<le> b" "power_int (of_nat b) e \<le> m" "m < power_int (of_nat b) (e + 1)"
  shows "rlog b m = e"
proof -
  have B: "1 < (of_nat b :: rat)" using assms(1) by simp
  have "0 < power_int (of_nat b :: rat) e" using B by simp
  then have m: "0 < m" using assms(2) by linarith
  note r = rlog_bounds [OF assms(1) m]
  have "power_int (of_nat b :: rat) e < power_int (of_nat b) (rlog b m + 1)"
    "power_int (of_nat b :: rat) (rlog b m) < power_int (of_nat b) (e + 1)"
    using r assms by linarith+
  then show ?thesis by (simp add: power_int_less_exp [OF B])
qed

lemma round_even_of_int [simp]: "round_even (of_int k) = k"
  by (simp add: round_even_def)

lemma round_even_near:
  assumes "\<bar>q - of_int k\<bar> < 1 / 2"
  shows "round_even q = k"
proof (cases "of_int k \<le> q")
  case True
  then have "\<lfloor>q\<rfloor> = k" using assms by (simp add: floor_eq_iff)
  then show ?thesis using assms True by (simp add: round_even_def)
next
  case False
  then have "\<lfloor>q\<rfloor> = k - 1" using assms by (simp add: floor_eq_iff)
  then show ?thesis using assms False by (simp add: round_even_def)
qed

lemma round_even_dist: "\<bar>of_int (round_even q) - q\<bar> \<le> 1 / 2"
proof -
  have "of_int \<lfloor>q\<rfloor> \<le> q" "q < of_int \<lfloor>q\<rfloor> + 1" by linarith+
  then show ?thesis by (auto simp: round_even_def Let_def abs_le_iff)
qed


lemma round_fp_int:
  assumes "n < 2 ^ p" "emin \<le> 0" "p \<le> emax"
  shows "round_fp p emin emax neg (of_nat n) = Finite neg (of_nat n)"
proof (cases "n = 0")
  case False
  let ?e = "max emin (rlog 2 (of_nat n) - (int p - 1))"
  have "power_int (of_nat 2) (rlog 2 (of_nat n)) \<le> (of_nat n :: rat)" using rlog_bounds [of 2 "of_nat n"] False by simp
  also have "\<dots> < of_nat (2 ^ p)" using assms(1) by (simp only: of_nat_less_iff)
  also have "\<dots> = power_int (of_nat 2) (int p)" by simp
  finally have "rlog 2 (of_nat n) < int p" by (subst (asm) power_int_less_exp) simp_all
  then have "?e \<le> 0" using assms(2) by simp
  then obtain k where k: "?e = - int k" by (metis nonpos_int_cases)
  have d: "(of_nat n :: rat) / power_int 2 ?e = of_int (int n * 2 ^ k)"
    by (simp only: k power_int_minus power_int_of_nat) (simp add: field_simps)
  have v: "(of_int (int n * 2 ^ k) :: rat) * power_int 2 ?e = of_nat n"
    by (simp only: k power_int_minus power_int_of_nat) simp
  have "(2::nat) ^ p \<le> 2 ^ emax" using assms(3) by (simp add: power_increasing)
  then have "n < 2 ^ emax" using assms(1) by linarith
  then have "(of_nat n :: rat) < of_nat (2 ^ emax)" by (simp only: of_nat_less_iff)
  then have "\<not> 2 ^ emax \<le> (of_nat n :: rat)" by simp
  then show ?thesis using False unfolding round_fp_def Let_def d round_even_of_int v by simp
qed (simp add: round_fp_def)

corollary to_double_int: "n < 2 ^ 53 \<Longrightarrow> to_double neg (of_nat n) = Finite neg (of_nat n)"
  unfolding to_double_def by (rule round_fp_int) simp_all

text \<open>Arithmetic on finite values: exact, then rounded to the type of the result.\<close>

definition rat_of :: "dbl \<Rightarrow> rat" where
  "rat_of v = (case v of Finite neg m \<Rightarrow> (if neg then - m else m) | _ \<Rightarrow> 0)"

definition double_of :: "rat \<Rightarrow> dbl" where
  "double_of q = to_double (q < 0) \<bar>q\<bar>"

definition float_of :: "rat \<Rightarrow> dbl" where
  "float_of q = to_float (q < 0) \<bar>q\<bar>"

definition div_double :: "rat \<Rightarrow> rat \<Rightarrow> dbl" where
  "div_double a b = (if b = 0 then (if a = 0 then NaN else Infinite (a < 0)) else double_of (a / b))"

subsection \<open>Reading numbers\<close>

definition read_sign :: "string \<Rightarrow> bool \<times> string" where
  "read_sign s =
     (case s of c # t \<Rightarrow> if c = CHR ''-'' then (True, t) else if c = CHR ''+'' then (False, t) else (False, s)
      | [] \<Rightarrow> (False, s))"

definition read_exponent :: "string \<Rightarrow> int \<times> string" where
  "read_exponent s =
     (case s of [] \<Rightarrow> (0, s)
      | c # t \<Rightarrow>
          if c = CHR ''e'' \<or> c = CHR ''E''
          then (let (neg, u) = read_sign t; ds = takeWhile isdigit u
                in if ds = [] then (0, s) else ((if neg then -1 else 1) * dec_acc 0 ds, dropWhile isdigit u))
          else (0, s))"

definition read_fraction :: "string \<Rightarrow> string \<times> string" where
  "read_fraction s =
     (case s of [] \<Rightarrow> ([], s)
      | c # t \<Rightarrow> if c = CHR ''.'' then (takeWhile isdigit t, dropWhile isdigit t) else ([], s))"

definition decimal :: "string \<Rightarrow> string \<Rightarrow> int \<Rightarrow> rat" where
  "decimal ip fp ex = of_int (dec_acc 0 (ip @ fp)) * power_int 10 (ex - int (length fp))"

text \<open>The value and the text behind it; \<open>None\<close> when nothing was converted.\<close>

definition strtod :: "string \<Rightarrow> (dbl \<times> string) option" where
  "strtod s =
     (let (neg, t) = read_sign s; ip = takeWhile isdigit t; (fp, u) = read_fraction (dropWhile isdigit t)
      in if ip = [] \<and> fp = [] then None
         else let (ex, v) = read_exponent u in Some (to_double neg (decimal ip fp ex), v))"

subsection \<open>Printing numbers\<close>

definition strip_zeros :: "string \<Rightarrow> string" where
  "strip_zeros s = rev (dropWhile (\<lambda>c. c = CHR ''0'') (rev s))"

definition pointed :: "string \<Rightarrow> string \<Rightarrow> string" where
  "pointed ip fp = (if fp = [] then ip else ip @ CHR ''.'' # fp)"

definition show_exponent :: "int \<Rightarrow> string" where
  "show_exponent x =
     CHR ''e'' # (if x < 0 then CHR ''-'' else CHR ''+'')
       # (if nat \<bar>x\<bar> < 10 then CHR ''0'' # show_nat (nat \<bar>x\<bar>) else show_nat (nat \<bar>x\<bar>))"

text \<open>The digits of a positive magnitude at \<open>P\<close> significant places and the exponent of the first one.\<close>

definition g_digits :: "nat \<Rightarrow> rat \<Rightarrow> nat \<times> int" where
  "g_digits P m =
     (let x = rlog 10 m; d = nat (round_even (m / power_int 10 (x - int P + 1)))
      in if d = 10 ^ P then (10 ^ (P - 1), x + 1) else (d, x))"

definition g_layout :: "nat \<Rightarrow> nat \<Rightarrow> int \<Rightarrow> string" where
  "g_layout P d x =
     (let ds = show_nat d
      in if x < -4 \<or> int P \<le> x then pointed (take 1 ds) (strip_zeros (drop 1 ds)) @ show_exponent x
         else if 0 \<le> x then pointed (take (nat x + 1) ds) (strip_zeros (drop (nat x + 1) ds))
         else pointed ''0'' (strip_zeros (replicate (nat (- x) - 1) (CHR ''0'') @ ds)))"

definition sprintf_g :: "nat \<Rightarrow> dbl \<Rightarrow> string" where
  "sprintf_g P v =
     (case v of
        NaN \<Rightarrow> ''nan''
      | Infinite neg \<Rightarrow> (if neg then ''-inf'' else ''inf'')
      | Finite neg m \<Rightarrow>
          (if neg then ''-'' else []) @ (if m = 0 then ''0'' else case g_digits P m of (d, x) \<Rightarrow> g_layout P d x))"

subsection \<open>Rounding decimals\<close>


lemma round_even_le: "q \<le> of_int k \<Longrightarrow> round_even q \<le> k"
proof -
  assume q: "q \<le> of_int k"
  have "of_int (round_even q) \<le> q + 1 / 2" using round_even_dist [of q] by linarith
  then have "of_int (round_even q) < (of_int (k + 1) :: rat)" using q by simp
  then show ?thesis by linarith
qed

lemma round_even_ge: "of_int k \<le> q \<Longrightarrow> k \<le> round_even q"
proof -
  assume q: "of_int k \<le> q"
  have "q - 1 / 2 \<le> of_int (round_even q)" using round_even_dist [of q] by linarith
  then have "of_int (k - 1) < (of_int (round_even q) :: rat)" using q by simp
  then show ?thesis by linarith
qed

lemma powi_pos [simp]: "0 < power_int (10 :: rat) x" "0 < power_int (2 :: rat) x"
  by simp_all

lemma powi_shift: "(b :: rat) \<noteq> 0 \<Longrightarrow> i = int n + j \<Longrightarrow> power_int b i = b ^ n * power_int b j"
  by (simp add: power_int_add)

lemma scale_dist:
  assumes "0 < (u :: rat)" "\<bar>r - m / u\<bar> \<le> 1 / 2"
  shows "\<bar>r * u - m\<bar> \<le> 1 / 2 * u"
proof -
  have "r * u - m = (r - m / u) * u" using assms(1) by (simp add: field_simps)
  then have "\<bar>r * u - m\<bar> = \<bar>r - m / u\<bar> * u" using assms(1) by (simp add: abs_mult)
  also have "\<dots> \<le> 1 / 2 * u" using assms by (intro mult_right_mono) simp_all
  finally show ?thesis .
qed

lemma g_digits_spec:
  assumes "0 < m" "0 < P" "g_digits P m = (d, x)"
  shows "10 ^ (P - 1) \<le> d \<and> d < 10 ^ P
    \<and> \<bar>of_nat d * power_int 10 (x - int P + 1) - m\<bar> \<le> 1 / 2 * power_int 10 (rlog 10 m - int P + 1)"
proof -
  let ?x = "rlog 10 m" and ?u = "power_int (10 :: rat) (rlog 10 m - int P + 1)"
  let ?r = "round_even (m / ?u)"
  have b: "power_int 10 ?x \<le> m" "m < power_int 10 (?x + 1)" using rlog_bounds [of 10 m] assms(1) by simp_all
  have lo: "power_int 10 ?x = 10 ^ (P - 1) * ?u" by (rule powi_shift) (use assms(2) in simp_all)
  have hi: "power_int 10 (?x + 1) = 10 ^ P * ?u" by (rule powi_shift) simp_all
  have "of_int (10 ^ (P - 1)) \<le> m / ?u" "m / ?u \<le> of_int (10 ^ P)"
    using b lo hi by (simp_all add: pos_le_divide_eq pos_divide_le_eq)
  then have r: "10 ^ (P - 1) \<le> ?r" "?r \<le> 10 ^ P" using round_even_ge round_even_le by blast+
  have nr: "nat ?r \<le> 10 ^ P" "10 ^ (P - 1) \<le> nat ?r" "of_nat (nat ?r) = (of_int ?r :: rat)"
    using r order_trans [OF zero_le_power r(1)] by (simp_all add: nat_le_iff le_nat_iff)
  have d: "\<bar>of_int ?r * ?u - m\<bar> \<le> 1 / 2 * ?u" by (rule scale_dist [OF _ round_even_dist]) simp
  show ?thesis
  proof (cases "nat ?r = 10 ^ P")
    case True
    then have dx: "d = 10 ^ (P - 1)" "x = ?x + 1" using assms(3) by (auto simp: g_digits_def Let_def)
    have "x - int P + 1 = 1 + (?x - int P + 1)" using dx by simp
    then have "power_int (10 :: rat) (x - int P + 1) = 10 ^ 1 * ?u" by (intro powi_shift) simp_all
    moreover have "(10 :: rat) ^ P = 10 ^ (P - 1) * 10" using assms(2) by (cases P) simp_all
    ultimately have "of_nat d * power_int 10 (x - int P + 1) = of_int ?r * ?u"
      using True nr(3) dx by simp
    then show ?thesis using d dx assms(2) by simp
  next
    case False
    then have "d = nat ?r" "x = ?x" using assms(3) by (auto simp: g_digits_def Let_def)
    then show ?thesis using d nr False by simp
  qed
qed


text \<open>A finite double: rounding leaves it alone.\<close>

definition double_ok :: "dbl \<Rightarrow> bool" where
  "double_ok v = (case v of Finite neg m \<Rightarrow> 0 \<le> m \<and> to_double neg m = v | _ \<Rightarrow> False)"

lemma round_fp_value:
  assumes "0 < m" "e = max emin (rlog 2 m - (int p - 1))" "\<bar>m / power_int 2 e - of_int k\<bar> < 1 / 2"
    "of_int k * power_int 2 e < (2 :: rat) ^ emax"
  shows "round_fp p emin emax neg m = Finite neg (of_int k * power_int 2 e)"
proof -
  have "round_even (m / power_int 2 e) = k" using assms(3) by (rule round_even_near)
  then show ?thesis using assms(1,4) unfolding round_fp_def Let_def assms(2) [symmetric] by simp
qed

text \<open>A decimal that is within half a unit of 17 digits of a double is read back as that double.\<close>

lemma to_double_near:
  assumes m: "0 < m" "to_double neg m = Finite neg m" and t: "\<bar>t - m\<bar> \<le> 1 / 2 * power_int 10 (rlog 10 m - 16)"
  shows "to_double neg t = Finite neg m"
proof -
  let ?E = "rlog 2 m"
  define D where "D = \<bar>t - m\<bar>"
  define e where "e = max (-1074) (?E - 52)"
  define u where "u = power_int (2 :: rat) e"
  define k where "k = round_even (m / u)"
  have u: "0 < u" by (simp add: u_def)
  have mk: "m = of_int k * u" and fin: "m < 2 ^ 1024"
    using m by (auto simp: to_double_def round_fp_def Let_def e_def [symmetric] u_def [symmetric] k_def [symmetric] split: if_splits)
  have E: "power_int 2 ?E \<le> m" "m < power_int 2 (?E + 1)" using rlog_bounds [of 2 m] m(1) by simp_all
  have k0: "0 < k" using m(1) mk u by (simp add: zero_less_mult_iff)
  have "power_int 10 (rlog 10 m) \<le> m" using rlog_bounds [of 10 m] m(1) by simp
  moreover have "power_int (10 :: rat) (rlog 10 m) = 10 ^ 16 * power_int 10 (rlog 10 m - 16)"
    by (rule powi_shift) simp_all
  ultimately have "\<bar>t - m\<bar> * (2 * 10 ^ 16) \<le> m" using t by simp
  then have td: "D * 20000000000000000 \<le> m" by (simp add: D_def)
  have "power_int 2 (?E + 1) \<le> power_int (2 :: rat) (e + 53)" by (rule power_int_increasing) (simp_all add: e_def)
  also have "\<dots> = 2 ^ 53 * u" unfolding u_def by (rule powi_shift) simp_all
  finally have mu: "m < 9007199254740992 * u" using E(2) by simp
  have ab: "m - t \<le> D" "t - m \<le> D" by (simp_all add: D_def)
  have t0: "0 < t"
  proof (rule ccontr)
    assume "\<not> 0 < t"
    then have "m \<le> D" using ab by linarith
    then have "m * 20000000000000000 \<le> D * 20000000000000000" by (rule mult_right_mono) simp
    then show False using td m(1) by simp
  qed
  let ?T = "rlog 2 t"
  have T: "power_int 2 ?T \<le> t" "t < power_int 2 (?T + 1)" using rlog_bounds [of 2 t] t0 by simp_all
  define f where "f = max (-1074) (?T - 52)"
  have half: "D * 2 < u" using td mu u by linarith
  have eE: "e \<le> ?E"
  proof (rule ccontr)
    assume "\<not> e \<le> ?E"
    then have "power_int 2 (?E + 1) \<le> u" unfolding u_def by (intro power_int_increasing) simp_all
    then have "of_int k * u < 1 * u" using E(2) mk by simp
    then show False using k0 u by (simp add: mult_less_cancel_right)
  qed
  have TE: "?T \<le> ?E"
  proof (rule ccontr)
    assume "\<not> ?T \<le> ?E"
    then have "power_int 2 (?E + 1) \<le> power_int (2 :: rat) ?T" by (intro power_int_increasing) simp_all
    then have a: "power_int 2 (?E + 1) \<le> t" using T(1) by linarith
    obtain j where j: "?E + 1 = int j + e" using eE by (metis add.commute add_diff_cancel_left' diff_ge_0_iff_ge nonneg_int_cases zle_add1_eq_le le_add_diff_inverse2 order_less_imp_le)
    have J: "power_int 2 (?E + 1) = of_int (2 ^ j) * u" unfolding u_def using powi_shift [OF _ j, of 2] by simp
    then have "of_int k * u < of_int (2 ^ j) * u" using E(2) mk by simp
    then have "(of_int k :: rat) < of_int (2 ^ j)" using u by (simp add: mult_less_cancel_right)
    then have "k < 2 ^ j" by (simp only: of_int_less_iff)
    then have "of_int (k + 1) \<le> (of_int (2 ^ j) :: rat)" by (simp only: of_int_le_iff)
    then have "of_int (k + 1) * u \<le> of_int (2 ^ j) * u" using u by (intro mult_right_mono) simp_all
    then have "m + u \<le> t" using a J mk by (simp add: algebra_simps)
    then show False using half u ab by linarith
  qed
  show ?thesis
  proof (cases "f = e")
    case True
    have "t / u - of_int k = (t - m) / u" using u by (simp add: mk field_simps)
    then have "\<bar>t / u - of_int k\<bar> = D / u" using u by (simp add: D_def abs_mult)
    also have "\<dots> < 1 / 2" using half u by (simp add: pos_divide_less_eq)
    finally have "round_fp 53 (-1074) 1024 neg t = Finite neg (of_int k * u)"
      unfolding u_def by (intro round_fp_value) (use t0 True fin mk in \<open>simp_all add: f_def u_def\<close>)
    then show ?thesis by (simp add: to_double_def mk)
  next
    case False
    then have lt: "?T < ?E" "e = ?E - 52" using TE unfolding e_def f_def by linarith+
    have "power_int 2 (?T + 1) \<le> power_int (2 :: rat) ?E" by (rule power_int_increasing) (use lt in simp_all)
    then have tl: "t < power_int 2 ?E" using T(2) by linarith
    have Eu: "power_int 2 ?E = 2 ^ 52 * u" unfolding u_def by (rule powi_shift) (use lt in simp_all)
    then have "m < 4503599627370497 * u" "4503599627370496 * u \<le> m" using tl half ab E(1) u by simp_all
    then have "(of_int k :: rat) < of_int 4503599627370497" "(of_int 4503599627370496 :: rat) \<le> of_int k"
      using u by (simp_all add: mk)
    then have k52: "k = 4503599627370496" by (simp only: of_int_less_iff of_int_le_iff)
    have "power_int (2 :: rat) (?E - 1) \<le> t"
    proof -
      have "power_int (2 :: rat) ?E = 2 ^ 1 * power_int 2 (?E - 1)" by (rule powi_shift) simp_all
      then show ?thesis using td E(1) ab by simp
    qed
    then have "?T = ?E - 1" using tl by (intro rlog_unique) simp_all
    then have fe: "f = e - 1" using False lt(2) unfolding f_def e_def by linarith
    have u2: "u = 2 ^ 1 * power_int 2 f" unfolding u_def by (rule powi_shift) (use fe in simp_all)
    then have v: "power_int 2 f = u / 2" by simp
    have "t / (u / 2) - of_int (2 * k) = (t - m) / (u / 2)" using u by (simp add: mk field_simps)
    then have "\<bar>t / (u / 2) - of_int (2 * k)\<bar> = D / (u / 2)" using u by (simp only: D_def abs_divide)
    also have "\<dots> < 1 / 2"
    proof -
      have "D * 4 < u" using td mk k52 u by simp
      then show ?thesis using u by (simp add: pos_divide_less_eq)
    qed
    finally have near: "\<bar>t / power_int 2 f - of_int (2 * k)\<bar> < 1 / 2" unfolding v .
    have kv: "of_int (2 * k) * power_int 2 f = m" by (simp only: v) (simp add: mk)
    have "round_fp 53 (-1074) 1024 neg t = Finite neg (of_int (2 * k) * power_int 2 f)"
      by (rule round_fp_value [OF t0 _ near]) (simp add: f_def, unfold kv, rule fin)
    then show ?thesis unfolding kv by (simp only: to_double_def)
  qed
qed


subsection \<open>What is printed is read back\<close>

definition num_char :: "char \<Rightarrow> bool" where
  "num_char c \<longleftrightarrow> isdigit c \<or> c \<in> {CHR ''+'', CHR ''-'', CHR ''.'', CHR ''e'', CHR ''E''}"

text \<open>A text that does not continue the number in front of it.\<close>

definition num_end :: "string \<Rightarrow> bool" where
  "num_end s \<longleftrightarrow> (case s of [] \<Rightarrow> True | c # _ \<Rightarrow> \<not> num_char c)"

lemma digits_span:
  assumes "\<forall>c \<in> set ds. isdigit c" "case r of [] \<Rightarrow> True | c # _ \<Rightarrow> \<not> isdigit c"
  shows "takeWhile isdigit (ds @ r) = ds" "dropWhile isdigit (ds @ r) = r"
  using assms by (cases r; simp)+

lemma not_digits [simp]:
  "\<not> isdigit (CHR ''.'')" "\<not> isdigit (CHR ''e'')" "\<not> isdigit (CHR ''E'')" "\<not> isdigit (CHR ''+'')" "\<not> isdigit (CHR ''-'')"
  by (simp_all add: isdigit_def)

lemma length_show_nat_ge: "10 ^ k \<le> n \<Longrightarrow> k < length (show_nat n)"
proof (induction n arbitrary: k rule: show_nat.induct)
  case (1 n)
  show ?case
  proof (cases k)
    case (Suc j)
    have ten: "10 \<le> n"
    proof -
      have "(10 :: nat) ^ 1 \<le> 10 ^ k" using Suc by (intro power_increasing) simp_all
      then show ?thesis using "1.prems" by simp
    qed
    then have "10 ^ j \<le> n div 10" using "1.prems" Suc by (simp add: less_eq_div_iff_mult_less_eq mult.commute)
    then have "j < length (show_nat (n div 10))" using "1.IH" ten by simp
    then show ?thesis using ten Suc by (subst show_nat.simps) simp
  qed (simp add: show_nat.simps [of n])
qed

lemma length_show_nat: "10 ^ (P - 1) \<le> n \<Longrightarrow> n < 10 ^ P \<Longrightarrow> 0 < P \<Longrightarrow> length (show_nat n) = P"
  using length_show_nat_ge [of "P - 1" n] length_show_nat_le [of n P] by simp

lemma strip_zeros_append: "\<exists>z. s = strip_zeros s @ replicate z (CHR ''0'')"
proof -
  let ?t = "takeWhile (\<lambda>c. c = CHR ''0'') (rev s)"
  have "?t = replicate (length ?t) (CHR ''0'')" by (rule replicate_length_same [symmetric]) (auto dest: set_takeWhileD)
  moreover have "s = strip_zeros s @ rev ?t" unfolding strip_zeros_def
    by (metis rev_append rev_rev_ident takeWhile_dropWhile_id)
  ultimately show ?thesis by (metis rev_replicate)
qed

lemma set_strip_zeros: "set (strip_zeros s) \<subseteq> set s"
  by (auto simp: strip_zeros_def dest: set_dropWhileD)

lemma dec_acc_zeros: "dec_acc a (replicate z (CHR ''0'')) = a * 10 ^ z"
  by (induction z arbitrary: a) (simp_all add: isdigit_def digit_val_def)

lemma decimal_strip:
  assumes "\<forall>c \<in> set (ip @ f). isdigit c"
  shows "decimal ip (strip_zeros f) ex = decimal ip f ex"
proof -
  obtain z where z: "f = strip_zeros f @ replicate z (CHR ''0'')" using strip_zeros_append by blast
  let ?s = "strip_zeros f"
  have d: "\<forall>c \<in> set (ip @ ?s). isdigit c" using assms set_strip_zeros [of f] by auto
  have "dec_acc 0 (ip @ f) = dec_acc 0 ((ip @ ?s) @ replicate z (CHR ''0''))" using z by simp
  also have "\<dots> = dec_acc 0 (ip @ ?s) * 10 ^ z" using d by (simp only: dec_acc_append dec_acc_zeros)
  finally have v: "dec_acc 0 (ip @ f) = dec_acc 0 (ip @ ?s) * 10 ^ z" .
  have "length f = length ?s + z" using arg_cong [OF z, of length] by simp
  then have "power_int (10 :: rat) (ex - int (length ?s)) = 10 ^ z * power_int 10 (ex - int (length f))"
    by (intro powi_shift) simp_all
  then show ?thesis by (simp add: decimal_def v)
qed

lemma read_exponent_end: "num_end r \<Longrightarrow> read_exponent r = (0, r)"
  by (cases r) (auto simp: read_exponent_def num_end_def num_char_def)

lemma read_exponent_show: "num_end r \<Longrightarrow> read_exponent (show_exponent x @ r) = (x, r)"
proof -
  assume r: "num_end r"
  obtain ds where ds: "show_exponent x = CHR ''e'' # (if x < 0 then CHR ''-'' else CHR ''+'') # ds"
    and d: "\<forall>c \<in> set ds. isdigit c" and v: "dec_acc 0 ds = \<bar>x\<bar>" and n: "ds \<noteq> []"
  proof
    let ?d = "(if nat \<bar>x\<bar> < 10 then [CHR ''0''] else []) @ show_nat (nat \<bar>x\<bar>)"
    show "show_exponent x = CHR ''e'' # (if x < 0 then CHR ''-'' else CHR ''+'') # ?d" by (simp add: show_exponent_def)
    show "\<forall>c \<in> set ?d. isdigit c" using show_nat_digits by (auto simp: isdigit_def)
    show "dec_acc 0 ?d = \<bar>x\<bar>" by (simp add: dec_acc_show_nat isdigit_def digit_val_def)
  qed simp
  have e: "case r of [] \<Rightarrow> True | c # _ \<Rightarrow> \<not> isdigit c" using r by (auto simp: num_end_def num_char_def split: list.splits)
  show ?thesis
    unfolding ds read_exponent_def using digits_span [OF d e] v n by (simp add: read_sign_def)
qed

lemma read_fraction_pointed:
  assumes "\<forall>c \<in> set ip. isdigit c" "\<forall>c \<in> set fp. isdigit c" "case r of [] \<Rightarrow> True | c # _ \<Rightarrow> \<not> isdigit c \<and> c \<noteq> CHR ''.''"
  shows "takeWhile isdigit (pointed ip fp @ r) = ip" "read_fraction (dropWhile isdigit (pointed ip fp @ r)) = (fp, r)"
proof -
  have e: "case r of [] \<Rightarrow> True | c # _ \<Rightarrow> \<not> isdigit c" using assms(3) by (auto split: list.splits)
  have e': "case (CHR ''.'' # fp @ r) of [] \<Rightarrow> True | c # _ \<Rightarrow> \<not> isdigit c" by simp
  show "takeWhile isdigit (pointed ip fp @ r) = ip"
    using digits_span [OF assms(1) e] digits_span [OF assms(1) e'] by (simp add: pointed_def)
  show "read_fraction (dropWhile isdigit (pointed ip fp @ r)) = (fp, r)"
    using digits_span [OF assms(1) e] digits_span [OF assms(1) e'] digits_span [OF assms(2) e] assms(3)
    by (auto simp: pointed_def read_fraction_def split: list.splits)
qed

definition sign_text :: "bool \<Rightarrow> string" where
  "sign_text neg = (if neg then ''-'' else [])"

lemma strtod_pointed:
  assumes "ip \<noteq> []" "\<forall>c \<in> set ip. isdigit c" "\<forall>c \<in> set fp. isdigit c"
    "case r of [] \<Rightarrow> True | c # _ \<Rightarrow> \<not> isdigit c \<and> c \<noteq> CHR ''.''"
  shows "strtod (sign_text neg @ pointed ip fp @ r)
     = (case read_exponent r of (ex, v) \<Rightarrow> Some (to_double neg (decimal ip fp ex), v))"
proof -
  have "\<exists>c cs. pointed ip fp @ r = c # cs \<and> isdigit c"
    using assms(1,2) by (cases ip) (auto simp: pointed_def)
  then have "read_sign (sign_text neg @ pointed ip fp @ r) = (neg, pointed ip fp @ r)"
    by (auto simp: read_sign_def sign_text_def dest: isdigit_not_special)
  then show ?thesis
    using read_fraction_pointed [OF assms(2-4)] assms(1) by (simp add: strtod_def split: prod.split)
qed

lemma strtod_layout:
  assumes "10 ^ (P - 1) \<le> d" "d < 10 ^ P" "0 < P" "num_end r"
  shows "strtod (sign_text neg @ g_layout P d x @ r) = Some (to_double neg (of_nat d * power_int 10 (x - int P + 1)), r)"
proof -
  let ?ds = "show_nat d"
  have l: "length ?ds = P" using length_show_nat assms by blast
  have ds: "\<forall>c \<in> set ?ds. isdigit c" using show_nat_digits by blast
  have v: "dec_acc 0 ?ds = int d" by (rule dec_acc_show_nat)
  have r: "case r of [] \<Rightarrow> True | c # _ \<Rightarrow> \<not> isdigit c \<and> c \<noteq> CHR ''.''"
    using assms(4) by (auto simp: num_end_def num_char_def split: list.splits)
  have sub: "\<forall>c \<in> set (take n ?ds). isdigit c" "\<forall>c \<in> set (drop n ?ds). isdigit c" "\<forall>c \<in> set (strip_zeros (drop n ?ds)). isdigit c" for n
    using ds set_take_subset set_drop_subset set_strip_zeros by fast+
  have dec: "decimal (take n ?ds) (strip_zeros (drop n ?ds)) ex = of_nat d * power_int 10 (ex - int (P - n))" for n ex
  proof -
    have "decimal (take n ?ds) (strip_zeros (drop n ?ds)) ex = decimal (take n ?ds) (drop n ?ds) ex"
      by (rule decimal_strip) (use ds in simp)
    then show ?thesis by (simp add: decimal_def v l)
  qed
  consider (sci) "x < -4 \<or> int P \<le> x" | (fixed) "0 \<le> x" "x < int P" | (small) "-4 \<le> x" "x < 0" by linarith
  then show ?thesis
  proof cases
    case sci
    have e: "case show_exponent x @ r of [] \<Rightarrow> True | c # _ \<Rightarrow> \<not> isdigit c \<and> c \<noteq> CHR ''.''"
      by (simp add: show_exponent_def)
    have "take 1 ?ds \<noteq> []" using l assms(3) by auto
    note st = strtod_pointed [OF this sub(1) sub(3) e, of neg 1]
    have "x - int (P - 1) = x - int P + 1" using assms(3) by simp
    then have "decimal (take 1 ?ds) (strip_zeros (drop 1 ?ds)) x = of_nat d * power_int 10 (x - int P + 1)" by (simp only: dec)
    then show ?thesis using st sci by (simp add: g_layout_def read_exponent_show [OF assms(4)] Let_def)
  next
    case fixed
    have "take (nat x + 1) ?ds \<noteq> []" using l assms(3) by auto
    note st = strtod_pointed [OF this sub(1) sub(3) r, of neg "nat x + 1"]
    have "0 - int (P - (nat x + 1)) = x - int P + 1" using fixed by (simp add: of_nat_diff)
    then have "decimal (take (nat x + 1) ?ds) (strip_zeros (drop (nat x + 1) ?ds)) 0 = of_nat d * power_int 10 (x - int P + 1)"
      by (simp only: dec)
    then show ?thesis using st fixed by (simp add: g_layout_def read_exponent_end [OF assms(4)] Let_def)
  next
    case small
    let ?f = "replicate (nat (- x) - 1) (CHR ''0'') @ ?ds"
    have z: "isdigit (CHR ''0'')" by (simp add: isdigit_def)
    then have f: "\<forall>c \<in> set ?f. isdigit c" "\<forall>c \<in> set (strip_zeros ?f). isdigit c" using ds set_strip_zeros [of ?f] by auto
    have "decimal ''0'' (strip_zeros ?f) 0 = decimal ''0'' ?f 0" by (rule decimal_strip) (use f z in simp)
    also have "\<dots> = of_nat d * power_int 10 (x - int P + 1)"
    proof -
      have "dec_acc 0 (''0'' @ ?f) = int d"
        using z by (simp add: dec_acc_append dec_acc_zeros v digit_val_def)
      then show ?thesis using small by (simp add: decimal_def l algebra_simps)
    qed
    finally have "decimal ''0'' (strip_zeros ?f) 0 = of_nat d * power_int 10 (x - int P + 1)" .
    then show ?thesis using strtod_pointed [of "''0''" "strip_zeros ?f" r neg] small z f r
      by (simp add: g_layout_def read_exponent_end [OF assms(4)])
  qed
qed


lemma strtod_zero: "num_end r \<Longrightarrow> strtod (sign_text neg @ ''0'' @ r) = Some (Finite neg 0, r)"
proof -
  assume r: "num_end r"
  then have e: "case r of [] \<Rightarrow> True | c # _ \<Rightarrow> \<not> isdigit c \<and> c \<noteq> CHR ''.''"
    by (auto simp: num_end_def num_char_def split: list.splits)
  have "isdigit (CHR ''0'')" by (simp add: isdigit_def)
  then show ?thesis
    using strtod_pointed [of "''0''" "[]" r neg] e
    by (simp add: pointed_def read_exponent_end [OF r] decimal_def digit_val_def to_double_def round_fp_def)
qed

lemma sprintf_g_Fin:
  "sprintf_g P (Finite neg m) = sign_text neg @ (if m = 0 then ''0'' else case g_digits P m of (d, x) \<Rightarrow> g_layout P d x)"
  by (simp add: sprintf_g_def sign_text_def)

text \<open>Every printed number is consumed as a whole, and at 17 digits it is the number printed.\<close>

lemma strtod_sprintf_g:
  assumes "0 \<le> m" "0 < P" "num_end r"
  shows "\<exists>w. strtod (sprintf_g P (Finite neg m) @ r) = Some (w, r)"
proof (cases "m = 0")
  case False
  obtain d x where g: "g_digits P m = (d, x)" by force
  show ?thesis
    using strtod_layout [of P d r neg x] g_digits_spec [OF _ assms(2) g] False assms
    by (simp add: sprintf_g_Fin g)
qed (use strtod_zero [OF assms(3)] in \<open>simp add: sprintf_g_Fin\<close>)

lemma strtod_sprintf_17:
  assumes "double_ok (Finite neg m)" "num_end r"
  shows "strtod (sprintf_g 17 (Finite neg m) @ r) = Some (Finite neg m, r)"
proof (cases "m = 0")
  case False
  then have m: "0 < m" "to_double neg m = Finite neg m" using assms(1) by (simp_all add: double_ok_def)
  obtain d x where g: "g_digits 17 m = (d, x)" by force
  note s = g_digits_spec [OF m(1) _ g, simplified]
  have "rlog 10 m - int 17 + 1 = rlog 10 m - 16" by simp
  then have "to_double neg (of_nat d * power_int 10 (x - int 17 + 1)) = Finite neg m"
    using s by (intro to_double_near [OF m]) simp
  then show ?thesis using strtod_layout [of 17 d r neg x] s assms(2) False by (simp add: sprintf_g_Fin g)
qed (use strtod_zero [OF assms(2)] in \<open>simp add: sprintf_g_Fin\<close>)

lemma sprintf_g_num_chars:
  assumes "0 \<le> m" "0 < P"
  shows "\<forall>c \<in> set (sprintf_g P (Finite neg m)). num_char c"
proof -
  have p: "\<forall>c \<in> set ip. isdigit c \<Longrightarrow> \<forall>c \<in> set fp. isdigit c \<Longrightarrow> \<forall>c \<in> set (pointed ip fp). num_char c" for ip fp
    by (auto simp: pointed_def num_char_def)
  have d: "\<forall>c \<in> set (take n (show_nat k)). isdigit c" "\<forall>c \<in> set (strip_zeros (drop n (show_nat k))). isdigit c" for n k
    using show_nat_digits set_take_subset set_drop_subset set_strip_zeros by fast+
  have z: "isdigit (CHR ''0'')" by (simp add: isdigit_def)
  have e: "\<forall>c \<in> set (show_exponent x). num_char c" for x
    using show_nat_digits z by (auto simp: show_exponent_def num_char_def)
  have s: "\<forall>c \<in> set (strip_zeros (replicate n (CHR ''0'') @ show_nat k)). isdigit c" for n k
    using set_strip_zeros [of "replicate n (CHR ''0'') @ show_nat k"] show_nat_digits z by auto
  have "\<forall>c \<in> set (g_layout P k x). num_char c" for k x
    using p [OF d] e p [of "''0''", OF _ s] z by (auto simp: g_layout_def Let_def)
  then show ?thesis using z by (auto simp: sprintf_g_Fin sign_text_def num_char_def split: prod.splits)
qed

subsection \<open>Representable numbers\<close>

text \<open>A magnitude of at most \<open>p\<close> bits in the format's range is left alone.\<close>

lemma round_fp_exact:
  assumes "0 \<le> k" "k \<le> 2 ^ p" "emin \<le> e" "0 < p" "of_int k * power_int 2 e < (2 :: rat) ^ emax"
  shows "round_fp p emin emax neg (of_int k * power_int 2 e) = Finite neg (of_int k * power_int 2 e)"
proof (cases "k = 0")
  case False
  let ?m = "of_int k * power_int (2 :: rat) e" and ?f = "\<lambda>m. max emin (rlog 2 m - (int p - 1))"
  have m: "0 < ?m" using False assms(1) by simp
  have r: "power_int 2 (rlog 2 ?m) \<le> ?m" "?m < power_int 2 (rlog 2 ?m + 1)" using rlog_bounds [of 2 ?m] m by simp_all
  have "\<exists>j. ?m = of_int j * power_int 2 (?f ?m)"
  proof (cases "k = 2 ^ p")
    case True
    have pm: "power_int 2 (e + int p) = ?m" using powi_shift [of 2 "e + int p" p e] True by simp
    moreover have "power_int 2 (e + int p) < power_int (2 :: rat) (e + int p + 1)" by (rule power_int_strict_increasing) simp_all
    ultimately have "power_int (of_nat 2) (e + int p) \<le> ?m" "?m < power_int (of_nat 2) (e + int p + 1)" by simp_all
    then have "rlog 2 ?m = e + int p" by (rule rlog_unique [rotated]) simp
    then have f: "?f ?m = e + 1" using assms(3) by simp
    have "?m = of_int (2 ^ (p - 1)) * power_int 2 (e + 1)"
      using True assms(4) by (cases p) (simp_all add: power_int_add)
    then show ?thesis unfolding f by blast
  next
    case False
    then have "k < 2 ^ p" using assms(2) by simp
    then have "of_int k < (of_int (2 ^ p) :: rat)" by (simp only: of_int_less_iff)
    then have "?m < 2 ^ p * power_int 2 e" by simp
    also have "\<dots> = power_int 2 (e + int p)" using powi_shift [of 2 "e + int p" p e] by simp
    finally have "power_int 2 (rlog 2 ?m) < power_int (2 :: rat) (e + int p)" using r(1) by linarith
    then have "rlog 2 ?m < e + int p" by (subst (asm) power_int_less_exp) simp_all
    then have "?f ?m \<le> e" using assms(3) by simp
    then obtain n where n: "e = int n + ?f ?m" by (metis add.commute add_diff_cancel_left' diff_ge_0_iff_ge nonneg_int_cases diff_add_cancel)
    have "power_int 2 e = 2 ^ n * power_int (2 :: rat) (?f ?m)" by (rule powi_shift [OF _ n]) simp
    then have "?m = of_int (k * 2 ^ n) * power_int 2 (?f ?m)" by simp
    then show ?thesis by blast
  qed
  then obtain j where j: "?m = of_int j * power_int 2 (?f ?m)" by blast
  have "\<bar>?m / power_int 2 (?f ?m) - of_int j\<bar> < 1 / 2" by (subst (1) j) simp
  then have "round_fp p emin emax neg ?m = Finite neg (of_int j * power_int 2 (?f ?m))"
    by (intro round_fp_value [OF m refl]) (use j assms(5) in simp_all)
  then show ?thesis using j by simp
qed (simp add: round_fp_def)

lemma round_fp_Fin:
  assumes "round_fp p emin emax neg m = Finite neg' v" "0 \<le> m" "0 < p"
  shows "neg' = neg \<and> 0 \<le> v \<and> v < 2 ^ emax \<and> (\<exists>k e. 0 \<le> k \<and> k \<le> 2 ^ p \<and> emin \<le> e \<and> v = of_int k * power_int 2 e)"
proof (cases "m = 0")
  case False
  let ?e = "max emin (rlog 2 m - (int p - 1))" and ?k = "round_even (m / power_int 2 (max emin (rlog 2 m - (int p - 1))))"
  have v: "neg' = neg" "v = of_int ?k * power_int 2 ?e" "v < 2 ^ emax"
    using assms(1) False by (auto simp: round_fp_def Let_def split: if_splits)
  have "0 \<le> ?k" using assms(2) by (intro round_even_ge) simp
  moreover have "?k \<le> 2 ^ p"
  proof (rule round_even_le)
    have "m < power_int 2 (rlog 2 m + 1)" using rlog_bounds [of 2 m] False assms(2) by simp
    also have "\<dots> \<le> power_int 2 (?e + int p)" by (rule power_int_increasing) simp_all
    also have "\<dots> = 2 ^ p * power_int 2 ?e" by (rule powi_shift) simp_all
    finally show "m / power_int 2 ?e \<le> of_int (2 ^ p)" by (simp add: pos_divide_le_eq)
  qed
  ultimately show ?thesis using v by (intro conjI exI [of _ ?k] exI [of _ ?e]) simp_all
qed (use assms in \<open>auto simp: round_fp_def intro!: exI [of _ 0] exI [of _ emin]\<close>)

lemma to_double_ok: "0 \<le> m \<Longrightarrow> to_double neg m = Finite neg' v \<Longrightarrow> double_ok (Finite neg' v)"
proof -
  assume a: "0 \<le> m" "to_double neg m = Finite neg' v"
  from round_fp_Fin [OF a(2) [unfolded to_double_def] a(1)] obtain k e
    where k: "neg' = neg" "0 \<le> v" "v < 2 ^ 1024" "0 \<le> k" "k \<le> 2 ^ 53" "-1074 \<le> e" "v = of_int k * power_int 2 e" by auto
  then show ?thesis using round_fp_exact [of k 53 "-1074" e 1024 neg] by (simp add: double_ok_def to_double_def)
qed

lemma to_float_ok: "0 \<le> m \<Longrightarrow> to_float neg m = Finite neg' v \<Longrightarrow> double_ok (Finite neg' v)"
proof -
  assume a: "0 \<le> m" "to_float neg m = Finite neg' v"
  from round_fp_Fin [OF a(2) [unfolded to_float_def] a(1)] obtain k e
    where k: "neg' = neg" "0 \<le> v" "v < 2 ^ 128" "0 \<le> k" "k \<le> 2 ^ 24" "-149 \<le> e" "v = of_int k * power_int 2 e" by auto
  have "(2 :: rat) ^ 128 \<le> 2 ^ 1024" by simp
  then have "of_int k * power_int 2 e < (2 :: rat) ^ 1024" using k(3,7) by linarith
  then show ?thesis using k round_fp_exact [of k 53 "-1074" e 1024 neg] by (simp add: double_ok_def to_double_def)
qed

subsection \<open>How long the text of a number is\<close>

lemma double_range:
  assumes "0 < m" "to_double neg m = Finite neg m"
  shows "power_int 2 (-1074) \<le> m \<and> m < 2 ^ 1024"
proof -
  define e where "e = max (-1074) (rlog 2 m - 52)"
  define k where "k = round_even (m / power_int 2 e)"
  have m: "m = of_int k * power_int 2 e" "m < 2 ^ 1024"
    using assms by (auto simp: to_double_def round_fp_def Let_def e_def [symmetric] k_def [symmetric] split: if_splits)
  have u: "0 < power_int (2 :: rat) e" by simp
  have "0 < (of_int k :: rat)" using assms(1) m(1) u by (metis zero_less_mult_pos2)
  then have "1 \<le> k" by simp
  then have "(1 :: rat) \<le> of_int k" by simp
  then have "1 * power_int 2 e \<le> m" unfolding m(1) using u by (intro mult_right_mono) simp_all
  moreover have "power_int (2 :: rat) (-1074) \<le> power_int 2 e" by (rule power_int_increasing) (simp_all add: e_def)
  ultimately show ?thesis using m(2) by simp
qed

lemma double_exponent:
  assumes "0 < m" "to_double neg m = Finite neg m"
  shows "- 324 \<le> rlog 10 m \<and> rlog 10 m \<le> 308"
proof -
  note b = double_range [OF assms] and r = rlog_bounds [of 10 m, simplified]
  have c: "power_int (10 :: rat) (-324) \<le> power_int 2 (-1074)" "(2 :: rat) ^ 1024 \<le> power_int 10 309"
    by (simp_all add: power_int_minus)
  have "power_int 10 (-324) < power_int (10 :: rat) (rlog 10 m + 1)" "power_int (10 :: rat) (rlog 10 m) < power_int 10 309"
    using b c r assms(1) by linarith+
  moreover have p: "power_int (10 :: rat) i < power_int 10 j \<longleftrightarrow> i < j" for i j by (rule power_int_less_exp) simp
  ultimately show ?thesis unfolding p by linarith
qed

lemma length_strip_zeros: "length (strip_zeros s) \<le> length s"
  by (simp add: strip_zeros_def length_dropWhile_le [of _ "rev s", simplified])

lemma length_pointed: "length (pointed ip fp) \<le> length ip + length fp + 1"
  by (simp add: pointed_def)

lemma length_show_exponent: "\<bar>x\<bar> < 1000 \<Longrightarrow> length (show_exponent x) \<le> 5"
  using length_show_nat_le [of "nat \<bar>x\<bar>" 3] length_show_nat_le [of "nat \<bar>x\<bar>" 1] by (auto simp: show_exponent_def)

lemma length_g_layout:
  assumes "length (show_nat d) = P" "0 < P" "\<bar>x\<bar> < 1000"
  shows "length (g_layout P d x) \<le> P + 6"
proof -
  have t: "length (pointed (take n (show_nat d)) (strip_zeros (drop n (show_nat d)))) \<le> P + 1" for n
    using length_pointed [of "take n (show_nat d)" "strip_zeros (drop n (show_nat d))"] length_strip_zeros [of "drop n (show_nat d)"] assms(1)
    by simp
  let ?f = "replicate (nat (- x) - 1) (CHR ''0'') @ show_nat d"
  have "length (pointed ''0'' (strip_zeros ?f)) \<le> P + 6" if "- 4 \<le> x"
  proof -
    have "length (strip_zeros ?f) \<le> nat (- x) - 1 + P" using length_strip_zeros [of ?f] assms(1) by simp
    moreover have "nat (- x) - 1 \<le> 3" using that by simp
    moreover have "length (pointed ''0'' (strip_zeros ?f)) \<le> 1 + length (strip_zeros ?f) + 1"
      using length_pointed [of "''0''" "strip_zeros ?f"] by simp
    ultimately show ?thesis by linarith
  qed
  then show ?thesis
    using t [of 1] t [of "nat x + 1"] length_show_exponent [OF assms(3)] by (auto simp: g_layout_def Let_def)
qed

text \<open>\<open>sprintf\<close> writes unchecked into \<open>number_buffer[26]\<close>; no double is printed longer than that.\<close>

lemma length_sprintf_g:
  assumes "double_ok v" "0 < P" "P \<le> 17"
  shows "length (sprintf_g P v) \<le> 24"
proof -
  obtain neg m where v: "v = Finite neg m" "0 \<le> m" "to_double neg m = Finite neg m"
    using assms(1) by (auto simp: double_ok_def split: dbl.splits)
  show ?thesis
  proof (cases "m = 0")
    case False
    obtain d x where g: "g_digits P m = (d, x)" by force
    have m: "0 < m" using False v(2) by simp
    note s = g_digits_spec [OF m assms(2) g] and e = double_exponent [OF m v(3)]
    have "x = rlog 10 m \<or> x = rlog 10 m + 1" using g by (auto simp: g_digits_def Let_def split: if_splits)
    then have "\<bar>x\<bar> < 1000" using e by auto
    moreover have "length (show_nat d) = P" using length_show_nat s assms(2) by blast
    ultimately have "length (g_layout P d x) \<le> P + 6" using length_g_layout assms(2) by blast
    then show ?thesis using False assms(3) by (simp add: v(1) sprintf_g_Fin g sign_text_def)
  qed (simp add: v(1) sprintf_g_Fin sign_text_def)
qed

end
