(* ===== verification/Json.thy ===== *)
theory Json
  imports Double
begin

text \<open>
  The tree of the JSON library \<open>cJSON.c\<close> and the reads that the handlers make of it: the lookup of a
  member by name, which ignores case, and the type tests.  A string is the C string its
  \<open>valuestring\<close> points at.  A number keeps its \<open>double\<close>; \<open>valueint\<close> is the saturated integer the
  library derives from it, \<open>None\<close> where C does not define the conversion.
\<close>

datatype json =
    JNull
  | JBool bool
  | JNumber dbl
  | JString string
  | JArray "json list"
  | JObject "(string \<times> json) list"

definition valueint :: "dbl \<Rightarrow> int option" where
  "valueint v =
     (case v of NaN \<Rightarrow> None
      | Infinite neg \<Rightarrow> Some (if neg then int_min else int_max)
      | Finite neg m \<Rightarrow>
          (let q = (if neg then - m else m)
           in Some (if q \<ge> of_int int_max then int_max
                    else if q \<le> of_int int_min then int_min
                    else if q < 0 then \<lceil>q\<rceil> else \<lfloor>q\<rfloor>)))"

primrec get_object_item :: "(string \<times> json) list \<Rightarrow> string \<Rightarrow> json option" where
  "get_object_item [] name = None"
| "get_object_item (m # ms) name = (if strcaseeq name (fst m) then Some (snd m) else get_object_item ms name)"

definition cJSON_GetObjectItem :: "json \<Rightarrow> string \<Rightarrow> json option" where
  "cJSON_GetObjectItem j name = (case j of JObject ms \<Rightarrow> get_object_item ms name | _ \<Rightarrow> None)"

definition json_string :: "json option \<Rightarrow> string option" where
  "json_string j = (case j of Some (JString s) \<Rightarrow> Some s | _ \<Rightarrow> None)"

definition json_number :: "json option \<Rightarrow> int option" where
  "json_number j = (case j of Some (JNumber v) \<Rightarrow> valueint v | _ \<Rightarrow> None)"

text \<open>Building a tree: a member goes to the end of its object.  A number's \<open>valueint\<close> follows from its \<open>double\<close>.\<close>

definition cJSON_CreateObject :: json where
  "cJSON_CreateObject = JObject []"

definition cJSON_CreateNumber :: "dbl \<Rightarrow> json" where
  "cJSON_CreateNumber v = JNumber v"

definition cJSON_AddItemToObject :: "json \<Rightarrow> string \<Rightarrow> json \<Rightarrow> json" where
  "cJSON_AddItemToObject obj name item = (case obj of JObject ms \<Rightarrow> JObject (ms @ [(name, item)]) | _ \<Rightarrow> obj)"

abbreviation cJSON_AddNumberToObject :: "json \<Rightarrow> string \<Rightarrow> dbl \<Rightarrow> json" where
  "cJSON_AddNumberToObject obj name v \<equiv> cJSON_AddItemToObject obj name (cJSON_CreateNumber v)"

lemma valueint_range: "valueint v = Some i \<Longrightarrow> int_min \<le> i \<and> i \<le> int_max"
proof -
  have "q < of_int int_max \<Longrightarrow> \<lfloor>q\<rfloor> \<le> int_max" "of_int int_min < q \<Longrightarrow> int_min \<le> \<lfloor>q\<rfloor>" for q :: rat
    by (simp_all add: floor_le_iff le_floor_iff)
  moreover have "q < of_int int_max \<Longrightarrow> \<lceil>q\<rceil> \<le> int_max" "of_int int_min < q \<Longrightarrow> int_min \<le> \<lceil>q\<rceil>" for q :: rat
    by (simp_all add: ceiling_le_iff le_ceiling_iff)
  ultimately show "valueint v = Some i \<Longrightarrow> int_min \<le> i \<and> i \<le> int_max"
    by (auto simp: valueint_def Let_def not_le int_min_def int_max_def split: dbl.splits)
qed

lemma valueint_of_nat: "int n \<le> int_max \<Longrightarrow> valueint (Finite False (of_nat n)) = Some (int n)"
  by (auto simp: valueint_def int_min_def int_max_def)

text \<open>Array and object depth, which the parser limits.\<close>

fun nesting :: "json \<Rightarrow> nat" where
  "nesting (JArray js) = Suc (foldr max (map nesting js) 0)"
| "nesting (JObject ms) = Suc (foldr max (map (\<lambda>m. nesting (snd m)) ms) 0)"
| "nesting JNull = 0"
| "nesting (JBool b) = 0"
| "nesting (JNumber v) = 0"
| "nesting (JString s) = 0"

lemma foldr_max_le: "foldr max ns 0 \<le> (k :: nat) \<longleftrightarrow> (\<forall>n \<in> set ns. n \<le> k)"
  by (induction ns) auto

end
