(* ===== verification/JsonString.thy ===== *)
theory JsonString
  imports Json
begin

unbundle bit_operations_syntax

text \<open>
  String literals of \<open>cJSON.c\<close>: the first pass that finds the closing quote and sizes the output buffer,
  the second pass that decodes the escapes into it, and the proof that the second pass stays inside.
\<close>

subsection \<open>Strings\<close>

definition hex_digit :: "char \<Rightarrow> 32 word option" where
  "hex_digit c =
     (let n = (of_char c :: nat) in
      if 48 \<le> n \<and> n \<le> 57 then Some (of_nat (n - 48))
      else if 65 \<le> n \<and> n \<le> 70 then Some (of_nat (10 + n - 65))
      else if 97 \<le> n \<and> n \<le> 102 then Some (of_nat (10 + n - 97))
      else None)"

fun hex4_loop :: "string \<Rightarrow> 32 word \<Rightarrow> 32 word" where
  "hex4_loop [] h = h"
| "hex4_loop (c # cs) h =
     (case hex_digit c of None \<Rightarrow> 0
      | Some v \<Rightarrow> hex4_loop cs (if cs = [] then h + v else push_bit 4 (h + v)))"

definition parse_hex4 :: "string \<Rightarrow> 32 word" where
  "parse_hex4 s = hex4_loop (take 4 s) 0"

text \<open>The bytes of a code point: \<open>k\<close> continuation bytes, written from the last one back, then the first.\<close>

fun utf8_loop :: "nat \<Rightarrow> 32 word \<Rightarrow> 32 word \<times> string" where
  "utf8_loop 0 cp = (cp, [])"
| "utf8_loop (Suc k) cp =
     (let (c, front) = utf8_loop k (drop_bit 6 cp) in (c, front @ [char_of (unat ((cp OR 0x80) AND 0xBF))]))"

definition utf8_bytes :: "nat \<Rightarrow> 32 word \<Rightarrow> 32 word \<Rightarrow> string" where
  "utf8_bytes len mark cp =
     (let (c, tail) = utf8_loop (len - 1) cp
      in char_of (unat (if 1 < len then (c OR mark) AND 0xFF else c AND 0x7F)) # tail)"

definition utf8_encode :: "32 word \<Rightarrow> string option" where
  "utf8_encode cp =
     (if cp < 0x80 then Some (utf8_bytes 1 0 cp)
      else if cp < 0x800 then Some (utf8_bytes 2 0xC0 cp)
      else if cp < 0x10000 then Some (utf8_bytes 3 0xE0 cp)
      else if cp \<le> 0x10FFFF then Some (utf8_bytes 4 0xF0 cp)
      else None)"

text \<open>\<open>s\<close> is the text from the backslash to the end of the literal; the bytes and how many it takes.\<close>

definition utf16_literal_to_utf8 :: "string \<Rightarrow> (string \<times> nat) option" where
  "utf16_literal_to_utf8 s =
     (if length s < 6 then None
      else let first = parse_hex4 (drop 2 s) in
        if 0xDC00 \<le> first \<and> first \<le> 0xDFFF then None
        else if 0xD800 \<le> first \<and> first \<le> 0xDBFF
        then (let s2 = drop 6 s in
              if length s2 < 6 then None
              else if s2 ! 0 \<noteq> CHR 0x5C \<or> s2 ! 1 \<noteq> CHR ''u'' then None
              else let second = parse_hex4 (drop 2 s2) in
                if second < 0xDC00 \<or> 0xDFFF < second then None
                else map_option (\<lambda>b. (b, 12))
                       (utf8_encode (0x10000 + (push_bit 10 (first AND 0x3FF) OR (second AND 0x3FF)))))
        else map_option (\<lambda>b. (b, 6)) (utf8_encode first))"

lemma utf16_progress: "utf16_literal_to_utf8 s = Some (b, k) \<Longrightarrow> 6 \<le> k"
  by (auto simp: utf16_literal_to_utf8_def Let_def split: if_splits)

text \<open>The first pass: the length of the literal up to its closing quote, and the backslashes skipped.\<close>

fun scan_literal :: "string \<Rightarrow> (nat \<times> nat) option" where
  "scan_literal [] = None"
| "scan_literal [c] = (if c = CHR 0x22 then Some (0, 0) else None)"
| "scan_literal (c # d # r) =
     (if c = CHR 0x22 then Some (0, 0)
      else if c = CHR 0x5C then map_option (\<lambda>(n, k). (n + 2, k + 1)) (scan_literal r)
      else map_option (\<lambda>(n, k). (n + 1, k)) (scan_literal (d # r)))"

definition escape_char :: "char \<Rightarrow> char option" where
  "escape_char c =
     (if c = CHR ''b'' then Some (CHR 0x08) else if c = CHR ''f'' then Some (CHR 0x0C)
      else if c = CHR ''n'' then Some (CHR 0x0A) else if c = CHR ''r'' then Some (CHR 0x0D)
      else if c = CHR ''t'' then Some (CHR 0x09)
      else if c \<in> {CHR 0x22, CHR 0x5C, CHR ''/''} then Some c else None)"

text \<open>
  The second pass, over \<open>n\<close> characters of the literal: the bytes written to the output and whether it
  succeeded.  An escape at the literal's last character takes the closing quote behind it with it, which
  ends the loop.
\<close>

function unescape :: "nat \<Rightarrow> string \<Rightarrow> string \<times> bool" where
  "unescape n t =
     (if n = 0 then ([], True)
      else case t of [] \<Rightarrow> ([], False)
      | c # r \<Rightarrow>
          if c \<noteq> CHR 0x5C then (let (w, ok) = unescape (n - 1) r in (c # w, ok))
          else case r of [] \<Rightarrow> ([], False)
            | d # r' \<Rightarrow>
                if d = CHR ''u''
                then (case utf16_literal_to_utf8 (take n t) of None \<Rightarrow> ([], False)
                      | Some (b, k) \<Rightarrow> (let (w, ok) = unescape (n - k) (drop k t) in (b @ w, ok)))
                else (case escape_char d of None \<Rightarrow> ([], False)
                      | Some e \<Rightarrow> (let (w, ok) = unescape (n - 2) r' in (e # w, ok))))"
  by pat_completeness auto

termination unescape
  by (relation "measure fst") (auto dest: utf16_progress)

declare unescape.simps [simp del]

definition parse_string :: "string \<Rightarrow> (string \<times> string) option" where
  "parse_string s =
     (case s of [] \<Rightarrow> None
      | c # t \<Rightarrow>
          if c \<noteq> CHR 0x22 then None
          else case scan_literal t of None \<Rightarrow> None
            | Some (n, _) \<Rightarrow>
                (case unescape n t of (w, ok) \<Rightarrow> if ok then Some (cstr w, drop (Suc n) t) else None))"

subsection \<open>The output buffer of a string literal\<close>

lemma scan_pairs: "scan_literal t = Some (n, k) \<Longrightarrow> 2 * k \<le> n \<and> n < length t"
  by (induction t arbitrary: n k rule: scan_literal.induct) (force split: if_splits)+

text \<open>Where the second pass can be in the pairs of the first: in front of one, or between its two characters.\<close>

lemma scan_drop:
  "scan_literal t = Some (n, k) \<Longrightarrow> i \<le> n \<Longrightarrow>
     (\<exists>k1. 2 * k1 \<le> i \<and> k1 \<le> k \<and> scan_literal (drop i t) = Some (n - i, k - k1))
   \<or> (\<exists>k1 x r. 2 * k1 + 1 \<le> i \<and> k1 + 1 \<le> k \<and> i < n \<and> drop i t = x # r \<and> scan_literal r = Some (n - i - 1, k - k1 - 1))"
proof (induction t arbitrary: n k i rule: scan_literal.induct)
  case (3 c d r)
  consider "i = 0" | "c = CHR 0x22" | "c = CHR 0x5C" "i = 1" | j where "c = CHR 0x5C" "i = j + 2"
    | j where "c \<noteq> CHR 0x22" "c \<noteq> CHR 0x5C" "i = j + 1"
    by (metis One_nat_def Suc_eq_plus1 add_2_eq_Suc' not0_implies_Suc)
  then show ?case
  proof cases
    case 1
    then show ?thesis using "3.prems" by (intro disjI1 exI [of _ 0]) simp
  next
    case 2
    then show ?thesis using "3.prems" by simp
  next
    case 3
    then show ?thesis using "3.prems" by (intro disjI2 exI [of _ 0]) auto
  next
    case (4 j)
    then obtain n' k' where s: "scan_literal r = Some (n', k')" "n = n' + 2" "k = k' + 1" using "3.prems"(1) by auto
    have "j \<le> n'" using s(2) 4(2) "3.prems"(2) by simp
    moreover have "c \<noteq> CHR 0x22" using 4(1) by simp
    note "3.IH"(1) [OF this 4(1) s(1)]
    ultimately have "(\<exists>k1. 2 * k1 \<le> j \<and> k1 \<le> k' \<and> scan_literal (drop j r) = Some (n' - j, k' - k1))
      \<or> (\<exists>k1 x u. 2 * k1 + 1 \<le> j \<and> k1 + 1 \<le> k' \<and> j < n' \<and> drop j r = x # u \<and> scan_literal u = Some (n' - j - 1, k' - k1 - 1))"
      by blast
    then show ?thesis
    proof (elim disjE exE conjE, goal_cases)
      case (1 k1)
      then show ?case using s 4 by (intro disjI1 exI [of _ "Suc k1"]) simp
    next
      case (2 k1 x u)
      then show ?case using s 4 by (intro disjI2 exI [of _ "Suc k1"]) simp
    qed
  next
    case (5 j)
    then obtain n' where s: "scan_literal (d # r) = Some (n', k)" "n = n' + 1" using "3.prems"(1) by auto
    have "j \<le> n'" using s(2) 5(3) "3.prems"(2) by simp
    from "3.IH"(2) [OF 5(1,2) s(1) this] 5 show ?thesis
    proof (elim disjE exE conjE, goal_cases)
      case (1 k1)
      then show ?case using s 5 by (intro disjI1 exI [of _ k1]) simp
    next
      case (2 k1 x u)
      then show ?case using s 5 by (intro disjI2 exI [of _ k1]) simp
    qed
  qed
qed (auto split: if_splits)

lemma utf8_length: "length (snd (utf8_loop k cp)) = k"
  by (induction k cp rule: utf8_loop.induct) (simp_all add: case_prod_unfold Let_def)

lemma length_utf8_bytes: "0 < len \<Longrightarrow> length (utf8_bytes len mark cp) = len"
  using utf8_length [of "len - 1" cp] by (simp add: utf8_bytes_def Let_def case_prod_unfold)

lemma utf8_encode_length: "utf8_encode cp = Some b \<Longrightarrow> length b \<le> 4 \<and> (cp < 0x10000 \<longrightarrow> length b \<le> 3)"
  by (auto simp: utf8_encode_def length_utf8_bytes split: if_splits)

lemma hex_digit_small: "hex_digit c = Some v \<Longrightarrow> \<exists>m < 16. v = of_nat m"
  by (auto simp: hex_digit_def Let_def split: if_splits)
    (rule exI [of _ "of_char c - 48"] exI [of _ "10 + of_char c - 65"] exI [of _ "10 + of_char c - 97"]; simp)+

lemma parse_hex4_bound:
  assumes "4 \<le> length s"
  shows "parse_hex4 s < 0x10000"
proof -
  obtain a b c d where t: "take 4 s = [a, b, c, d]"
    using assms by (cases s; cases "tl s"; cases "tl (tl s)"; cases "tl (tl (tl s))") auto
  show ?thesis
  proof (cases "\<exists>va vb vc vd. hex_digit a = Some va \<and> hex_digit b = Some vb \<and> hex_digit c = Some vc \<and> hex_digit d = Some vd")
    case True
    then obtain va vb vc vd where v: "hex_digit a = Some va" "hex_digit b = Some vb" "hex_digit c = Some vc" "hex_digit d = Some vd"
      by blast
    then obtain ma mb mc md where m: "va = of_nat ma" "vb = of_nat mb" "vc = of_nat mc" "vd = of_nat md"
      "ma < 16" "mb < 16" "mc < 16" "md < 16" by (meson hex_digit_small)
    define q where "q = ((ma * 16 + mb) * 16 + mc) * 16 + md"
    have "parse_hex4 s = of_nat q"
      by (simp add: parse_hex4_def t v m push_bit_eq_mult q_def)
    moreover have "q < 0x10000" using m by (simp add: q_def)
    ultimately show ?thesis by (simp add: word_less_nat_alt unat_of_nat)
  qed (auto simp: parse_hex4_def t split: option.split)
qed


lemma utf16_fits:
  assumes "utf16_literal_to_utf8 s = Some (b, k)"
  shows "(k = 6 \<and> length b \<le> 3 \<or> k = 12 \<and> length b \<le> 4) \<and> k \<le> length s"
proof -
  have "6 \<le> length s" using assms by (simp add: utf16_literal_to_utf8_def split: if_splits)
  then have "parse_hex4 (drop 2 s) < 0x10000" by (intro parse_hex4_bound) simp
  then show ?thesis using assms utf8_encode_length
    by (auto simp: utf16_literal_to_utf8_def Let_def split: if_splits)
qed

lemma unescape_0 [simp]: "unescape 0 t = ([], True)"
  by (simp add: unescape.simps)

lemma unescape_plain: "c \<noteq> CHR 0x5C \<Longrightarrow> unescape (Suc n) (c # r) = apfst ((#) c) (unescape n r)"
  by (simp add: unescape.simps [of "Suc n"] apfst_def map_prod_def)

lemma unescape_u:
  "utf16_literal_to_utf8 (take n t) = Some (b, i) \<Longrightarrow> 0 < n \<Longrightarrow> t = CHR 0x5C # CHR ''u'' # r
   \<Longrightarrow> unescape n t = apfst ((@) b) (unescape (n - i) (drop i t))"
  by (simp add: unescape.simps [of n] apfst_def map_prod_def)

lemma unescape_e:
  "d \<noteq> CHR ''u'' \<Longrightarrow> 0 < n \<Longrightarrow> escape_char d = Some e \<Longrightarrow> unescape n (CHR 0x5C # d # r) = apfst ((#) e) (unescape (n - 2) r)"
  by (simp add: unescape.simps [of n] apfst_def map_prod_def)

text \<open>
  The two claims go together: the second pass in step with the first, and between the two characters of
  one of its pairs, which only an escape \<open>\u\<close> with a backslash among its digits leads to.
\<close>

definition unescape_fits :: "nat \<Rightarrow> bool" where
  "unescape_fits n \<longleftrightarrow>
     (\<forall>t k. scan_literal t = Some (n, k) \<longrightarrow> length (fst (unescape n t)) + k \<le> n)
   \<and> (\<forall>x r n' k. n = Suc n' \<longrightarrow> scan_literal r = Some (n', k) \<longrightarrow> length (fst (unescape n (x # r))) + k \<le> n' + 1)"

lemma unescape_fitsD:
  "unescape_fits n \<Longrightarrow> scan_literal t = Some (n, k) \<Longrightarrow> length (fst (unescape n t)) + k \<le> n"
  "unescape_fits (Suc m) \<Longrightarrow> scan_literal r = Some (m, k) \<Longrightarrow> length (fst (unescape (Suc m) (x # r))) + k \<le> m + 1"
  by (simp_all add: unescape_fits_def)

text \<open>After an escape that consumed \<open>i\<close> characters.\<close>

lemma unescape_after:
  assumes "\<And>m. m < n \<Longrightarrow> unescape_fits m" and that: "scan_literal u = Some (n1, k)" "i \<le> n1" "0 < i" "n1 \<le> n"
  shows "length (fst (unescape (n1 - i) (drop i u))) + k \<le> n1 - i + (i + 1) div 2"
proof -
  from scan_drop [OF that(1,2)] show ?thesis
  proof (elim disjE exE conjE)
    fix k1 assume a: "2 * k1 \<le> i" "k1 \<le> k" "scan_literal (drop i u) = Some (n1 - i, k - k1)"
    then have "length (fst (unescape (n1 - i) (drop i u))) + (k - k1) \<le> n1 - i" using that by (intro unescape_fitsD(1) assms(1)) auto
    then show ?thesis using a by simp
  next
    fix k1 x r assume a: "2 * k1 + 1 \<le> i" "k1 + 1 \<le> k" "i < n1" "drop i u = x # r" "scan_literal r = Some (n1 - i - 1, k - k1 - 1)"
    then have "length (fst (unescape (Suc (n1 - i - 1)) (x # r))) + (k - k1 - 1) \<le> n1 - i - 1 + 1"
      using that by (intro unescape_fitsD(2) assms(1)) auto
    moreover have "Suc (n1 - i - 1) = n1 - i" using a by simp
    ultimately have "length (fst (unescape (n1 - i) (x # r))) + k \<le> n1 - i + (k1 + 1)" using a(2) by (simp only:) linarith
    moreover have "k1 + 1 \<le> (i + 1) div 2" using a(1) by linarith
    ultimately show ?thesis using a(4) by simp
  qed
qed

lemma unescape_in_step:
  assumes IH: "\<And>m. m < n \<Longrightarrow> unescape_fits m" and s: "scan_literal t = Some (n, k)"
  shows "length (fst (unescape n t)) + k \<le> n"
proof (cases "n = 0")
  case True
  then show ?thesis using scan_pairs [OF s] by (simp add: unescape.simps)
next
  case False
  then obtain c d r where t: "t = c # d # r" using s by (cases t rule: scan_literal.cases) (auto split: if_splits)
  show ?thesis
  proof (cases "c = CHR 0x5C")
    case False
    then obtain n' where "scan_literal (d # r) = Some (n', k)" "n = n' + 1" using s t \<open>n \<noteq> 0\<close> by (auto split: if_splits)
    then show ?thesis using unescape_fitsD(1) [OF IH, of n' "d # r" k] False t by (simp add: unescape.simps [of "Suc n'"] case_prod_unfold Let_def)
  next
    case True
    then obtain n' k' where r: "scan_literal r = Some (n', k')" "n = n' + 2" "k = k' + 1" using s t by auto
    show ?thesis
    proof (cases "d = CHR ''u''")
      case u: True
      show ?thesis
      proof (cases "utf16_literal_to_utf8 (take n t)")
        case (Some bi)
        obtain b i where bi: "bi = (b, i)" by force
        have i: "(i = 6 \<and> length b \<le> 3 \<or> i = 12 \<and> length b \<le> 4) \<and> i \<le> n" using utf16_fits Some bi by fastforce
        then have "length (fst (unescape (n - i) (drop i t))) + k \<le> n - i + (i + 1) div 2"
          by (intro unescape_after [OF IH s]) auto
        moreover have "unescape n t = apfst ((@) b) (unescape (n - i) (drop i t))"
          by (rule unescape_u [of _ _ _ _ r]) (use Some bi t True u r in simp_all)
        ultimately have "length (fst (unescape n t)) + k \<le> length b + (n - i + (i + 1) div 2)" by simp
        then show ?thesis using i by (elim conjE disjE) simp_all
      qed (use True u t r scan_pairs [OF r(1)] in \<open>simp add: unescape.simps [of "Suc (Suc n')"]\<close>)
    next
      case nu: False
      show ?thesis using unescape_fitsD(1) [OF IH, of n' r k'] r True nu t scan_pairs [OF r(1)]
        by (simp add: unescape.simps [of "Suc (Suc n')"] case_prod_unfold Let_def split: option.split)
    qed
  qed
qed

lemma unescape_between:
  assumes IH: "\<And>m. m < n \<Longrightarrow> unescape_fits m" and t: "t = x # r" "n = Suc n'" and s: "scan_literal r = Some (n', k)"
  shows "length (fst (unescape n t)) + k \<le> n' + 1"
proof (cases "x = CHR 0x5C")
  case False
  then show ?thesis using unescape_fitsD(1) [OF IH, of n' r k] t s by (simp add: unescape.simps [of "Suc n'"] case_prod_unfold Let_def)
next
  case True
  obtain d r' where r: "r = d # r'" using s by (cases r) auto
  show ?thesis
  proof (cases "d = CHR ''u''")
    case u: True
    show ?thesis
    proof (cases "utf16_literal_to_utf8 (take n t)")
      case (Some bi)
      obtain b i where bi: "bi = (b, i)" by force
      have i: "(i = 6 \<and> length b \<le> 3 \<or> i = 12 \<and> length b \<le> 4) \<and> i \<le> n" using utf16_fits Some bi by fastforce
      then have e: "drop i t = drop (i - 1) r" "n - i = n' - (i - 1)" "i - 1 \<le> n'" "0 < i - 1" "i - 1 + 1 = i"
        using t by (auto simp: drop_Cons')
      have "length (fst (unescape (n - i) (drop i t))) + k \<le> n' - (i - 1) + i div 2"
        using unescape_after [OF IH s e(3,4)] t(2) unfolding e(1,2,5) by simp
      moreover have "unescape n t = apfst ((@) b) (unescape (n - i) (drop i t))"
        by (rule unescape_u [of _ _ _ _ r']) (use Some bi t r True u in simp_all)
      ultimately have "length (fst (unescape n t)) + k \<le> length b + (n' - (i - 1) + i div 2)" by simp
      then show ?thesis using i t(2) by (elim conjE disjE) simp_all
    qed (use True u t r scan_pairs [OF s] in \<open>simp add: unescape.simps [of "Suc n'"]\<close>)
  next
    case nu: False
    have "length (fst (unescape (n - 2) r')) + k \<le> n'"
    proof (cases n')
      case 0
      then show ?thesis using scan_pairs [OF s] t by (simp add: unescape.simps)
    next
      case (Suc m)
      obtain e r2 where r': "r' = e # r2" using s r Suc scan_pairs [OF s] by (cases r') auto
      show ?thesis
      proof (cases "d = CHR 0x5C")
        case True
        then obtain m' k' where q: "scan_literal r2 = Some (m', k')" "n' = m' + 2" "k = k' + 1" using s r r' by auto
        then show ?thesis using unescape_fitsD(2) [OF IH, of m' r2 k' e] t r' by simp
      next
        case False
        then have "scan_literal r' = Some (m, k)" using s r r' Suc by (auto split: if_splits)
        then show ?thesis using unescape_fitsD(1) [OF IH, of m r' k] t Suc by simp
      qed
    qed
    then show ?thesis using True nu t r scan_pairs [OF s]
      by (simp add: unescape.simps [of "Suc n'"] case_prod_unfold Let_def numeral_2_eq_2 split: option.split)
  qed
qed

lemma unescape_fits: "unescape_fits n"
proof (induction n rule: less_induct)
  case (less n)
  note IH = less.IH
  show ?case unfolding unescape_fits_def
    using unescape_in_step [OF IH] unescape_between [OF IH] by (intro conjI allI impI) blast+
qed

text \<open>
  C16. The second pass over a string literal stays inside the block the first pass sized - the length up to
  the closing quote less the backslashes it skipped, plus one - with its terminating NUL, whatever the
  escapes are, malformed ones and surrogate pairs included.
\<close>

theorem literal_fits_buffer:
  assumes "scan_literal t = Some (n, k)"
  shows "length (fst (unescape n t)) + 1 \<le> (n + 1 - k) + 1"
  using unescape_fitsD(1) [OF unescape_fits assms] scan_pairs [OF assms] by simp

theorem literal_fits_buffer_witness:
  "length (fst (unescape 4 [CHR ''a'', CHR 0x5C, CHR ''n'', CHR ''b'', CHR 0x22])) + 1 \<le> 5"
  using literal_fits_buffer [of "[CHR ''a'', CHR 0x5C, CHR ''n'', CHR ''b'', CHR 0x22]" 4 1] by simp

end
