(* ===== verification/JsonParse.thy ===== *)
theory JsonParse
  imports JsonString
begin

text \<open>
  The parser of \<open>cJSON.c\<close>.  The rest of the input from the buffer's offset on is the \<open>string\<close> left;
  its end is the terminating NUL, which the buffer's length includes.  A parse function returns what it
  built and the rest, or \<open>None\<close> for the C result false.  Allocations succeed; the error position that
  a failed parse leaves for \<open>cJSON_GetErrorPtr\<close> is left out.
\<close>

subsection \<open>Numbers\<close>

text \<open>Up to 63 characters are copied to \<open>number_c_string\<close>; what \<open>strtod\<close> leaves of them is not consumed.\<close>

definition parse_number :: "string \<Rightarrow> (dbl \<times> string) option" where
  "parse_number s =
     (let text = takeWhile num_char (take 63 s)
      in case strtod text of None \<Rightarrow> None
         | Some (v, rest) \<Rightarrow> Some (v, drop (length text - length rest) s))"

subsection \<open>Values\<close>

definition skip_whitespace :: "string \<Rightarrow> string" where
  "skip_whitespace s = dropWhile (\<lambda>c. (of_char c :: nat) \<le> 32) s"

definition nesting_limit :: nat where "nesting_limit = 1000"

definition parse_keyword :: "string \<Rightarrow> (json \<times> string) option" where
  "parse_keyword s =
     (if starts_with ''null'' s then Some (JNull, drop 4 s)
      else if starts_with ''false'' s then Some (JBool False, drop 5 s)
      else if starts_with ''true'' s then Some (JBool True, drop 4 s)
      else None)"

text \<open>
  \<open>parse_value\<close> and the element loops of \<open>parse_array\<close> and \<open>parse_object\<close>, which call each other.  The
  first argument is fuel, the second \<open>input_buffer->depth\<close>.  A loop starts in front of an element.
\<close>

fun parse_value :: "nat \<Rightarrow> nat \<Rightarrow> string \<Rightarrow> (json \<times> string) option"
and parse_elements :: "nat \<Rightarrow> nat \<Rightarrow> string \<Rightarrow> (json list \<times> string) option"
and parse_members :: "nat \<Rightarrow> nat \<Rightarrow> string \<Rightarrow> ((string \<times> json) list \<times> string) option" where
  "parse_value 0 depth s = None"
| "parse_value (Suc fuel) depth s =
     (case parse_keyword s of Some jr \<Rightarrow> Some jr
      | None \<Rightarrow> case s of [] \<Rightarrow> None
      | c # t \<Rightarrow>
          if c = CHR 0x22 then map_option (\<lambda>(w, r). (JString w, r)) (parse_string s)
          else if c = CHR ''-'' \<or> isdigit c then map_option (\<lambda>(v, r). (JNumber v, r)) (parse_number s)
          else if c = CHR ''['' then
            (if nesting_limit \<le> depth then None
             else case skip_whitespace t of [] \<Rightarrow> None
             | d # u \<Rightarrow> if d = CHR '']'' then Some (JArray [], u)
                         else map_option (\<lambda>(js, r). (JArray js, r)) (parse_elements fuel (Suc depth) (d # u)))
          else if c = CHR ''{'' then
            (if nesting_limit \<le> depth then None
             else case skip_whitespace t of [] \<Rightarrow> None
             | d # u \<Rightarrow> if d = CHR ''}'' then Some (JObject [], u)
                         else map_option (\<lambda>(ms, r). (JObject ms, r)) (parse_members fuel (Suc depth) (d # u)))
          else None)"
| "parse_elements 0 depth s = None"
| "parse_elements (Suc fuel) depth s =
     (case parse_value fuel depth (skip_whitespace s) of None \<Rightarrow> None
      | Some (j, r) \<Rightarrow>
          (case skip_whitespace r of [] \<Rightarrow> None
           | c # t \<Rightarrow> if c = CHR '','' then map_option (\<lambda>(js, u). (j # js, u)) (parse_elements fuel depth t)
                       else if c = CHR '']'' then Some ([j], t) else None))"
| "parse_members 0 depth s = None"
| "parse_members (Suc fuel) depth s =
     (case parse_string (skip_whitespace s) of None \<Rightarrow> None
      | Some (name, r) \<Rightarrow>
          (case skip_whitespace r of [] \<Rightarrow> None
           | c # t \<Rightarrow>
               if c \<noteq> CHR '':'' then None
               else case parse_value fuel depth (skip_whitespace t) of None \<Rightarrow> None
                 | Some (j, r') \<Rightarrow>
                     (case skip_whitespace r' of [] \<Rightarrow> None
                      | d # u \<Rightarrow>
                          if d = CHR '','' then map_option (\<lambda>(ms, v). ((name, j) # ms, v)) (parse_members fuel depth u)
                          else if d = CHR ''}'' then Some ([(name, j)], u) else None)))"

text \<open>\<open>cJSON_ParseWithOpts\<close>: the tree and where it ended, in front of the terminating NUL if that is required.\<close>

definition cJSON_ParseWithOpts :: "bool \<Rightarrow> string \<Rightarrow> (json \<times> string) option" where
  "cJSON_ParseWithOpts require_null_terminated s =
     (case parse_value (2 * length s + 2) 0 (skip_whitespace s) of None \<Rightarrow> None
      | Some (j, r) \<Rightarrow>
          if require_null_terminated
          then (if skip_whitespace r = [] then Some (j, []) else None)
          else Some (j, r))"

definition cJSON_Parse :: "string \<Rightarrow> json option" where
  "cJSON_Parse s = map_option fst (cJSON_ParseWithOpts False s)"

subsection \<open>Progress and fuel\<close>

text \<open>The contract of a parser that consumes: it leaves less than it was given.\<close>

locale consuming =
  fixes p :: "string \<Rightarrow> ('a \<times> string) option"
  assumes consumes: "p s = Some (x, r) \<Longrightarrow> length r < length s"
begin

lemma after_skip: "p (skip_whitespace s) = Some (x, r) \<Longrightarrow> length r < length s"
  using consumes [of "skip_whitespace s" x r] length_dropWhile_le [of _ s] by (simp add: skip_whitespace_def less_le_trans)

lemma next_char:
  assumes "p (skip_whitespace s) = Some (x, r)" "skip_whitespace r = c # t"
  shows "length t + 2 \<le> length s"
proof -
  have "length (c # t) \<le> length r" unfolding assms(2) [symmetric] by (simp add: skip_whitespace_def length_dropWhile_le)
  then show ?thesis using after_skip [OF assms(1)] by simp
qed

end

lemma read_sign_suffix: "read_sign s = (neg, t) \<Longrightarrow> length t \<le> length s"
  by (auto simp: read_sign_def split: list.splits if_splits)

lemma read_fraction_suffix: "read_fraction s = (fp, t) \<Longrightarrow> length t \<le> length s \<and> (fp \<noteq> [] \<longrightarrow> length t < length s)"
  by (auto simp: read_fraction_def less_Suc_eq_le le_Suc_eq length_dropWhile_le split: list.splits if_splits)

lemma read_exponent_suffix: "read_exponent s = (ex, t) \<Longrightarrow> length t \<le> length s"
proof (cases s)
  case (Cons c u)
  assume r: "read_exponent s = (ex, t)"
  obtain neg v where v: "read_sign u = (neg, v)" by force
  have "length v \<le> length u" using read_sign_suffix [OF v] .
  moreover have "length (dropWhile isdigit v) \<le> length v" by (rule length_dropWhile_le)
  ultimately show ?thesis using r v Cons by (auto simp: read_exponent_def Let_def split: if_splits)
qed (simp add: read_exponent_def)

lemma strtod_progress: "strtod s = Some (v, r) \<Longrightarrow> length r < length s"
proof -
  assume s: "strtod s = Some (v, r)"
  obtain neg t where t: "read_sign s = (neg, t)" by force
  obtain fp u where u: "read_fraction (dropWhile isdigit t) = (fp, u)" by force
  obtain ex w where w: "read_exponent u = (ex, w)" by force
  let ?ip = "takeWhile isdigit t"
  have "\<not> (?ip = [] \<and> fp = [])" "r = w" using s t u w by (auto simp: strtod_def Let_def split: if_splits)
  moreover have "length ?ip + length (dropWhile isdigit t) = length t" by (metis length_append takeWhile_dropWhile_id)
  ultimately show ?thesis
    using read_sign_suffix [OF t] read_fraction_suffix [OF u] read_exponent_suffix [OF w] by (cases ?ip) auto
qed

lemma parse_number_progress: "parse_number s = Some (v, r) \<Longrightarrow> length r < length s"
proof -
  assume s: "parse_number s = Some (v, r)"
  let ?t = "takeWhile num_char (take 63 s)"
  obtain q where q: "strtod ?t = Some (v, q)" "r = drop (length ?t - length q) s"
    using s by (auto simp: parse_number_def Let_def split: option.splits)
  have "length ?t \<le> length s" using length_takeWhile_le [of num_char "take 63 s"] by simp
  then show ?thesis using strtod_progress [OF q(1)] q(2) by simp
qed

lemma parse_string_progress: "parse_string s = Some (w, r) \<Longrightarrow> length r < length s"
  by (auto simp: parse_string_def split: list.splits option.splits if_splits prod.splits dest: scan_pairs)

interpretation number: consuming parse_number
  by unfold_locales (rule parse_number_progress)

interpretation literal: consuming parse_string
  by unfold_locales (rule parse_string_progress)

lemma skip_length: "length (skip_whitespace s) \<le> length s"
  by (simp add: skip_whitespace_def length_dropWhile_le)

lemma skip_le: "skip_whitespace s = t \<Longrightarrow> length t \<le> length s"
  using skip_length by blast

lemma parse_keyword_progress: "parse_keyword s = Some (j, r) \<Longrightarrow> length r < length s"
  by (auto simp: parse_keyword_def starts_with_iff split: if_splits)

lemma parse_keyword_bracket [simp]:
  "parse_keyword (CHR ''['' # t) = None" "parse_keyword (CHR ''{'' # t) = None" "parse_keyword (CHR 0x22 # t) = None"
  by (simp_all add: parse_keyword_def starts_with_def)

lemma not_digit_bracket [simp]: "\<not> isdigit (CHR ''['')" "\<not> isdigit (CHR ''{'')" "\<not> isdigit (CHR 0x22)"
  by (simp_all add: isdigit_def)

interpretation keyword: consuming parse_keyword
  by unfold_locales (auto dest: parse_keyword_progress)

lemma parse_value_SomeE:
  assumes "parse_value (Suc f) d s = Some (j, r)"
  obtains (keyword) "parse_keyword s = Some (j, r)"
  | (string) w where "j = JString w" "parse_string s = Some (w, r)"
  | (number) v where "j = JNumber v" "parse_number s = Some (v, r)"
  | (array_empty) t where "s = CHR ''['' # t" "d < nesting_limit" "skip_whitespace t = CHR '']'' # r" "j = JArray []"
  | (elements) t x u js where "s = CHR ''['' # t" "d < nesting_limit" "skip_whitespace t = x # u" "x \<noteq> CHR '']''"
      "parse_elements f (Suc d) (x # u) = Some (js, r)" "j = JArray js"
  | (object_empty) t where "s = CHR ''{'' # t" "d < nesting_limit" "skip_whitespace t = CHR ''}'' # r" "j = JObject []"
  | (members) t x u ms where "s = CHR ''{'' # t" "d < nesting_limit" "skip_whitespace t = x # u" "x \<noteq> CHR ''}''"
      "parse_members f (Suc d) (x # u) = Some (ms, r)" "j = JObject ms"
proof (cases "parse_keyword s")
  case None
  then obtain c t where s: "s = c # t" using assms by (cases s) auto
  have p: "parse_value (Suc f) d (c # t) = Some (j, r)" and n: "parse_keyword (c # t) = None" using assms None s by simp_all
  consider "c = CHR 0x22" | "c \<noteq> CHR 0x22" "c = CHR ''-'' \<or> isdigit c" | "c = CHR ''[''" | "c = CHR ''{''"
    using p n by (auto split: if_splits)
  then show thesis
  proof cases
    case 1
    then show thesis using p n s that(2) by auto
  next
    case 2
    then show thesis using p n s that(3) by auto
  next
    case 3
    then have "\<not> isdigit c" by (simp add: isdigit_def)
    then show thesis using p n s 3 that(4,5) by (auto split: if_splits list.splits)
  next
    case 4
    then have "\<not> isdigit c" by (simp add: isdigit_def)
    then show thesis using p n s 4 that(6,7) by (auto split: if_splits list.splits)
  qed
qed (use assms that(1) in simp)

lemma parse_progress:
  "\<forall>j r. parse_value f d s = Some (j, r) \<longrightarrow> length r < length s"
  "\<forall>js r. parse_elements f d s = Some (js, r) \<longrightarrow> length r < length s"
  "\<forall>ms r. parse_members f d s = Some (ms, r) \<longrightarrow> length r < length s"
proof (induction f d s and f d s and f d s rule: parse_value_parse_elements_parse_members.induct)
  case (2 fuel depth s)
  have "length r < length s" if "parse_value (Suc fuel) depth s = Some (j, r)" for j r
    using that
  proof (cases rule: parse_value_SomeE)
    case (array_empty t)
    then show ?thesis using skip_length [of t] by simp
  next
    case (elements t x u js)
    then have "length r < length (x # u)" using 2(1) [of "CHR ''[''" t x u] by auto
    then show ?thesis using elements skip_length [of t] by simp
  next
    case (object_empty t)
    then show ?thesis using skip_length [of t] by simp
  next
    case (members t x u ms)
    then have "length r < length (x # u)" using 2(2) [of "CHR ''{''" t x u] by auto
    then show ?thesis using members skip_length [of t] by simp
  qed (auto dest: parse_keyword_progress parse_string_progress parse_number_progress)
  then show ?case by blast
next
  case (4 fuel depth s)
  have "length r < length s" if p: "parse_elements (Suc fuel) depth s = Some (js, r)" for js r
  proof -
    obtain j r1 c t where a: "parse_value fuel depth (skip_whitespace s) = Some (j, r1)" "skip_whitespace r1 = c # t"
      and b: "c = CHR '','' \<and> (\<exists>js'. parse_elements fuel depth t = Some (js', r)) \<or> r = t"
      using p by (auto split: option.splits list.splits if_splits prod.splits)
    have "length r1 < length (skip_whitespace s)" using 4(1) a(1) by blast
    then have "length t < length s" using a(2) skip_length [of s] skip_length [of r1] by simp
    then show ?thesis using b 4(2) [OF a(1) refl a(2)] by auto
  qed
  then show ?case by blast
next
  case (6 fuel depth s)
  have "length r < length s" if p: "parse_members (Suc fuel) depth s = Some (ms, r)" for ms r
  proof -
    obtain name r1 t j r2 c u where a: "parse_string (skip_whitespace s) = Some (name, r1)" "skip_whitespace r1 = CHR '':'' # t"
      "parse_value fuel depth (skip_whitespace t) = Some (j, r2)" "skip_whitespace r2 = c # u"
      and b: "c = CHR '','' \<and> (\<exists>ms'. parse_members fuel depth u = Some (ms', r)) \<or> r = u"
      using p by (auto split: option.splits list.splits if_splits prod.splits)
    have "length r1 < length (skip_whitespace s)" using a(1) by (rule parse_string_progress)
    moreover have "length r2 < length (skip_whitespace t)" using 6(1) [OF a(1) refl a(2)] a(3) by auto
    ultimately have "length u < length s"
      using a(2,4) skip_length [of s] skip_length [of r1] skip_length [of t] skip_length [of r2] by simp
    then show ?thesis using b 6(2) [OF a(1) refl a(2) _ a(3) refl a(4)] by auto
  qed
  then show ?case by blast
qed simp_all

interpretation item: consuming "parse_value f d" for f d
  by unfold_locales (use parse_progress(1) in blast)

text \<open>Each level of the recursion consumes a character within two calls, so twice the text is enough fuel.\<close>

lemma parse_fuel_step:
  "2 * length s + 1 \<le> f \<Longrightarrow> parse_value (Suc f) d s = parse_value f d s"
  "2 * length s + 2 \<le> f \<Longrightarrow> parse_elements (Suc f) d s = parse_elements f d s"
  "2 * length s + 2 \<le> f \<Longrightarrow> parse_members (Suc f) d s = parse_members f d s"
proof (induction f d s and f d s and f d s rule: parse_value_parse_elements_parse_members.induct)
  case (2 fuel depth s)
  show ?case
  proof (cases "parse_keyword s")
    case None
    show ?thesis
    proof (cases s)
      case s: (Cons c t)
      show ?thesis
      proof (cases "skip_whitespace t")
        case (Cons x u)
        then have l: "2 * length (x # u) + 2 \<le> fuel" using "2.prems" s skip_length [of t] by simp
        show ?thesis
        proof (cases "c = CHR ''[''")
          case True
          then show ?thesis using "2.IH"(1) [OF None s _ _ True _ Cons _ l] None s Cons by simp
        next
          case False
          then show ?thesis
          proof (cases "c = CHR ''{''")
            case True
            then show ?thesis using "2.IH"(2) [OF None s _ _ False True _ Cons _ l] None s Cons by simp
          qed (use None s in simp)
        qed
      qed (use None s in simp)
    qed (use None in simp)
  qed simp
next
  case (4 fuel depth s)
  have l: "2 * length (skip_whitespace s) + 1 \<le> fuel" using "4.prems" skip_length [of s] by simp
  note IH = "4.IH"(1) [OF l]
  show ?case
  proof (cases "parse_value fuel depth (skip_whitespace s)")
    case (Some jr)
    obtain j r where jr: "jr = (j, r)" by force
    show ?thesis
    proof (cases "skip_whitespace r")
      case (Cons c t)
      have "2 * length t + 2 \<le> fuel" using item.next_char [OF Some [unfolded jr] Cons] "4.prems" by simp
      then show ?thesis using "4.IH"(2) [OF Some jr [symmetric] Cons] IH Some jr Cons by simp
    qed (use IH Some jr in simp)
  qed (use IH in simp)
next
  case (6 fuel depth s)
  show ?case
  proof (cases "parse_string (skip_whitespace s)")
    case (Some nr)
    obtain name r where nr: "nr = (name, r)" by force
    show ?thesis
    proof (cases "skip_whitespace r")
      case (Cons c t)
      note lt = literal.next_char [OF Some [unfolded nr] Cons]
      have "2 * length (skip_whitespace t) + 1 \<le> fuel" using "6.prems" skip_length [of t] lt by simp
      note IH = "6.IH"(1) [OF Some nr [symmetric] Cons _ this]
      show ?thesis
      proof (cases "c = CHR '':'' \<and> parse_value fuel depth (skip_whitespace t) \<noteq> None")
        case True
        then obtain j r' where v: "parse_value fuel depth (skip_whitespace t) = Some (j, r')" by auto
        show ?thesis
        proof (cases "skip_whitespace r'")
          case (Cons e u)
          have "2 * length u + 2 \<le> fuel" using "6.prems" item.next_char [OF v Cons] lt by simp
          then show ?thesis
            using "6.IH"(2) [OF Some nr [symmetric] \<open>skip_whitespace r = c # t\<close> _ v refl Cons] IH Some nr \<open>skip_whitespace r = c # t\<close> True v Cons
            by (simp del: parse_value.simps)
        qed (use IH Some nr \<open>skip_whitespace r = c # t\<close> True v in simp)
      qed (use IH Some nr Cons in \<open>auto simp del: parse_value.simps split: option.split\<close>)
    qed (use Some nr in simp)
  qed simp
qed simp_all

lemma parse_fuel: "f \<le> f' \<Longrightarrow> 2 * length s + 1 \<le> f \<Longrightarrow> parse_value f' d s = parse_value f d s"
proof (induction f' rule: dec_induct)
  case (step f')
  then show ?case using parse_fuel_step(1) [of s f' d] by simp
qed simp

subsection \<open>What a parsed tree looks like\<close>

fun json_ok :: "json \<Rightarrow> bool" where
  "json_ok (JString s) = (CHR 0x00 \<notin> set s)"
| "json_ok (JArray js) = list_all json_ok js"
| "json_ok (JObject ms) = list_all (\<lambda>m. CHR 0x00 \<notin> set (fst m) \<and> json_ok (snd m)) ms"
| "json_ok (JNumber v) = (case v of Finite neg m \<Rightarrow> double_ok v | Infinite neg \<Rightarrow> True | NaN \<Rightarrow> False)"
| "json_ok j = True"

lemma parse_string_ok: "parse_string s = Some (w, r) \<Longrightarrow> CHR 0x00 \<notin> set w"
  by (auto simp: parse_string_def split: list.splits option.splits if_splits prod.splits)

lemma dec_acc_nonneg: "\<forall>c \<in> set ds. isdigit c \<Longrightarrow> 0 \<le> a \<Longrightarrow> 0 \<le> dec_acc a ds"
  by (induction ds arbitrary: a) (auto simp: digit_val_def isdigit_def)

lemma read_fraction_digits: "read_fraction s = (fp, t) \<Longrightarrow> \<forall>c \<in> set fp. isdigit c"
  by (auto simp: read_fraction_def dest: set_takeWhileD split: list.splits if_splits)

lemma strtod_value: "strtod s = Some (v, r) \<Longrightarrow> \<exists>neg m. 0 \<le> m \<and> v = to_double neg m"
proof -
  assume s: "strtod s = Some (v, r)"
  obtain neg t where t: "read_sign s = (neg, t)" by force
  obtain fp u where u: "read_fraction (dropWhile isdigit t) = (fp, u)" by force
  obtain ex w where w: "read_exponent u = (ex, w)" by force
  let ?ip = "takeWhile isdigit t"
  have "v = to_double neg (decimal ?ip fp ex)" using s t u w by (auto simp: strtod_def Let_def split: if_splits)
  moreover have "0 \<le> dec_acc 0 (?ip @ fp)"
    by (rule dec_acc_nonneg) (use read_fraction_digits [OF u] in \<open>auto dest: set_takeWhileD\<close>)
  then have "0 \<le> decimal ?ip fp ex" by (simp add: decimal_def)
  ultimately show ?thesis by blast
qed

lemma parse_number_ok: "parse_number s = Some (v, r) \<Longrightarrow> json_ok (JNumber v)"
proof -
  assume "parse_number s = Some (v, r)"
  then obtain q where "strtod (takeWhile num_char (take 63 s)) = Some (v, q)"
    by (auto simp: parse_number_def Let_def split: option.splits)
  then obtain neg m where m: "0 \<le> m" "v = to_double neg m" using strtod_value by blast
  have "v \<noteq> NaN" by (auto simp: m(2) to_double_def round_fp_def Let_def)
  then show ?thesis using to_double_ok [OF m(1), of neg] m(2) by (auto split: dbl.splits)
qed

lemma parse_ok:
  "d \<le> nesting_limit \<Longrightarrow> \<forall>j r. parse_value f d s = Some (j, r) \<longrightarrow> json_ok j \<and> nesting j + d \<le> nesting_limit"
  "d \<le> nesting_limit \<Longrightarrow> \<forall>js r. parse_elements f d s = Some (js, r) \<longrightarrow> list_all json_ok js \<and> (\<forall>j \<in> set js. nesting j + d \<le> nesting_limit)"
  "d \<le> nesting_limit \<Longrightarrow> \<forall>ms r. parse_members f d s = Some (ms, r) \<longrightarrow> list_all (\<lambda>m. CHR 0x00 \<notin> set (fst m) \<and> json_ok (snd m)) ms
     \<and> (\<forall>m \<in> set ms. nesting (snd m) + d \<le> nesting_limit)"
proof (induction f d s and f d s and f d s rule: parse_value_parse_elements_parse_members.induct)
  case (2 fuel d s)
  have "json_ok j \<and> nesting j + d \<le> nesting_limit" if "parse_value (Suc fuel) d s = Some (j, r)" for j r
    using that
  proof (cases rule: parse_value_SomeE)
    case keyword
    then show ?thesis using "2.prems" by (auto simp: parse_keyword_def split: if_splits)
  next
    case (elements t x u js)
    have i: "list_all json_ok js \<and> (\<forall>j \<in> set js. nesting j + Suc d \<le> nesting_limit)"
      using "2.IH"(1) [of "CHR ''[''" t x u] elements by auto
    then have "foldr max (map nesting js) 0 \<le> nesting_limit - Suc d" by (subst foldr_max_le) auto
    then show ?thesis using i elements(2,6) by simp
  next
    case (members t x u ms)
    have i: "list_all (\<lambda>m. CHR 0x00 \<notin> set (fst m) \<and> json_ok (snd m)) ms \<and> (\<forall>m \<in> set ms. nesting (snd m) + Suc d \<le> nesting_limit)"
      using "2.IH"(2) [of "CHR ''{''" t x u] members by auto
    then have "foldr max (map (\<lambda>m. nesting (snd m)) ms) 0 \<le> nesting_limit - Suc d" by (subst foldr_max_le) auto
    then show ?thesis using i members(2,6) by simp
  qed (use "2.prems" parse_string_ok parse_number_ok in auto)
  then show ?case by blast
next
  case (4 fuel d s)
  show ?case
  proof (cases "parse_value fuel d (skip_whitespace s)")
    case (Some jr)
    obtain j r where jr: "jr = (j, r)" by force
    show ?thesis
    proof (cases "skip_whitespace r")
      case (Cons c t)
      then show ?thesis using "4.IH"(1) [OF "4.prems"] "4.IH"(2) [OF Some jr [symmetric] Cons] "4.prems" Some jr by auto
    qed (use Some jr in simp)
  qed simp
next
  case (6 fuel d s)
  have "list_all (\<lambda>m. CHR 0x00 \<notin> set (fst m) \<and> json_ok (snd m)) ms \<and> (\<forall>m \<in> set ms. nesting (snd m) + d \<le> nesting_limit)"
    if p: "parse_members (Suc fuel) d s = Some (ms, r)" for ms r
  proof -
    obtain name r1 t j r2 c u where a: "parse_string (skip_whitespace s) = Some (name, r1)" "skip_whitespace r1 = CHR '':'' # t"
      "parse_value fuel d (skip_whitespace t) = Some (j, r2)" "skip_whitespace r2 = c # u"
      and b: "c = CHR '','' \<and> (\<exists>ms'. parse_members fuel d u = Some (ms', r) \<and> ms = (name, j) # ms') \<or> ms = [(name, j)]"
      using p by (auto split: option.splits list.splits if_splits prod.splits)
    have "json_ok j \<and> nesting j + d \<le> nesting_limit" using "6.IH"(1) [OF a(1) refl a(2) _ "6.prems"] a(3) by auto
    moreover have "list_all (\<lambda>m. CHR 0x00 \<notin> set (fst m) \<and> json_ok (snd m)) ms' \<and> (\<forall>m \<in> set ms'. nesting (snd m) + d \<le> nesting_limit)"
      if "parse_members fuel d u = Some (ms', r)" "c = CHR '',''" for ms'
      using "6.IH"(2) [OF a(1) refl a(2) _ a(3) refl a(4) that(2) "6.prems"] that(1) by simp
    ultimately show ?thesis using b parse_string_ok [OF a(1)] by fastforce
  qed
  then show ?case by blast
qed simp_all

lemma cJSON_Parse_json_ok: "cJSON_Parse s = Some j \<Longrightarrow> json_ok j \<and> nesting j \<le> nesting_limit"
  using parse_ok(1) [of 0 "2 * length s + 2" "skip_whitespace s"]
  by (auto simp: cJSON_Parse_def cJSON_ParseWithOpts_def split: option.splits)

end
