(* ===== verification/V1Client.thy ===== *)
theory V1Client
  imports JsonParse
begin

text \<open>
  The connection side of the v1 camera client (\<open>mqtt-vcamclient/HTTP.c\<close>), whose message handlers
  \<open>legacy_cases.c\<close> copies: its configuration, the first connection with failover, and the three kinds of
  thread that share the one client handle without a lock: the main loop, the monitor that goes back to the main
  broker, and the callback of a lost connection.  Paho is its documented behaviour: a handle is created for an
  address, connected and disconnected, and destroyed once.  \<open>vc_handles\<close> are the handles that exist, with
  their address and whether they are connected; \<open>vc_dead\<close> is a ghost, the handles used after their end.
\<close>

subsection \<open>The configuration\<close>

record v1_conf =
  vf_main :: string
  vf_backup :: string
  vf_user :: string
  vf_pass :: string

text \<open>\<open>V1Undefined\<close>: a value that is no string is printed with \<open>%s\<close> from a null pointer.\<close>

datatype v1_load = V1Failed | V1Undefined | V1Loaded v1_conf

definition text_of :: "json \<Rightarrow> string option" where
  "text_of j = (case j of JString s \<Rightarrow> Some s | _ \<Rightarrow> None)"

definition load_mqtt_config :: "string option \<Rightarrow> v1_load" where
  "load_mqtt_config file =
     (case file of
        None \<Rightarrow> V1Failed
      | Some bytes \<Rightarrow>
          (case cJSON_Parse (cstr (take 1023 bytes)) of
             None \<Rightarrow> V1Failed
           | Some doc \<Rightarrow>
               (case (cJSON_GetObjectItem doc ''mqttUrl'', cJSON_GetObjectItem doc ''username'', cJSON_GetObjectItem doc ''password'') of
                  (Some broker, Some user, Some pass) \<Rightarrow>
                    (case (text_of broker, text_of user, text_of pass) of
                       (Some b, Some u, Some p) \<Rightarrow>
                         V1Loaded \<lparr>vf_main = bcopy 256 b,
                           vf_backup = bcopy 256 (case cJSON_GetObjectItem doc ''mqttUrl_BKP'' of
                               Some k \<Rightarrow> (case text_of k of Some x \<Rightarrow> x | None \<Rightarrow> b) | None \<Rightarrow> b),
                           vf_user = bcopy 64 u, vf_pass = bcopy 64 p\<rparr>
                     | _ \<Rightarrow> V1Undefined)
                | _ \<Rightarrow> V1Failed)))"

text \<open>\<open>init_device\<close>: what the command prints is the serial number, less one line end; the identity and the topics.\<close>

definition v1_device :: "string option \<Rightarrow> (string \<times> string \<times> string) option" where
  "v1_device printed =
     (case printed of
        None \<Rightarrow> None
      | Some out \<Rightarrow>
          let sn = cstr (take 19 out);
              sn' = (if sn \<noteq> [] \<and> last sn = CHR 0x0A then butlast sn else sn)
          in Some (bcopy 24 sn', bcopy 50 (''torque/rx/'' @ sn' @ ''/''), bcopy 50 (''torque/tx/'' @ sn' @ ''/'')))"

subsection \<open>Clients\<close>

definition max_retry :: nat where "max_retry = 5"

datatype v1_out = V1Connect string bool | V1Subscribe nat string | V1Publish nat int | V1Sleep nat

text \<open>
  Where a thread is.  \<open>V1Load b c\<close> and \<open>V1Send b c h\<close> are the publication of case \<open>c\<close> by \<open>run_main_loop\<close>, before
  and after it has read the handle, and \<open>b\<close> says that the loop is the one inside \<open>reconnect_mqtt\<close>.
\<close>

datatype v1_pc =
    V1Load bool int
  | V1Send bool int "nat option"
  | V1Leave
  | MonSleep
  | MonProbe
  | MonDisconnect
  | MonDestroy
  | MonCreate
  | MonConnect nat
  | MonResubscribe
  | RecDestroy nat
  | RecCreate nat
  | RecConnect nat nat
  | RecResubscribe

record v1 =
  vc_main :: string
  vc_backup :: string
  vc_current :: string
  vc_using_backup :: bool
  vc_rx :: string
  vc_client :: "nat option"
  vc_handles :: "(nat \<times> string \<times> bool) list"
  vc_next :: nat
  vc_stop :: bool
  vc_exited :: bool
  vc_threads :: "v1_pc list"
  vc_dead :: "nat list"
  vc_out :: "v1_out list"

definition v1_start :: "v1_conf \<Rightarrow> string \<Rightarrow> v1" where
  "v1_start cf rx = \<lparr>vc_main = vf_main cf, vc_backup = vf_backup cf, vc_current = [], vc_using_backup = False, vc_rx = rx,
     vc_client = None, vc_handles = [], vc_next = 0, vc_stop = False, vc_exited = False, vc_threads = [], vc_dead = [], vc_out = []\<rparr>"

definition v1_say :: "v1_out list \<Rightarrow> v1 \<Rightarrow> v1" where
  "v1_say ev s = s\<lparr>vc_out := vc_out s @ ev\<rparr>"

definition live_handle :: "nat \<Rightarrow> v1 \<Rightarrow> bool" where
  "live_handle h s \<longleftrightarrow> h \<in> fst ` set (vc_handles s)"

definition paho_create :: "string \<Rightarrow> bool \<Rightarrow> v1 \<Rightarrow> v1" where
  "paho_create uri ok s =
     (if ok then s\<lparr>vc_client := Some (vc_next s), vc_handles := (vc_next s, uri, False) # vc_handles s, vc_next := vc_next s + 1\<rparr> else s)"

definition set_connected :: "nat \<Rightarrow> bool \<Rightarrow> (nat \<times> string \<times> bool) list \<Rightarrow> (nat \<times> string \<times> bool) list" where
  "set_connected h b hs = map (\<lambda>(x, u, c). (x, u, if x = h then b else c)) hs"

text \<open>A call on the global handle; on a null handle it fails.\<close>

definition paho_connect :: "bool \<Rightarrow> v1 \<Rightarrow> bool \<times> v1" where
  "paho_connect ok s =
     (case vc_client s of
        None \<Rightarrow> (False, s)
      | Some h \<Rightarrow>
          (case map_of (vc_handles s) h of
             None \<Rightarrow> (False, s\<lparr>vc_dead := vc_dead s @ [h]\<rparr>)
           | Some (uri, _) \<Rightarrow> (ok, v1_say [V1Connect uri ok] (s\<lparr>vc_handles := (if ok then set_connected h True else id) (vc_handles s)\<rparr>))))"

definition paho_disconnect :: "v1 \<Rightarrow> v1" where
  "paho_disconnect s = (case vc_client s of None \<Rightarrow> s | Some h \<Rightarrow> s\<lparr>vc_handles := set_connected h False (vc_handles s)\<rparr>)"

definition paho_destroy :: "v1 \<Rightarrow> v1" where
  "paho_destroy s =
     (case vc_client s of None \<Rightarrow> s
      | Some h \<Rightarrow> s\<lparr>vc_handles := filter (\<lambda>(x, _). x \<noteq> h) (vc_handles s), vc_client := None\<rparr>)"

text \<open>\<open>publish_mqtt_message\<close> with the handle it was given.\<close>

definition v1_publish :: "nat option \<Rightarrow> int \<Rightarrow> v1 \<Rightarrow> v1" where
  "v1_publish h c s =
     (case h of None \<Rightarrow> s
      | Some x \<Rightarrow> if live_handle x s then v1_say [V1Publish x c] s else s\<lparr>vc_dead := vc_dead s @ [x]\<rparr>)"

definition resubscribe_topics :: "v1 \<Rightarrow> v1" where
  "resubscribe_topics s =
     (case vc_client s of None \<Rightarrow> s
      | Some h \<Rightarrow> v1_say [V1Subscribe h (bcopy 256 (vc_rx s @ ''#'')), V1Subscribe h ''torque/rx/all/#''] s)"

text \<open>\<open>get_ini_files\<close> publishes case 1.\<close>

definition v1_get_ini_files :: "v1 \<Rightarrow> v1" where
  "v1_get_ini_files s = v1_publish (vc_client s) 1 s"

subsection \<open>The first connection\<close>

text \<open>\<open>connect_broker\<close> with \<open>n\<close> attempts left; a list that runs out is a broker that does not answer.\<close>

primrec connect_tries :: "nat \<Rightarrow> bool list \<Rightarrow> v1 \<Rightarrow> bool \<times> v1" where
  "connect_tries 0 as s = (False, s)"
| "connect_tries (Suc n) as s =
     (let (ok, s1) = paho_connect (as \<noteq> [] \<and> hd as) s in
      if ok then (True, s1)
      else if n = 0 then (False, s1)
      else connect_tries n (tl as) (v1_say [V1Sleep 5] s1))"

definition connect_broker :: "bool list \<Rightarrow> v1 \<Rightarrow> bool \<times> v1" where
  "connect_broker as s =
     (let (ok, s1) = connect_tries max_retry as s in
      if ok then (True, v1_get_ini_files (v1_say [V1Sleep 2] s1)) else (False, s1))"

definition init_mqtt_with_failover :: "bool \<Rightarrow> bool list \<Rightarrow> bool \<Rightarrow> bool list \<Rightarrow> v1 \<Rightarrow> bool \<times> v1" where
  "init_mqtt_with_failover made1 as1 made2 as2 s =
     (let s1 = paho_create (vc_main s) made1 (s\<lparr>vc_current := vc_main s\<rparr>);
          (ok, s2) = connect_broker as1 s1
      in if ok then (True, s2)
         else let s3 = (paho_destroy s2)\<lparr>vc_current := vc_backup s, vc_using_backup := True\<rparr>
              in connect_broker as2 (paho_create (vc_backup s) made2 s3))"

text \<open>\<open>subscribe_topics\<close>, then the monitor thread and the main loop.\<close>

definition v1_serve :: "v1 \<Rightarrow> v1" where
  "v1_serve s = (resubscribe_topics s)\<lparr>vc_threads := [V1Load False 34, MonSleep]\<rparr>"

subsection \<open>The threads\<close>

definition uri_of :: "nat \<Rightarrow> v1 \<Rightarrow> string" where
  "uri_of i s = (if i = 0 then vc_main s else vc_backup s)"

definition next_uri :: "nat \<Rightarrow> nat" where
  "next_uri i = (if i = 0 then 1 else 0)"

text \<open>
  One call of one thread; \<open>ob\<close> is its answer where it has one.  The result is where the thread is then.  A step
  function is for the positions of its own thread.
\<close>

fun loop_step :: "bool \<Rightarrow> v1 \<Rightarrow> v1_pc \<Rightarrow> v1_pc \<times> v1" where
  "loop_step ob s (V1Load b c) =
     (if c = 34 \<and> vc_stop s then (if b then RecDestroy 0 else V1Leave, s) else (V1Send b c (vc_client s), s))"
| "loop_step ob s (V1Send b c h) =
     (V1Load b (if c = 34 then 0 else 34), v1_say [V1Sleep (if c = 34 then 60 else 5)] (v1_publish h c s))"
| "loop_step ob s pc = (pc, s)"

text \<open>The end of \<open>main\<close>, and with it of every thread.\<close>

definition v1_cleanup :: "v1 \<Rightarrow> v1" where
  "v1_cleanup s = (paho_destroy (paho_disconnect s))\<lparr>vc_exited := True\<rparr>"

text \<open>The probe's own client is made, connected if possible, and gone again at the end of the turn; \<open>ob\<close> says that both went well.\<close>

fun monitor_step :: "bool \<Rightarrow> v1 \<Rightarrow> v1_pc \<Rightarrow> v1_pc \<times> v1" where
  "monitor_step ob s MonSleep = (if vc_using_backup s then MonProbe else MonSleep, v1_say [V1Sleep 30] s)"
| "monitor_step ob s MonProbe = (if ob then MonDisconnect else MonSleep, v1_say [V1Connect (vc_main s) ob] s)"
| "monitor_step ob s MonDisconnect = (MonDestroy, paho_disconnect s)"
| "monitor_step ob s MonDestroy = (MonCreate, (paho_destroy s)\<lparr>vc_current := vc_main s, vc_using_backup := False\<rparr>)"
| "monitor_step ob s MonCreate = (MonConnect 0, paho_create (vc_main s) ob s)"
| "monitor_step ob s (MonConnect k) =
     (let (ok, s1) = paho_connect ob s in
      if ok then (MonResubscribe, v1_get_ini_files (v1_say [V1Sleep 2] s1))
      else if k + 1 \<ge> max_retry then (MonSleep, s1\<lparr>vc_using_backup := True\<rparr>)
      else (MonConnect (k + 1), v1_say [V1Sleep 5] s1))"
| "monitor_step ob s MonResubscribe = (MonSleep, v1_get_ini_files (v1_say [V1Sleep 2] (resubscribe_topics s)))"
| "monitor_step ob s pc = (pc, s)"

fun reconnect_step :: "bool \<Rightarrow> v1 \<Rightarrow> v1_pc \<Rightarrow> v1_pc \<times> v1" where
  "reconnect_step ob s (RecDestroy i) = (RecCreate i, paho_destroy s)"
| "reconnect_step ob s (RecCreate i) =
     (if ob then (RecConnect i 0, paho_create (uri_of i s) True s) else (RecDestroy (next_uri i), s))"
| "reconnect_step ob s (RecConnect i k) =
     (let (ok, s1) = paho_connect ob s in
      if ok then (RecResubscribe, s1\<lparr>vc_using_backup := (uri_of i s = vc_backup s), vc_current := bcopy 256 (uri_of i s)\<rparr>)
      else if k + 1 \<ge> max_retry then (RecDestroy (next_uri i), v1_say [V1Sleep 1] s1)
      else (RecConnect i (k + 1), v1_say [V1Sleep 5] s1))"
| "reconnect_step ob s RecResubscribe = (V1Load True 34, v1_get_ini_files (resubscribe_topics s))"
| "reconnect_step ob s pc = (pc, s)"

primrec thread_step :: "bool \<Rightarrow> v1 \<Rightarrow> v1_pc \<Rightarrow> v1_pc \<times> v1" where
  "thread_step ob s (V1Load b c) = loop_step ob s (V1Load b c)"
| "thread_step ob s (V1Send b c h) = loop_step ob s (V1Send b c h)"
| "thread_step ob s V1Leave = (V1Leave, v1_cleanup s)"
| "thread_step ob s MonSleep = monitor_step ob s MonSleep"
| "thread_step ob s MonProbe = monitor_step ob s MonProbe"
| "thread_step ob s MonDisconnect = monitor_step ob s MonDisconnect"
| "thread_step ob s MonDestroy = monitor_step ob s MonDestroy"
| "thread_step ob s MonCreate = monitor_step ob s MonCreate"
| "thread_step ob s (MonConnect k) = monitor_step ob s (MonConnect k)"
| "thread_step ob s MonResubscribe = monitor_step ob s MonResubscribe"
| "thread_step ob s (RecDestroy i) = reconnect_step ob s (RecDestroy i)"
| "thread_step ob s (RecCreate i) = reconnect_step ob s (RecCreate i)"
| "thread_step ob s (RecConnect i k) = reconnect_step ob s (RecConnect i k)"
| "thread_step ob s RecResubscribe = reconnect_step ob s RecResubscribe"

text \<open>
  What can happen next: a thread's call, a connection that is lost, whose callback runs in a thread of its own, or
  the signal that asks the program to stop.
\<close>

datatype v1_event = V1Step nat bool | V1Lost nat | V1Signal

definition v1_exec :: "v1_event \<Rightarrow> v1 \<Rightarrow> v1" where
  "v1_exec e s =
     (if vc_exited s then s
      else case e of
        V1Step t ob \<Rightarrow>
          if t < length (vc_threads s) then
            (let (pc', s') = thread_step ob s (vc_threads s ! t) in s'\<lparr>vc_threads := (vc_threads s')[t := pc']\<rparr>)
          else s
      | V1Lost h \<Rightarrow>
          if \<exists>u. (h, u, True) \<in> set (vc_handles s)
          then s\<lparr>vc_handles := set_connected h False (vc_handles s), vc_threads := vc_threads s @ [RecDestroy 0]\<rparr> else s
      | V1Signal \<Rightarrow> s\<lparr>vc_stop := True\<rparr>)"

definition v1_run :: "v1_event list \<Rightarrow> v1 \<Rightarrow> v1" where
  "v1_run es s = fold v1_exec es s"

subsection \<open>Handles\<close>

lemma v1_say_frame [simp]:
  "vc_client (v1_say ev s) = vc_client s" "vc_handles (v1_say ev s) = vc_handles s" "vc_next (v1_say ev s) = vc_next s"
  "vc_threads (v1_say ev s) = vc_threads s" "vc_dead (v1_say ev s) = vc_dead s" "vc_main (v1_say ev s) = vc_main s"
  "vc_backup (v1_say ev s) = vc_backup s" "vc_using_backup (v1_say ev s) = vc_using_backup s" "vc_stop (v1_say ev s) = vc_stop s"
  "vc_exited (v1_say ev s) = vc_exited s" "vc_out (v1_say ev s) = vc_out s @ ev" "vc_current (v1_say ev s) = vc_current s"
  by (simp_all add: v1_say_def)

lemma fst_set_connected [simp]: "map fst (set_connected h b hs) = map fst hs" "fst ` set (set_connected h b hs) = fst ` set hs"
  by (induction hs) (auto simp: set_connected_def split: prod.splits)

text \<open>What publishing and subscribing leave alone.\<close>

lemma v1_publish_frame [simp]:
  "vc_client (v1_publish h c s) = vc_client s" "vc_handles (v1_publish h c s) = vc_handles s" "vc_next (v1_publish h c s) = vc_next s"
  "vc_threads (v1_publish h c s) = vc_threads s" "vc_main (v1_publish h c s) = vc_main s" "vc_backup (v1_publish h c s) = vc_backup s"
  "vc_using_backup (v1_publish h c s) = vc_using_backup s" "vc_stop (v1_publish h c s) = vc_stop s" "vc_exited (v1_publish h c s) = vc_exited s"
  by (simp_all add: v1_publish_def split: option.splits)

lemma v1_get_ini_files_frame [simp]:
  "vc_client (v1_get_ini_files s) = vc_client s" "vc_handles (v1_get_ini_files s) = vc_handles s" "vc_next (v1_get_ini_files s) = vc_next s"
  "vc_threads (v1_get_ini_files s) = vc_threads s" "vc_main (v1_get_ini_files s) = vc_main s" "vc_backup (v1_get_ini_files s) = vc_backup s"
  "vc_using_backup (v1_get_ini_files s) = vc_using_backup s" "vc_stop (v1_get_ini_files s) = vc_stop s" "vc_exited (v1_get_ini_files s) = vc_exited s"
  by (simp_all add: v1_get_ini_files_def)

lemma resubscribe_frame [simp]:
  "vc_client (resubscribe_topics s) = vc_client s" "vc_handles (resubscribe_topics s) = vc_handles s" "vc_next (resubscribe_topics s) = vc_next s"
  "vc_threads (resubscribe_topics s) = vc_threads s" "vc_main (resubscribe_topics s) = vc_main s" "vc_backup (resubscribe_topics s) = vc_backup s"
  "vc_using_backup (resubscribe_topics s) = vc_using_backup s" "vc_stop (resubscribe_topics s) = vc_stop s"
  "vc_exited (resubscribe_topics s) = vc_exited s"
  by (simp_all add: resubscribe_topics_def split: option.splits)

text \<open>Whatever a thread does next, a handle that is not the global one any more stays as it is.\<close>

definition lost_handle :: "nat \<Rightarrow> v1 \<Rightarrow> bool" where
  "lost_handle h s \<longleftrightarrow> live_handle h s \<and> vc_client s \<noteq> Some h \<and> h < vc_next s"

lemma paho_lost [intro]:
  "lost_handle h s \<Longrightarrow> lost_handle h (paho_create u ok s)"
  "lost_handle h s \<Longrightarrow> lost_handle h (paho_disconnect s)"
  "lost_handle h s \<Longrightarrow> lost_handle h (paho_destroy s)"
  "lost_handle h s \<Longrightarrow> paho_connect ok s = (b, s') \<Longrightarrow> lost_handle h s'"
  by (auto simp: lost_handle_def live_handle_def paho_create_def paho_disconnect_def paho_destroy_def paho_connect_def
      image_iff set_connected_def split: option.splits if_splits) force+

lemma lost_frame [simp]:
  "lost_handle h (v1_say ev s) = lost_handle h s" "lost_handle h (v1_publish x c s) = lost_handle h s"
  "lost_handle h (v1_get_ini_files s) = lost_handle h s" "lost_handle h (resubscribe_topics s) = lost_handle h s"
  "lost_handle h (s\<lparr>vc_using_backup := ub\<rparr>) = lost_handle h s" "lost_handle h (s\<lparr>vc_current := cu\<rparr>) = lost_handle h s"
  "lost_handle h (s\<lparr>vc_threads := ts\<rparr>) = lost_handle h s" "lost_handle h (s\<lparr>vc_exited := ex\<rparr>) = lost_handle h s"
  "lost_handle h (s\<lparr>vc_stop := st\<rparr>) = lost_handle h s"
  by (simp_all add: lost_handle_def live_handle_def)

lemma thread_step_lost: "lost_handle h s \<Longrightarrow> thread_step ob s pc = (pc', s') \<Longrightarrow> lost_handle h s'"
proof (cases pc)
  case (MonConnect k)
  assume l: "lost_handle h s" and t: "thread_step ob s pc = (pc', s')"
  obtain b s1 where c: "paho_connect ob s = (b, s1)" by (cases "paho_connect ob s")
  then have "lost_handle h s1" using l by blast
  then show ?thesis using t MonConnect c by (auto split: if_splits)
next
  case (RecConnect i k)
  assume l: "lost_handle h s" and t: "thread_step ob s pc = (pc', s')"
  obtain b s1 where c: "paho_connect ob s = (b, s1)" by (cases "paho_connect ob s")
  then have "lost_handle h s1" using l by blast
  then show ?thesis using t RecConnect c by (auto split: if_splits)
next
  case V1Leave
  assume "lost_handle h s" "thread_step ob s pc = (pc', s')"
  then show ?thesis using V1Leave paho_lost(3) [OF paho_lost(2)] by (auto simp: v1_cleanup_def)
qed (auto split: if_splits)

lemma v1_exec_lost: "lost_handle h s \<Longrightarrow> lost_handle h (v1_exec e s)"
proof (cases e)
  case (V1Step t ob)
  assume "lost_handle h s"
  moreover obtain pc' s' where "thread_step ob s (vc_threads s ! t) = (pc', s')" by (cases "thread_step ob s (vc_threads s ! t)")
  ultimately show ?thesis using thread_step_lost [of h s ob "vc_threads s ! t" pc' s'] V1Step by (simp add: v1_exec_def)
next
  case (V1Lost k)
  assume "lost_handle h s"
  then show ?thesis using V1Lost by (auto simp: v1_exec_def lost_handle_def live_handle_def)
next
  case V1Signal
  assume "lost_handle h s"
  then show ?thesis using V1Signal by (simp add: v1_exec_def)
qed

lemma v1_run_lost: "lost_handle h s \<Longrightarrow> lost_handle h (v1_run es s)"
  by (induction es arbitrary: s) (simp_all add: v1_run_def v1_exec_lost)

lemma v1_run_simps [simp]: "v1_run [] s = s" "v1_run (e # es) s = v1_run es (v1_exec e s)" "v1_run (xs @ es) s = v1_run es (v1_run xs s)"
  by (simp_all add: v1_run_def)

subsection \<open>Failover\<close>

lemma paho_connect_fails:
  "vc_client s = Some h \<Longrightarrow> map_of (vc_handles s) h = Some (u, c) \<Longrightarrow> paho_connect False s = (False, v1_say [V1Connect u False] s)"
  by (simp add: paho_connect_def)

lemma connect_tries_live:
  assumes "vc_client s = Some h" "vc_handles s = [(h, u, False)]"
  shows "\<exists>s'. connect_tries n as s = (True \<in> set (take n as), s') \<and> vc_client s' = Some h
    \<and> vc_handles s' = [(h, u, True \<in> set (take n as))] \<and> vc_next s' = vc_next s \<and> vc_main s' = vc_main s \<and> vc_backup s' = vc_backup s
    \<and> vc_using_backup s' = vc_using_backup s"
  using assms
proof (induction n arbitrary: as s)
  case (Suc n)
  show ?case
  proof (cases "as \<noteq> [] \<and> hd as")
    case True
    then show ?thesis using Suc.prems by (cases as) (auto simp: paho_connect_def set_connected_def)
  next
    case False
    have p: "paho_connect False s = (False, v1_say [V1Connect u False] s)" by (rule paho_connect_fails [where c = False]) (use Suc.prems in simp_all)
    have t: "(True \<in> set (take (Suc n) as)) = (True \<in> set (take n (tl as)))" using False by (cases as) auto
    have e: "(as \<noteq> [] \<and> hd as) = False" using False by simp
    have c: "connect_tries (Suc n) as s = (if n = 0 then (False, v1_say [V1Connect u False] s)
        else connect_tries n (tl as) (v1_say [V1Sleep 5] (v1_say [V1Connect u False] s)))"
      unfolding connect_tries.simps e p by simp
    show ?thesis
    proof (cases "n = 0")
      case True
      then show ?thesis unfolding c t using Suc.prems by simp
    next
      case n: False
      then show ?thesis unfolding c t
        using Suc.IH [of "v1_say [V1Sleep 5] (v1_say [V1Connect u False] s)" "tl as"] Suc.prems by simp
    qed
  qed
qed simp

lemma connect_broker_live:
  assumes "vc_client s = Some h" "vc_handles s = [(h, u, False)]"
  shows "\<exists>s'. connect_broker as s = (True \<in> set (take max_retry as), s') \<and> vc_client s' = Some h
    \<and> vc_handles s' = [(h, u, True \<in> set (take max_retry as))] \<and> vc_next s' = vc_next s \<and> vc_main s' = vc_main s \<and> vc_backup s' = vc_backup s
    \<and> vc_using_backup s' = vc_using_backup s"
  using connect_tries_live [OF assms, of max_retry as] by (auto simp: connect_broker_def Let_def)

subsection \<open>Stranded\<close>

text \<open>On paper on the backup broker, connected to none, and no thread is left that tries.\<close>

definition idle_thread :: "v1_pc \<Rightarrow> bool" where
  "idle_thread pc \<longleftrightarrow> (case pc of V1Load b c \<Rightarrow> \<not> b | V1Send b c h \<Rightarrow> \<not> b | MonSleep \<Rightarrow> True | MonProbe \<Rightarrow> True | _ \<Rightarrow> False)"

definition stranded :: "v1 \<Rightarrow> bool" where
  "stranded s \<longleftrightarrow> \<not> vc_exited s \<and> \<not> vc_stop s \<and> (\<forall>h u. (h, u, True) \<notin> set (vc_handles s)) \<and> list_all idle_thread (vc_threads s)"

fun main_silent :: "v1_event \<Rightarrow> bool" where
  "main_silent (V1Step t ob) = (\<not> ob)"
| "main_silent (V1Lost h) = True"
| "main_silent V1Signal = False"

definition only_main :: "v1 \<Rightarrow> v1_out list \<Rightarrow> bool" where
  "only_main s ev \<longleftrightarrow> (\<forall>u ok. V1Connect u ok \<in> set ev \<longrightarrow> u = vc_main s \<and> \<not> ok)"

lemma v1_publish_out: "\<exists>ev. vc_out (v1_publish h c s) = vc_out s @ ev \<and> (\<forall>u ok. V1Connect u ok \<notin> set ev)"
  by (auto simp: v1_publish_def split: option.splits)

lemma idle_step:
  assumes "stranded s" "idle_thread pc" "thread_step False s pc = (pc', s')"
  shows "idle_thread pc' \<and> stranded s' \<and> vc_main s' = vc_main s \<and> vc_threads s' = vc_threads s
    \<and> (\<exists>ev. vc_out s' = vc_out s @ ev \<and> only_main s ev)"
proof (cases pc)
  case (V1Send b c h)
  obtain ev where "vc_out (v1_publish h c s) = vc_out s @ ev" "\<forall>u ok. V1Connect u ok \<notin> set ev" using v1_publish_out by blast
  then show ?thesis using assms V1Send by (auto simp: stranded_def idle_thread_def only_main_def)
qed (use assms in \<open>auto simp: stranded_def idle_thread_def only_main_def split: if_splits\<close>)

lemma stranded_exec:
  assumes "stranded s" "main_silent e"
  shows "stranded (v1_exec e s) \<and> vc_main (v1_exec e s) = vc_main s \<and> (\<exists>ev. vc_out (v1_exec e s) = vc_out s @ ev \<and> only_main s ev)"
proof (cases e)
  case (V1Step t ob)
  show ?thesis
  proof (cases "t < length (vc_threads s)")
    case True
    obtain pc' s' where p: "thread_step False s (vc_threads s ! t) = (pc', s')" by (cases "thread_step False s (vc_threads s ! t)")
    have "idle_thread (vc_threads s ! t)" using assms(1) True by (simp add: stranded_def list_all_length)
    note i = idle_step [OF assms(1) this p]
    have "list_all idle_thread ((vc_threads s)[t := pc'])" using i assms(1) True
      by (auto simp: stranded_def list_all_length nth_list_update)
    then show ?thesis using i assms V1Step True p by (auto simp: v1_exec_def stranded_def)
  qed (use assms V1Step in \<open>simp add: v1_exec_def stranded_def only_main_def\<close>)
qed (use assms in \<open>auto simp: v1_exec_def stranded_def only_main_def\<close>)

lemma stranded_run:
  "stranded s \<Longrightarrow> list_all main_silent es \<Longrightarrow> stranded (v1_run es s) \<and> (\<exists>ev. vc_out (v1_run es s) = vc_out s @ ev \<and> only_main s ev)"
proof (induction es arbitrary: s)
  case (Cons e es)
  obtain ev where e: "stranded (v1_exec e s)" "vc_main (v1_exec e s) = vc_main s" "vc_out (v1_exec e s) = vc_out s @ ev" "only_main s ev"
    using stranded_exec [of s e] Cons.prems by auto
  moreover obtain ev' where "stranded (v1_run es (v1_exec e s))" "vc_out (v1_run es (v1_exec e s)) = vc_out (v1_exec e s) @ ev'"
    "only_main (v1_exec e s) ev'" using Cons.IH [OF e(1)] Cons.prems by auto
  ultimately show ?case by (auto simp: only_main_def)
qed (simp add: only_main_def)

text \<open>The monitor's turn that gives the backup up: the probe succeeds, and then the main broker does not answer.\<close>

definition failed_switch :: "v1_event list" where
  "failed_switch = [V1Step 1 False, V1Step 1 True, V1Step 1 False, V1Step 1 False, V1Step 1 True] @ replicate 5 (V1Step 1 False)"

definition on_backup :: "v1 \<Rightarrow> bool" where
  "on_backup s \<longleftrightarrow> vc_using_backup s \<and> (\<exists>h. vc_client s = Some h \<and> vc_handles s = [(h, vc_backup s, True)])
     \<and> vc_threads s = [V1Load False 34, MonSleep] \<and> \<not> vc_stop s \<and> \<not> vc_exited s"

lemma failed_switch_run:
  assumes "on_backup s"
  shows "stranded (v1_run failed_switch s) \<and> vc_using_backup (v1_run failed_switch s) \<and> vc_main (v1_run failed_switch s) = vc_main s"
proof -
  obtain h where h: "vc_client s = Some h" "vc_handles s = [(h, vc_backup s, True)]" using assms by (auto simp: on_backup_def)
  define a where "a = v1_run [V1Step 1 False, V1Step 1 True, V1Step 1 False, V1Step 1 False, V1Step 1 True] s"
  define tried where "tried k x \<longleftrightarrow> vc_client x = Some (vc_next s) \<and> vc_handles x = [(vc_next s, vc_main s, False)] \<and> vc_main x = vc_main s
    \<and> vc_threads x = [V1Load False 34, MonConnect k] \<and> \<not> vc_stop x \<and> \<not> vc_exited x" for k and x :: v1
  have a: "tried 0 a"
    using assms h by (simp add: a_def tried_def on_backup_def v1_exec_def paho_disconnect_def paho_destroy_def paho_create_def set_connected_def)
  have step: "tried (k + 1) (v1_exec (V1Step 1 False) x)" if "tried k x" "k + 1 < max_retry" for k x
    using that by (simp add: tried_def v1_exec_def paho_connect_def Let_def)
  have four: "tried 4 (v1_run (replicate 4 (V1Step 1 False)) a)"
    using step [OF step [OF step [OF step [OF a]]]] by (simp add: max_retry_def eval_nat_numeral)
  have last: "stranded (v1_exec (V1Step 1 False) x) \<and> vc_using_backup (v1_exec (V1Step 1 False) x) \<and> vc_main (v1_exec (V1Step 1 False) x) = vc_main s"
    if "tried 4 x" for x
    using that by (simp add: tried_def v1_exec_def paho_connect_def Let_def max_retry_def stranded_def idle_thread_def)
  have "v1_run failed_switch s = v1_exec (V1Step 1 False) (v1_run (replicate 4 (V1Step 1 False)) a)"
    by (simp add: failed_switch_def a_def eval_nat_numeral)
  then show ?thesis using last [OF four] by simp
qed

lemma init_outcome:
  assumes "init_mqtt_with_failover True as1 True as2 (v1_start cf rx) = (ok, s)"
  defines "main_up \<equiv> True \<in> set (take max_retry as1)" and "backup_up \<equiv> True \<in> set (take max_retry as2)"
  shows "ok = (main_up \<or> backup_up) \<and> vc_using_backup s = (\<not> main_up)
    \<and> (\<exists>h. vc_client s = Some h \<and> vc_handles s = [(h, if main_up then vf_main cf else vf_backup cf, ok)])
    \<and> vc_main s = vf_main cf \<and> vc_backup s = vf_backup cf"
proof -
  define s1 where "s1 = paho_create (vf_main cf) True ((v1_start cf rx)\<lparr>vc_current := vf_main cf\<rparr>)"
  have s1: "vc_client s1 = Some 0" "vc_handles s1 = [(0, vf_main cf, False)]" "vc_next s1 = 1" "vc_main s1 = vf_main cf"
    "vc_backup s1 = vf_backup cf" "\<not> vc_using_backup s1" by (simp_all add: s1_def paho_create_def v1_start_def)
  obtain s2 where s2: "connect_broker as1 s1 = (main_up, s2)" "vc_client s2 = Some 0" "vc_handles s2 = [(0, vf_main cf, main_up)]"
    "vc_next s2 = 1" "vc_main s2 = vf_main cf" "vc_backup s2 = vf_backup cf" "\<not> vc_using_backup s2"
    using connect_broker_live [OF s1(1,2), of as1] s1 by (auto simp: main_up_def)
  show ?thesis
  proof (cases main_up)
    case True
    then show ?thesis using assms(1) s2 by (simp add: init_mqtt_with_failover_def Let_def v1_start_def [of cf rx] s1_def [symmetric, unfolded v1_start_def, simplified])
  next
    case False
    define s3 where "s3 = paho_create (vf_backup cf) True ((paho_destroy s2)\<lparr>vc_current := vf_backup cf, vc_using_backup := True\<rparr>)"
    have s3: "vc_client s3 = Some 1" "vc_handles s3 = [(1, vf_backup cf, False)]" "vc_main s3 = vf_main cf"
      "vc_backup s3 = vf_backup cf" "vc_using_backup s3" using s2 by (simp_all add: s3_def paho_create_def paho_destroy_def)
    have "init_mqtt_with_failover True as1 True as2 (v1_start cf rx) = connect_broker as2 s3"
      using s2(1) False
      by (simp add: init_mqtt_with_failover_def Let_def s3_def s1_def v1_start_def)
    then show ?thesis using assms(1) connect_broker_live [OF s3(1,2), of as2] s3 False by (auto simp: backup_up_def)
  qed
qed

definition started_on_backup :: "v1_conf \<Rightarrow> v1" where
  "started_on_backup cf = v1_serve (snd (init_mqtt_with_failover True [] True [True] (v1_start cf ''torque/rx/cam/'')))"

lemma started_on_backup_state: "on_backup (started_on_backup cf)"
proof -
  obtain ok s where i: "init_mqtt_with_failover True [] True [True] (v1_start cf ''torque/rx/cam/'') = (ok, s)" by fastforce
  have "vc_stop s = False \<and> vc_exited s = False"
  proof -
    have c: "paho_connect b x = (b', x') \<Longrightarrow> vc_stop x' = vc_stop x \<and> vc_exited x' = vc_exited x" for b x b' x'
      by (auto simp: paho_connect_def split: option.splits)
    have t: "connect_tries n as x = (b, x') \<Longrightarrow> vc_stop x' = vc_stop x \<and> vc_exited x' = vc_exited x" for n as x b x'
    proof (induction n arbitrary: as x)
      case (Suc n)
      obtain b1 x1 where p: "paho_connect (as \<noteq> [] \<and> hd as) x = (b1, x1)" by fastforce
      then have "connect_tries (Suc n) as x = (if b1 then (True, x1) else if n = 0 then (False, x1) else connect_tries n (tl as) (v1_say [V1Sleep 5] x1))"
        unfolding connect_tries.simps p by simp
      then show ?case using Suc c [OF p] by (auto split: if_splits dest: Suc.IH)
    qed simp
    have b: "connect_broker as x = (b, x') \<Longrightarrow> vc_stop x' = vc_stop x \<and> vc_exited x' = vc_exited x" for as x b x'
      by (auto simp: connect_broker_def Let_def split: if_splits prod.splits dest: t)
    show ?thesis using i
      by (auto simp: init_mqtt_with_failover_def Let_def paho_create_def paho_destroy_def v1_start_def split: prod.splits if_splits option.splits dest!: b)
  qed
  then show ?thesis using init_outcome [OF i] i
    by (auto simp: started_on_backup_def on_backup_def v1_serve_def max_retry_def)
qed

subsection \<open>The main loop and the reconnect loop\<close>

definition in_main_loop :: "v1_pc \<Rightarrow> bool" where
  "in_main_loop pc \<longleftrightarrow> (case pc of V1Load b c \<Rightarrow> True | V1Send b c h \<Rightarrow> True | _ \<Rightarrow> False)"

lemma thread_step_stop: "thread_step ob s pc = (pc', s') \<Longrightarrow> vc_stop s' = vc_stop s \<and> vc_threads s' = vc_threads s"
proof (cases pc)
  case (MonConnect k)
  assume "thread_step ob s pc = (pc', s')"
  moreover have "paho_connect ob s = (b, x) \<Longrightarrow> vc_stop x = vc_stop s \<and> vc_threads x = vc_threads s" for b x
    by (auto simp: paho_connect_def split: option.splits)
  ultimately show ?thesis using MonConnect by (auto split: prod.splits if_splits)
next
  case (RecConnect i k)
  assume "thread_step ob s pc = (pc', s')"
  moreover have "paho_connect ob s = (b, x) \<Longrightarrow> vc_stop x = vc_stop s \<and> vc_threads x = vc_threads s" for b x
    by (auto simp: paho_connect_def split: option.splits)
  ultimately show ?thesis using RecConnect by (auto split: prod.splits if_splits)
qed (auto simp: v1_cleanup_def paho_create_def paho_destroy_def paho_disconnect_def split: if_splits option.splits)

lemma main_loop_exec:
  assumes "t < length (vc_threads s)" "in_main_loop (vc_threads s ! t)" "\<not> vc_stop s" "e \<noteq> V1Signal"
  shows "t < length (vc_threads (v1_exec e s)) \<and> in_main_loop (vc_threads (v1_exec e s) ! t) \<and> \<not> vc_stop (v1_exec e s)"
proof (cases e)
  case (V1Step k ob)
  obtain pc' s' where p: "thread_step ob s (vc_threads s ! k) = (pc', s')" by (cases "thread_step ob s (vc_threads s ! k)")
  have "k = t \<Longrightarrow> in_main_loop pc'" using p assms(2,3) by (cases "vc_threads s ! t") (auto simp: in_main_loop_def split: if_splits)
  then show ?thesis using assms V1Step p thread_step_stop [OF p] by (auto simp: v1_exec_def nth_list_update)
qed (use assms in \<open>auto simp: v1_exec_def nth_append\<close>)

subsection \<open>Properties\<close>

text \<open>
  The first connection: with five attempts at each broker, it is made to the main broker if one of the first
  five succeeds, else to the backup if one of five there does, and fails otherwise; exactly one client handle
  exists then, for that broker.
\<close>

theorem v1_failover_outcome:
  assumes "init_mqtt_with_failover True as1 True as2 (v1_start cf rx) = (ok, s)"
  shows "ok = (True \<in> set (take 5 as1) \<or> True \<in> set (take 5 as2)) \<and> vc_using_backup s = (True \<notin> set (take 5 as1))
    \<and> (\<exists>h. vc_client s = Some h \<and> vc_handles s = [(h, if True \<in> set (take 5 as1) then vf_main cf else vf_backup cf, ok)])"
  using init_outcome [OF assms] by (auto simp: max_retry_def)

definition sample_v1_conf :: v1_conf where
  "sample_v1_conf = \<lparr>vf_main = ''tcp://m'', vf_backup = ''tcp://b'', vf_user = ''u'', vf_pass = ''p''\<rparr>"

theorem v1_failover_outcome_witness:
  "\<exists>s h. init_mqtt_with_failover True (replicate 9 False) True [False, True] (v1_start sample_v1_conf ''torque/rx/cam/'') = (True, s)
     \<and> vc_handles s = [(h, ''tcp://b'', True)]"
proof -
  obtain ok s where i: "init_mqtt_with_failover True (replicate 9 False) True [False, True] (v1_start sample_v1_conf ''torque/rx/cam/'') = (ok, s)"
    by fastforce
  show ?thesis using v1_failover_outcome [OF i] i by (auto simp: sample_v1_conf_def)
qed

text \<open>
  C35. The monitor can strand the camera.  It runs on the backup; a probe reaches the main broker, the monitor drops
  the backup, and then the main broker does not answer five attempts.  From then on, as long as the main broker
  stays silent and the program is not told to stop, the camera is connected to nothing and no thread tries
  anything but the main broker again, however healthy the backup is.
\<close>

theorem monitor_strands_camera:
  assumes "on_backup s" "list_all main_silent es"
  shows "(\<forall>h u. (h, u, True) \<notin> set (vc_handles (v1_run (failed_switch @ es) s)))
    \<and> (\<exists>ev. vc_out (v1_run (failed_switch @ es) s) = vc_out (v1_run failed_switch s) @ ev
         \<and> (\<forall>u ok. V1Connect u ok \<in> set ev \<longrightarrow> u = vc_main s \<and> \<not> ok))"
proof -
  note f = failed_switch_run [OF assms(1)]
  obtain ev where "stranded (v1_run es (v1_run failed_switch s))"
    "vc_out (v1_run es (v1_run failed_switch s)) = vc_out (v1_run failed_switch s) @ ev" "only_main (v1_run failed_switch s) ev"
    using stranded_run [OF conjunct1 [OF f] assms(2)] by blast
  then show ?thesis using f by (auto simp: stranded_def only_main_def)
qed

theorem monitor_strands_camera_witness:
  "\<exists>ev. vc_out (v1_run (failed_switch @ replicate 100 (V1Step 1 False)) (started_on_backup sample_v1_conf))
      = vc_out (v1_run failed_switch (started_on_backup sample_v1_conf)) @ ev
    \<and> (\<forall>ok. V1Connect ''tcp://b'' ok \<notin> set ev)"
proof -
  have m: "vc_main (started_on_backup sample_v1_conf) = ''tcp://m''"
  proof -
    obtain ok s where i: "init_mqtt_with_failover True [] True [True] (v1_start sample_v1_conf ''torque/rx/cam/'') = (ok, s)" by fastforce
    show ?thesis using init_outcome [OF i] i by (simp add: started_on_backup_def v1_serve_def sample_v1_conf_def)
  qed
  have "list_all main_silent (replicate 100 (V1Step 1 False))" by (simp add: list_all_length)
  from monitor_strands_camera [OF started_on_backup_state this, of sample_v1_conf] m show ?thesis by fastforce
qed

text \<open>
  C36. The threads share one handle without a lock.  When a connection to the backup is lost while the monitor goes
  back to the main broker, both create a client; one of the two is then in nobody's hands, and no later event
  destroys it.
\<close>

theorem threads_leak_client:
  assumes "on_backup s"
  shows "\<exists>es h. length es = 10 \<and> (\<forall>more. live_handle h (v1_run (es @ more) s) \<and> vc_client (v1_run (es @ more) s) \<noteq> Some h)"
proof -
  let ?es = "[V1Step 1 False, V1Step 1 True, V1Lost (the (vc_client s)), V1Step 2 False, V1Step 1 False, V1Step 1 False,
      V1Step 2 True, V1Step 1 True, V1Step 0 False, V1Step 0 False]"
  obtain h where h: "vc_client s = Some h" "vc_handles s = [(h, vc_backup s, True)]" using assms by (auto simp: on_backup_def)
  have "lost_handle (vc_next s) (v1_run ?es s)"
    using assms h
    by (simp add: on_backup_def v1_exec_def paho_disconnect_def paho_destroy_def paho_create_def set_connected_def lost_handle_def
        live_handle_def uri_of_def v1_publish_def)
  then have "\<forall>more. lost_handle (vc_next s) (v1_run (?es @ more) s)" using v1_run_lost by simp
  then have "length ?es = 10 \<and> (\<forall>more. live_handle (vc_next s) (v1_run (?es @ more) s) \<and> vc_client (v1_run (?es @ more) s) \<noteq> Some (vc_next s))"
    unfolding lost_handle_def by simp
  then show ?thesis by blast
qed

text \<open>A backup connection whose handle number is not used again.\<close>

definition sample_backup :: v1 where
  "sample_backup = (v1_start sample_v1_conf ''torque/rx/cam/'')\<lparr>vc_using_backup := True, vc_client := Some 1,
     vc_handles := [(1, ''tcp://b'', True)], vc_next := 2, vc_threads := [V1Load False 34, MonSleep]\<rparr>"

lemma sample_backup_on: "on_backup sample_backup"
  by (simp add: on_backup_def sample_backup_def v1_start_def sample_v1_conf_def)

theorem threads_leak_client_witness:
  "\<exists>es h. length es = 10 \<and> (\<forall>more. live_handle h (v1_run (es @ more) sample_backup))"
  using threads_leak_client [OF sample_backup_on] by blast

text \<open>
  A publication can use a destroyed client: the main loop has read the handle when the monitor destroys it.
\<close>

theorem publish_uses_destroyed_client:
  assumes "on_backup s" "vc_client s = Some h"
  shows "h \<in> set (vc_dead (v1_run [V1Step 1 False, V1Step 1 True, V1Step 0 False, V1Step 1 False, V1Step 1 False, V1Step 0 False] s))"
proof -
  have "vc_handles s = [(h, vc_backup s, True)]" using assms by (auto simp: on_backup_def)
  then show ?thesis using assms
    by (simp add: on_backup_def v1_exec_def paho_disconnect_def paho_destroy_def set_connected_def live_handle_def v1_publish_def)
qed

theorem publish_uses_destroyed_client_witness:
  "1 \<in> set (vc_dead (v1_run [V1Step 1 False, V1Step 1 True, V1Step 0 False, V1Step 1 False, V1Step 1 False, V1Step 0 False] sample_backup))"
  by (rule publish_uses_destroyed_client [OF sample_backup_on]) (simp add: sample_backup_def)

text \<open>
  The main loop does not return when a connection drops: whatever happens but the stop signal, a thread that is
  in it stays in it, in \<open>main\<close> as in the callback that entered it after a reconnect.
\<close>

theorem main_loop_never_returns:
  assumes "t < length (vc_threads s)" "in_main_loop (vc_threads s ! t)" "\<not> vc_stop s" "V1Signal \<notin> set es"
  shows "t < length (vc_threads (v1_run es s)) \<and> in_main_loop (vc_threads (v1_run es s) ! t)"
proof -
  have "t < length (vc_threads (v1_run es s)) \<and> in_main_loop (vc_threads (v1_run es s) ! t) \<and> \<not> vc_stop (v1_run es s)"
    using assms
  proof (induction es arbitrary: s)
    case (Cons e es)
    have "e \<noteq> V1Signal" using Cons.prems(4) by auto
    from main_loop_exec [OF Cons.prems(1-3) this] show ?case using Cons.IH [of "v1_exec e s"] Cons.prems(4) by simp
  qed simp
  then show ?thesis by blast
qed

theorem main_loop_never_returns_witness:
  "in_main_loop (vc_threads (v1_run (replicate 50 (V1Lost 1) @ replicate 50 (V1Step 0 True)) sample_backup) ! 0)"
  using main_loop_never_returns [of 0 sample_backup "replicate 50 (V1Lost 1) @ replicate 50 (V1Step 0 True)"]
  by (simp add: sample_backup_def v1_start_def in_main_loop_def)

text \<open>
  Without a backup address the main broker's is used for it, and after a reconnect to it the client counts as
  being on the backup; so the monitor's next probe finds the main broker reachable and drops that very connection.
\<close>

theorem missing_backup_drops_main:
  assumes "vc_backup s = vc_main s" "vc_client s = Some h" "vc_handles s = [(h, vc_main s, False)]"
    "vc_threads s = [V1Load False 34, MonSleep, RecConnect 0 0]" "\<not> vc_exited s"
  shows "vc_handles (v1_run [V1Step 2 True] s) = [(h, vc_main s, True)] \<and> vc_using_backup (v1_run [V1Step 2 True] s)
    \<and> vc_handles (v1_run [V1Step 2 True, V1Step 1 False, V1Step 1 True, V1Step 1 False] s) = [(h, vc_main s, False)]"
  using assms by (simp add: v1_exec_def paho_connect_def paho_disconnect_def set_connected_def uri_of_def)

theorem missing_backup_drops_main_witness:
  "\<exists>s :: v1. vc_backup s = vc_main s \<and> vc_using_backup (v1_run [V1Step 2 True] s) \<and> vc_handles (v1_run [V1Step 2 True] s) = [(3, vc_main s, True)]"
proof -
  let ?s = "(v1_start (sample_v1_conf\<lparr>vf_backup := ''tcp://m''\<rparr>) ''torque/rx/cam/'')\<lparr>vc_client := Some 3, vc_handles := [(3, ''tcp://m'', False)],
      vc_threads := [V1Load False 34, MonSleep, RecConnect 0 0]\<rparr>"
  have e: "vc_backup ?s = vc_main ?s" "vc_client ?s = Some 3" "vc_handles ?s = [(3, vc_main ?s, False)]"
    "vc_threads ?s = [V1Load False 34, MonSleep, RecConnect 0 0]" "\<not> vc_exited ?s" by (simp_all add: v1_start_def sample_v1_conf_def)
  show ?thesis using missing_backup_drops_main [OF e] e(1) by blast
qed

end
