(* ===== verification/JsonPrint.thy ===== *)
theory JsonPrint
  imports JsonParse
begin

text \<open>
  The printer of \<open>cJSON.c\<close>.  \<open>pb_text\<close> is what the buffer holds up to its offset; \<open>update_offset\<close>,
  which every caller runs after a value, is part of the writes.  Each step asks \<open>ensure\<close> for room and
  then stores; a store past the buffer's length is the result \<open>Overrun\<close>.  What the allocator grants is
  the argument \<open>alloc\<close>.  Two branches of \<open>print_value\<close> and \<open>print_string_ptr\<close> have no counterpart: a
  \<open>cJSON_Raw\<close> item and a string item whose \<open>valuestring\<close> is \<open>NULL\<close> are made neither by the parser nor by the
  handlers, and the type \<open>json\<close> does not have them.
\<close>

record printbuffer =
  pb_text :: string
  pb_length :: nat
  pb_depth :: nat
  pb_noalloc :: bool
  pb_format :: bool

datatype printed = Printed printbuffer | Failed | Overrun

abbreviation pb_offset :: "printbuffer \<Rightarrow> nat" where
  "pb_offset p \<equiv> length (pb_text p)"

subsection \<open>The buffer\<close>

definition ensure :: "(nat \<Rightarrow> bool) \<Rightarrow> printbuffer \<Rightarrow> nat \<Rightarrow> printbuffer option" where
  "ensure alloc p needed =
     (if pb_length p > 0 \<and> pb_offset p \<ge> pb_length p then None
      else if int needed > int_max then None
      else let needed' = needed + pb_offset p + 1 in
        if needed' \<le> pb_length p then Some p
        else if pb_noalloc p then None
        else if int needed' > int_max div 2
        then (if int needed' \<le> int_max \<and> alloc (nat int_max) then Some (p\<lparr>pb_length := nat int_max\<rparr>) else None)
        else if alloc (needed' * 2) then Some (p\<lparr>pb_length := needed' * 2\<rparr>) else None)"

text \<open>Storing \<open>w\<close> at the offset, with or without a NUL behind it.\<close>

definition store :: "string \<Rightarrow> bool \<Rightarrow> printbuffer \<Rightarrow> printed" where
  "store w nul p =
     (if pb_offset p + length w + (if nul then 1 else 0) \<le> pb_length p
      then Printed (p\<lparr>pb_text := pb_text p @ w\<rparr>) else Overrun)"

definition append_text :: "(nat \<Rightarrow> bool) \<Rightarrow> nat \<Rightarrow> string \<Rightarrow> bool \<Rightarrow> printbuffer \<Rightarrow> printed" where
  "append_text alloc needed w nul p = (case ensure alloc p needed of None \<Rightarrow> Failed | Some q \<Rightarrow> store w nul q)"

primrec and_then :: "printed \<Rightarrow> (printbuffer \<Rightarrow> printed) \<Rightarrow> printed" where
  "and_then (Printed p) f = f p"
| "and_then Failed f = Failed"
| "and_then Overrun f = Overrun"

definition set_depth :: "nat \<Rightarrow> printbuffer \<Rightarrow> printed" where
  "set_depth d p = Printed (p\<lparr>pb_depth := d\<rparr>)"

subsection \<open>Numbers and strings\<close>

text \<open>15 digits if \<open>sscanf\<close> reads the same number back, 17 otherwise; no number prints as \<open>null\<close>.\<close>

definition number_text :: "dbl \<Rightarrow> string" where
  "number_text v =
     (case v of Finite neg m \<Rightarrow>
        (let s = sprintf_g 15 v in if map_option fst (strtod s) = Some v then s else sprintf_g 17 v)
      | _ \<Rightarrow> ''null'')"

definition print_number :: "(nat \<Rightarrow> bool) \<Rightarrow> dbl \<Rightarrow> printbuffer \<Rightarrow> printed" where
  "print_number alloc v p =
     (let s = number_text v in if 25 < length s then Failed else append_text alloc (length s) s True p)"

definition hex_char :: "nat \<Rightarrow> char" where
  "hex_char n = (if n < 10 then char_of (48 + n) else char_of (87 + n))"

text \<open>How many characters more than one each character takes, and the characters.\<close>

definition escape_extra :: "char \<Rightarrow> nat" where
  "escape_extra c =
     (if c \<in> {CHR 0x22, CHR 0x5C, CHR 0x08, CHR 0x0C, CHR 0x0A, CHR 0x0D, CHR 0x09} then 1
      else if (of_char c :: nat) < 32 then 5 else 0)"

definition escape :: "char \<Rightarrow> string" where
  "escape c =
     (let n = (of_char c :: nat) in
      if 31 < n \<and> c \<noteq> CHR 0x22 \<and> c \<noteq> CHR 0x5C then [c]
      else CHR 0x5C #
        (if c = CHR 0x5C \<or> c = CHR 0x22 then [c]
         else if c = CHR 0x08 then ''b'' else if c = CHR 0x0C then ''f'' else if c = CHR 0x0A then ''n''
         else if c = CHR 0x0D then ''r'' else if c = CHR 0x09 then ''t''
         else [CHR ''u'', CHR ''0'', CHR ''0'', hex_char (n div 16), hex_char (n mod 16)]))"

definition print_string_ptr :: "(nat \<Rightarrow> bool) \<Rightarrow> string \<Rightarrow> printbuffer \<Rightarrow> printed" where
  "print_string_ptr alloc s p =
     (let extra = sum_list (map escape_extra s);
          body = (if extra = 0 then s else concat (map escape s))
      in append_text alloc (length s + extra + 3) (CHR 0x22 # body @ [CHR 0x22]) True p)"

subsection \<open>Values\<close>

fun print_value :: "(nat \<Rightarrow> bool) \<Rightarrow> json \<Rightarrow> printbuffer \<Rightarrow> printed"
and print_elements :: "(nat \<Rightarrow> bool) \<Rightarrow> json list \<Rightarrow> printbuffer \<Rightarrow> printed"
and print_members :: "(nat \<Rightarrow> bool) \<Rightarrow> (string \<times> json) list \<Rightarrow> printbuffer \<Rightarrow> printed" where
  "print_value alloc JNull p = append_text alloc 5 ''null'' True p"
| "print_value alloc (JBool b) p =
     (if b then append_text alloc 5 ''true'' True p else append_text alloc 6 ''false'' True p)"
| "print_value alloc (JNumber v) p = print_number alloc v p"
| "print_value alloc (JString s) p = print_string_ptr alloc s p"
| "print_value alloc (JArray js) p =
     and_then (append_text alloc 1 ''['' False p) (\<lambda>p1.
     and_then (set_depth (pb_depth p1 + 1) p1) (\<lambda>p2.
     and_then (print_elements alloc js p2) (\<lambda>p3.
     and_then (append_text alloc 2 '']'' True p3) (\<lambda>p4. set_depth (pb_depth p4 - 1) p4))))"
| "print_value alloc (JObject ms) p =
     and_then (append_text alloc ((if pb_format p then 2 else 1) + 1)
                 (if pb_format p then [CHR ''{'', CHR 0x0A] else ''{'') False p) (\<lambda>p1.
     and_then (set_depth (pb_depth p1 + 1) p1) (\<lambda>p2.
     and_then (print_members alloc ms p2) (\<lambda>p3.
     and_then (append_text alloc (if pb_format p3 then pb_depth p3 + 1 else 2)
                 ((if pb_format p3 then replicate (pb_depth p3 - 1) (CHR 0x09) else []) @ ''}'') True p3)
       (\<lambda>p4. set_depth (pb_depth p4 - 1) p4))))"
| "print_elements alloc [] p = Printed p"
| "print_elements alloc (j # js) p =
     and_then (print_value alloc j p) (\<lambda>p1.
     and_then (if js = [] then Printed p1
               else append_text alloc ((if pb_format p1 then 2 else 1) + 1) (if pb_format p1 then '', '' else '','') True p1) (\<lambda>p2.
     print_elements alloc js p2))"
| "print_members alloc [] p = Printed p"
| "print_members alloc ((k, j) # ms) p =
     and_then (if pb_format p then append_text alloc (pb_depth p) (replicate (pb_depth p) (CHR 0x09)) False p else Printed p) (\<lambda>p1.
     and_then (print_string_ptr alloc k p1) (\<lambda>p2.
     and_then (append_text alloc (if pb_format p2 then 2 else 1) (if pb_format p2 then [CHR '':'', CHR 0x09] else '':'') False p2) (\<lambda>p3.
     and_then (print_value alloc j p3) (\<lambda>p4.
     and_then (append_text alloc ((if pb_format p4 then 1 else 0) + (if ms = [] then 0 else 1) + 1)
                 ((if ms = [] then [] else '','') @ (if pb_format p4 then [CHR 0x0A] else [])) True p4) (\<lambda>p5.
     print_members alloc ms p5)))))"

text \<open>\<open>print\<close> records no length for the 256 bytes it starts with, so the first \<open>ensure\<close> reallocates.\<close>

definition print_json :: "(nat \<Rightarrow> bool) \<Rightarrow> bool \<Rightarrow> json \<Rightarrow> string option" where
  "print_json alloc format j =
     (if \<not> alloc 256 then None
      else case print_value alloc j \<lparr>pb_text = [], pb_length = 0, pb_depth = 0, pb_noalloc = False, pb_format = format\<rparr> of
        Printed p \<Rightarrow> if alloc (pb_length p) then Some (pb_text p) else None
      | _ \<Rightarrow> None)"

definition cJSON_Print :: "(nat \<Rightarrow> bool) \<Rightarrow> json \<Rightarrow> string option" where
  "cJSON_Print alloc j = print_json alloc True j"

definition cJSON_PrintUnformatted :: "(nat \<Rightarrow> bool) \<Rightarrow> json \<Rightarrow> string option" where
  "cJSON_PrintUnformatted alloc j = print_json alloc False j"

definition cJSON_PrintPreallocated :: "json \<Rightarrow> nat \<Rightarrow> bool \<Rightarrow> printed" where
  "cJSON_PrintPreallocated j len fmt =
     print_value (\<lambda>_. False) j \<lparr>pb_text = [], pb_length = len, pb_depth = 0, pb_noalloc = True, pb_format = fmt\<rparr>"

subsection \<open>No write outside the buffer\<close>

lemma ensure_room: "ensure alloc p needed = Some q \<Longrightarrow> pb_offset q + needed + 1 \<le> pb_length q \<and> pb_text q = pb_text p
    \<and> pb_depth q = pb_depth p \<and> pb_noalloc q = pb_noalloc p \<and> pb_format q = pb_format p
    \<and> (pb_noalloc p \<longrightarrow> q = p)"
  by (auto simp: ensure_def Let_def int_max_def split: if_splits)

definition in_bounds :: "printed \<Rightarrow> bool" where
  "in_bounds r \<longleftrightarrow> r \<noteq> Overrun"

lemma in_bounds_append [intro!]: "length w + (if nul then 1 else 0) \<le> needed + 1 \<Longrightarrow> in_bounds (append_text alloc needed w nul p)"
  by (auto simp: in_bounds_def append_text_def store_def split: option.split dest!: ensure_room)

lemma in_bounds_then [intro!]: "in_bounds r \<Longrightarrow> (\<And>q. r = Printed q \<Longrightarrow> in_bounds (f q)) \<Longrightarrow> in_bounds (and_then r f)"
  by (cases r) (auto simp: in_bounds_def)

lemma in_bounds_const [simp]: "in_bounds (Printed p)" "in_bounds Failed" "in_bounds (set_depth d p)"
  by (simp_all add: in_bounds_def set_depth_def)

lemma length_escape: "length (escape c) = 1 + escape_extra c"
  by (simp add: escape_def escape_extra_def Let_def)

lemma length_escapes: "length (concat (map escape s)) = length s + sum_list (map escape_extra s)"
  by (induction s) (simp_all add: length_escape)

lemma in_bounds_string [simp]: "in_bounds (print_string_ptr alloc s p)"
  by (auto simp: print_string_ptr_def Let_def length_escapes)

lemma in_bounds_print:
  "in_bounds (print_value alloc j p)" "in_bounds (print_elements alloc js p)" "in_bounds (print_members alloc ms p)"
  by (induction alloc j p and alloc js p and alloc ms p rule: print_value_print_elements_print_members.induct)
    (auto simp: print_number_def Let_def)

text \<open>
  C20. Printing never stores a byte past the length of its buffer, neither with a buffer that grows, whatever
  the allocator grants, nor with the caller's own (\<open>cJSON_PrintPreallocated\<close>), however small.
\<close>

theorem print_never_overruns: "print_value alloc j p \<noteq> Overrun"
  using in_bounds_print(1) by (simp add: in_bounds_def)

subsection \<open>What is printed\<close>

definition render_string :: "string \<Rightarrow> string" where
  "render_string s = CHR 0x22 # concat (map escape s) @ [CHR 0x22]"

fun render :: "bool \<Rightarrow> nat \<Rightarrow> json \<Rightarrow> string"
and render_elements :: "bool \<Rightarrow> nat \<Rightarrow> json list \<Rightarrow> string"
and render_members :: "bool \<Rightarrow> nat \<Rightarrow> (string \<times> json) list \<Rightarrow> string" where
  "render fmt d JNull = ''null''"
| "render fmt d (JBool b) = (if b then ''true'' else ''false'')"
| "render fmt d (JNumber v) = number_text v"
| "render fmt d (JString s) = render_string s"
| "render fmt d (JArray js) = ''['' @ render_elements fmt (d + 1) js @ '']''"
| "render fmt d (JObject ms) =
     (if fmt then [CHR ''{'', CHR 0x0A] else ''{'') @ render_members fmt (d + 1) ms
     @ (if fmt then replicate d (CHR 0x09) else []) @ ''}''"
| "render_elements fmt d [] = []"
| "render_elements fmt d (j # js) =
     render fmt d j @ (if js = [] then [] else if fmt then '', '' else '','') @ render_elements fmt d js"
| "render_members fmt d [] = []"
| "render_members fmt d ((k, j) # ms) =
     (if fmt then replicate d (CHR 0x09) else []) @ render_string k @ (if fmt then [CHR '':'', CHR 0x09] else '':'')
     @ render fmt d j @ (if ms = [] then [] else '','') @ (if fmt then [CHR 0x0A] else []) @ render_members fmt d ms"

text \<open>Every number's text fits the 26-byte \<open>number_buffer\<close>.\<close>

fun numbers_fit :: "json \<Rightarrow> bool" where
  "numbers_fit (JNumber v) = (length (number_text v) \<le> 25)"
| "numbers_fit (JArray js) = list_all numbers_fit js"
| "numbers_fit (JObject ms) = list_all (\<lambda>m. numbers_fit (snd m)) ms"
| "numbers_fit j = True"

definition printed_as :: "string \<Rightarrow> printbuffer \<Rightarrow> printbuffer \<Rightarrow> bool" where
  "printed_as w p q \<longleftrightarrow> pb_text q = pb_text p @ w \<and> pb_depth q = pb_depth p \<and> pb_format q = pb_format p"

lemma append_Printed: "append_text alloc needed w nul p = Printed q \<Longrightarrow> printed_as w p q"
  by (auto simp: append_text_def store_def printed_as_def split: option.splits if_splits dest!: ensure_room)

lemma escapes_id: "sum_list (map escape_extra s) = 0 \<Longrightarrow> concat (map escape s) = s"
  by (induction s) (auto simp: escape_extra_def escape_def Let_def split: if_splits)

lemma print_string_Printed: "print_string_ptr alloc s p = Printed q \<Longrightarrow> printed_as (render_string s) p q"
  using escapes_id [of s] by (auto simp: print_string_ptr_def Let_def render_string_def dest!: append_Printed split: if_splits)

lemma and_then_Printed: "and_then r f = Printed q \<longleftrightarrow> (\<exists>p. r = Printed p \<and> f p = Printed q)"
  by (cases r) auto

lemma set_depth_Printed: "set_depth d p = Printed q \<longleftrightarrow> q = p\<lparr>pb_depth := d\<rparr>"
  by (auto simp: set_depth_def)

lemma print_renders:
  "\<forall>q. print_value alloc j p = Printed q \<longrightarrow> printed_as (render (pb_format p) (pb_depth p) j) p q \<and> numbers_fit j"
  "\<forall>q. print_elements alloc js p = Printed q \<longrightarrow> printed_as (render_elements (pb_format p) (pb_depth p) js) p q \<and> list_all numbers_fit js"
  "\<forall>q. print_members alloc ms p = Printed q \<longrightarrow> printed_as (render_members (pb_format p) (pb_depth p) ms) p q
     \<and> list_all (\<lambda>m. numbers_fit (snd m)) ms"
proof (induction alloc j p and alloc js p and alloc ms p rule: print_value_print_elements_print_members.induct)
  case (5 alloc js p)
  show ?case
    by (auto simp: and_then_Printed set_depth_Printed dest!: append_Printed "5.IH" [rule_format, rotated -1]) (auto simp: printed_as_def)
next
  case (6 alloc ms p)
  have "printed_as (render (pb_format p) (pb_depth p) (JObject ms)) p q \<and> numbers_fit (JObject ms)"
    if pr: "print_value alloc (JObject ms) p = Printed q" for q
  proof -
    obtain p1 p3 p4 where st: "append_text alloc ((if pb_format p then 2 else 1) + 1) (if pb_format p then [CHR ''{'', CHR 0x0A] else ''{'') False p = Printed p1"
      "print_members alloc ms (p1\<lparr>pb_depth := pb_depth p1 + 1\<rparr>) = Printed p3"
      "append_text alloc (if pb_format p3 then pb_depth p3 + 1 else 2)
         ((if pb_format p3 then replicate (pb_depth p3 - 1) (CHR 0x09) else []) @ ''}'') True p3 = Printed p4"
      "q = p4\<lparr>pb_depth := pb_depth p4 - 1\<rparr>"
      using pr by (auto simp only: print_value.simps and_then_Printed set_depth_Printed)
    then show ?thesis using append_Printed [OF st(1)] append_Printed [OF st(3)] "6.IH" st(2)
      by (auto simp: printed_as_def)
  qed
  then show ?case by blast
next
  case (8 alloc j js p)
  have "printed_as (render_elements (pb_format p) (pb_depth p) (j # js)) p q \<and> list_all numbers_fit (j # js)"
    if pr: "print_elements alloc (j # js) p = Printed q" for q
  proof -
    obtain p1 p2 where st: "print_value alloc j p = Printed p1" "print_elements alloc js p2 = Printed q"
      "(if js = [] then Printed p1
        else append_text alloc ((if pb_format p1 then 2 else 1) + 1) (if pb_format p1 then '', '' else '','') True p1) = Printed p2"
      using pr by (auto simp only: print_elements.simps and_then_Printed)
    have "printed_as (if js = [] then [] else if pb_format p1 then '', '' else '','') p1 p2"
      using st(3) append_Printed by (auto simp: printed_as_def split: if_splits)
    moreover have "printed_as (render (pb_format p) (pb_depth p) j) p p1 \<and> numbers_fit j" using "8.IH"(1) st(1) by blast
    moreover have "printed_as (render_elements (pb_format p2) (pb_depth p2) js) p2 q \<and> list_all numbers_fit js" using "8.IH"(2) st(2) by blast
    ultimately show ?thesis by (simp add: printed_as_def)
  qed
  then show ?case by blast
next
  case (10 alloc k j ms p)
  have "printed_as (render_members (pb_format p) (pb_depth p) ((k, j) # ms)) p q \<and> list_all (\<lambda>m. numbers_fit (snd m)) ((k, j) # ms)"
    if pr: "print_members alloc ((k, j) # ms) p = Printed q" for q
  proof -
    obtain p1 p2 p3 p4 p5 where st:
      "(if pb_format p then append_text alloc (pb_depth p) (replicate (pb_depth p) (CHR 0x09)) False p else Printed p) = Printed p1"
      "print_string_ptr alloc k p1 = Printed p2"
      "append_text alloc (if pb_format p2 then 2 else 1) (if pb_format p2 then [CHR '':'', CHR 0x09] else '':'') False p2 = Printed p3"
      "print_value alloc j p3 = Printed p4"
      "append_text alloc ((if pb_format p4 then 1 else 0) + (if ms = [] then 0 else 1) + 1)
         ((if ms = [] then [] else '','') @ (if pb_format p4 then [CHR 0x0A] else [])) True p4 = Printed p5"
      "print_members alloc ms p5 = Printed q"
      using pr by (auto simp only: print_members.simps and_then_Printed)
    have p1: "printed_as (if pb_format p then replicate (pb_depth p) (CHR 0x09) else []) p p1"
      using st(1) append_Printed by (auto simp: printed_as_def split: if_splits)
    have v: "printed_as (render (pb_format p3) (pb_depth p3) j) p3 p4 \<and> numbers_fit j" using "10.IH"(1) st(4) by blast
    have m: "printed_as (render_members (pb_format p5) (pb_depth p5) ms) p5 q \<and> list_all (\<lambda>m. numbers_fit (snd m)) ms"
      using "10.IH"(2) st(6) by blast
    show ?thesis
      using p1 print_string_Printed [OF st(2)] append_Printed [OF st(3)] v append_Printed [OF st(5)] m
      by (simp add: printed_as_def)
  qed
  then show ?case by blast
qed (auto simp: print_number_def Let_def printed_as_def dest!: append_Printed print_string_Printed split: if_splits)

end
