(* ===== verification/JsonRoundtrip.thy ===== *)
theory JsonRoundtrip
  imports JsonPrint
begin

text \<open>
  What the printer of \<open>cJSON.c\<close> writes, its parser reads back: for strings, for numbers of every finite
  \<open>double\<close>, and for whole trees in both layouts.
\<close>

subsection \<open>Strings\<close>

lemma hex_digit_char: "n < 16 \<Longrightarrow> hex_digit (hex_char n) = Some (of_nat n)"
  by (auto simp: hex_digit_def hex_char_def Let_def of_char_of)

lemma utf8_ascii: "n < 128 \<Longrightarrow> utf8_encode (of_nat n) = Some [char_of n]"
proof -
  assume n: "n < 128"
  have u: "unat (of_nat n :: 32 word) = n" using n by (simp add: unat_of_nat)
  have "unat ((of_nat n :: 32 word) AND mask 7) = n"
    using n u by (simp flip: take_bit_eq_mask add: unsigned_take_bit_eq take_bit_nat_eq_self)
  moreover have "(mask 7 :: 32 word) = 0x7F" by (simp add: mask_numeral mask_Suc_exp)
  moreover have "(of_nat n :: 32 word) < 0x80" using n u by (simp add: word_less_nat_alt)
  ultimately show ?thesis by (simp add: utf8_encode_def utf8_bytes_def)
qed

lemma parse_hex4_00:
  "hex_digit x = Some (of_nat a) \<Longrightarrow> hex_digit y = Some (of_nat b) \<Longrightarrow> parse_hex4 (CHR ''0'' # CHR ''0'' # x # y # r) = of_nat (a * 16 + b)"
  by (simp add: parse_hex4_def push_bit_eq_mult hex_digit_def)

lemma control_escape:
  assumes "(of_char c :: nat) < 32"
  shows "utf16_literal_to_utf8 (CHR 0x5C # CHR ''u'' # CHR ''0'' # CHR ''0'' # hex_char (of_char c div 16) # hex_char (of_char c mod 16) # r)
     = Some ([c], 6)"
proof -
  let ?n = "of_char c :: nat"
  let ?s = "CHR 0x5C # CHR ''u'' # CHR ''0'' # CHR ''0'' # hex_char (?n div 16) # hex_char (?n mod 16) # r"
  have "parse_hex4 (drop 2 ?s) = of_nat (?n div 16 * 16 + ?n mod 16)"
    using parse_hex4_00 [OF hex_digit_char hex_digit_char, of "?n div 16" "?n mod 16" r] assms by (simp del: of_nat_add of_nat_mult)
  then have p: "parse_hex4 (drop 2 ?s) = of_nat ?n" by (simp only: div_mult_mod_eq)
  have "unat (of_nat ?n :: 32 word) = ?n" using assms by (simp add: unat_of_nat)
  then have "\<not> 0xDC00 \<le> (of_nat ?n :: 32 word)" "\<not> 0xD800 \<le> (of_nat ?n :: 32 word)"
    using assms by (simp_all add: word_le_nat_alt)
  moreover have "utf8_encode (of_nat ?n) = Some [c]" using utf8_ascii [of ?n] assms by simp
  moreover have "\<not> length ?s < 6" by simp
  ultimately show ?thesis unfolding utf16_literal_to_utf8_def Let_def p by (simp only: if_False simp_thms option.map)
qed

lemma hex_char_plain: "n < 16 \<Longrightarrow> hex_char n \<noteq> CHR 0x22 \<and> hex_char n \<noteq> CHR 0x5C"
  using hex_digit_char [of n] by (auto simp: hex_digit_def)

lemma escape_cases:
  "(31 < (of_char c :: nat) \<and> c \<noteq> CHR 0x22 \<and> c \<noteq> CHR 0x5C)
   \<or> (\<exists>d. escape c = [CHR 0x5C, d] \<and> d \<noteq> CHR ''u'' \<and> escape_char d = Some c)
   \<or> ((of_char c :: nat) < 32 \<and> escape c = [CHR 0x5C, CHR ''u'', CHR ''0'', CHR ''0'', hex_char (of_char c div 16), hex_char (of_char c mod 16)])"
  by (cases "c \<in> {CHR 0x22, CHR 0x5C, CHR 0x08, CHR 0x0C, CHR 0x0A, CHR 0x0D, CHR 0x09}")
    (auto simp: escape_def Let_def escape_char_def)

text \<open>An escaped character in front of the rest of a literal: both passes take it as one.\<close>

lemma scan_plain: "c \<noteq> CHR 0x22 \<Longrightarrow> c \<noteq> CHR 0x5C \<Longrightarrow> scan_literal (c # r) = map_option (\<lambda>(n, k). (n + 1, k)) (scan_literal r)"
  by (cases r) auto

lemma escape_passes:
  assumes "scan_literal r = Some (n, k)"
  shows "(\<exists>k'. scan_literal (escape c @ r) = Some (length (escape c) + n, k'))
    \<and> unescape (length (escape c) + n) (escape c @ r) = apfst ((#) c) (unescape n r)"
proof -
  let ?n = "of_char c :: nat"
  consider (plain) "31 < ?n" "c \<noteq> CHR 0x22" "c \<noteq> CHR 0x5C"
    | (short) d where "escape c = [CHR 0x5C, d]" "d \<noteq> CHR ''u''" "escape_char d = Some c"
    | (control) "?n < 32" "escape c = [CHR 0x5C, CHR ''u'', CHR ''0'', CHR ''0'', hex_char (?n div 16), hex_char (?n mod 16)]"
    using escape_cases [of c] by blast
  then show ?thesis
  proof cases
    case plain
    then have "escape c = [c]" by (simp add: escape_def)
    then show ?thesis using plain assms by (simp_all add: scan_plain unescape_plain)
  next
    case (short d)
    then show ?thesis using assms by (simp add: unescape_e)
  next
    case control
    have h: "hex_char (?n div 16) \<noteq> CHR 0x22 \<and> hex_char (?n div 16) \<noteq> CHR 0x5C" "hex_char (?n mod 16) \<noteq> CHR 0x22 \<and> hex_char (?n mod 16) \<noteq> CHR 0x5C"
      using control(1) by (intro hex_char_plain; simp)+
    then have "\<exists>k'. scan_literal (escape c @ r) = Some (length (escape c) + n, k')"
      using assms control(2) by (simp add: scan_plain)
    moreover have "unescape (length (escape c) + n) (escape c @ r)
        = apfst ((@) [c]) (unescape (length (escape c) + n - 6) (drop 6 (escape c @ r)))"
      by (rule unescape_u) (use control control_escape [OF control(1)] in simp_all)
    ultimately show ?thesis using control(2) by simp
  qed
qed

lemma escapes_passes:
  "(\<exists>k. scan_literal (concat (map escape s) @ CHR 0x22 # r) = Some (length (concat (map escape s)), k))
   \<and> unescape (length (concat (map escape s))) (concat (map escape s) @ CHR 0x22 # r) = (s, True)"
proof (induction s)
  case (Cons c s)
  then obtain k where k: "scan_literal (concat (map escape s) @ CHR 0x22 # r) = Some (length (concat (map escape s)), k)" by blast
  show ?case using escape_passes [OF k, of c] Cons by simp
qed (cases r; simp)

lemma parse_render_string: "CHR 0x00 \<notin> set s \<Longrightarrow> parse_string (render_string s @ r) = Some (s, r)"
  using escapes_passes [of s r] by (auto simp: parse_string_def render_string_def cstr_id)

subsection \<open>Numbers\<close>

lemma num_token:
  assumes "\<forall>c \<in> set t. num_char c" "length t \<le> 25" "num_end r"
  shows "takeWhile num_char (take 63 (t @ r)) = t"
proof -
  have "take 63 (t @ r) = t @ take (63 - length t) r" using assms(2) by simp
  moreover have "takeWhile num_char (take k r) = []" for k using assms(3) by (cases r; cases k) (auto simp: num_end_def)
  ultimately show ?thesis using assms(1) by (simp add: takeWhile_append2)
qed

lemma number_text_reads:
  assumes "double_ok v"
  shows "strtod (number_text v) = Some (v, []) \<and> (\<forall>c \<in> set (number_text v). num_char c)"
proof -
  obtain neg m where v: "v = Finite neg m" "0 \<le> m" using assms by (auto simp: double_ok_def split: dbl.splits)
  have e: "num_end []" by (simp add: num_end_def)
  obtain w where "strtod (sprintf_g 15 v) = Some (w, [])" using strtod_sprintf_g [OF v(2) _ e, of 15 neg] v(1) by auto
  moreover have "strtod (sprintf_g 17 v) = Some (v, [])" using strtod_sprintf_17 [OF assms [unfolded v(1)] e] v(1) by simp
  ultimately show ?thesis using sprintf_g_num_chars [OF v(2), of 15] sprintf_g_num_chars [OF v(2), of 17] v(1) by (auto simp: number_text_def Let_def)
qed

lemma parse_number_text:
  assumes "double_ok v" "length (number_text v) \<le> 25" "num_end r"
  shows "parse_number (number_text v @ r) = Some (v, r)"
  using number_text_reads [OF assms(1)] num_token [OF _ assms(2,3)] by (simp add: parse_number_def)

lemma g_layout_first: "\<exists>c t. g_layout P d x = c # t \<and> isdigit c"
proof -
  obtain c t where s: "show_nat d = c # t" using show_nat_not_Nil by (cases "show_nat d") auto
  moreover have "isdigit c" using s show_nat_digits [of c d] by simp
  moreover have "isdigit (CHR ''0'')" by (simp add: isdigit_def)
  ultimately show ?thesis by (auto simp: g_layout_def pointed_def Let_def)
qed

lemma number_text_first:
  assumes "double_ok v"
  shows "\<exists>c t. number_text v = c # t \<and> (c = CHR ''-'' \<or> isdigit c)"
proof -
  obtain neg m where v: "v = Finite neg m" using assms by (auto simp: double_ok_def split: dbl.splits)
  have "\<exists>c t. sprintf_g P v = c # t \<and> (c = CHR ''-'' \<or> isdigit c)" for P
    using g_layout_first [of P "fst (g_digits P m)" "snd (g_digits P m)"]
    by (auto simp: v sprintf_g_Fin sign_text_def isdigit_def split: prod.split)
  then show ?thesis by (simp add: v number_text_def Let_def)
qed

lemma length_number_text: "(case v of Finite neg m \<Rightarrow> double_ok v | _ \<Rightarrow> True) \<Longrightarrow> length (number_text v) \<le> 25"
  using length_sprintf_g [of v 15] length_sprintf_g [of v 17]
  by (auto simp: number_text_def Let_def split: dbl.splits)

lemma length_number_ok: "double_ok v \<Longrightarrow> length (number_text v) \<le> 25"
  by (rule length_number_text) (auto split: dbl.split)

subsection \<open>Trees\<close>

text \<open>A tree the printer shows in full: finite doubles and C strings.\<close>

fun printable_json :: "json \<Rightarrow> bool" where
  "printable_json (JNumber v) = double_ok v"
| "printable_json (JString s) = (CHR 0x00 \<notin> set s)"
| "printable_json (JArray js) = list_all printable_json js"
| "printable_json (JObject ms) = list_all (\<lambda>m. CHR 0x00 \<notin> set (fst m) \<and> printable_json (snd m)) ms"
| "printable_json j = True"

definition blanks :: "string \<Rightarrow> bool" where
  "blanks w \<longleftrightarrow> (\<forall>c \<in> set w. (of_char c :: nat) \<le> 32)"

lemma blanks_simps [simp]: "blanks []" "blanks (c # w) \<longleftrightarrow> (of_char c :: nat) \<le> 32 \<and> blanks w" "blanks (replicate n (CHR 0x09))"
  by (auto simp: blanks_def)

lemma skip_blanks [simp]: "blanks w \<Longrightarrow> skip_whitespace (w @ s) = skip_whitespace s"
  by (simp add: blanks_def skip_whitespace_def dropWhile_append2)

lemma skip_char: "32 < (of_char c :: nat) \<Longrightarrow> skip_whitespace (c # s) = c # s"
  by (simp add: skip_whitespace_def)

definition token_start :: "string \<Rightarrow> bool" where
  "token_start s \<longleftrightarrow> (\<exists>c t. s = c # t \<and> 32 < (of_char c :: nat) \<and> c \<noteq> CHR '']'')"

lemma skip_token: "token_start s \<Longrightarrow> skip_whitespace (s @ r) = s @ r"
  by (auto simp: token_start_def skip_char)

lemma render_first_char: "printable_json j \<Longrightarrow> token_start (render fmt e j)"
proof (cases j)
  case (JNumber v)
  assume "printable_json j"
  then have "double_ok v" using JNumber by simp
  from number_text_first [OF this] obtain c t where t: "number_text v = c # t" "c = CHR ''-'' \<or> isdigit c" by blast
  from t(2) have "32 < (of_char c :: nat) \<and> c \<noteq> CHR '']''" by (auto simp: isdigit_def)
  then show ?thesis using t(1) JNumber by (simp add: token_start_def)
qed (auto simp: token_start_def render_string_def)

definition reads_as :: "(nat \<Rightarrow> ('a \<times> string) option) \<Rightarrow> 'a \<Rightarrow> string \<Rightarrow> bool" where
  "reads_as p x r \<longleftrightarrow> (\<forall>\<^sub>F f in sequentially. p f = Some (x, r))"

lemma reads_asI: "\<forall>\<^sub>F f in sequentially. p (Suc f) = Some (x, r) \<Longrightarrow> reads_as p x r"
  unfolding reads_as_def using eventually_sequentially_Suc [of "\<lambda>f. p f = Some (x, r)"] by simp

lemma parse_value_const: "(\<And>f. parse_value (Suc f) d s = Some (j, r)) \<Longrightarrow> reads_as (\<lambda>f. parse_value f d s) j r"
  by (rule reads_asI) simp

lemma parse_keyword_none: "c \<notin> {CHR ''n'', CHR ''f'', CHR ''t''} \<Longrightarrow> parse_keyword (c # t) = None"
  by (simp add: parse_keyword_def starts_with_def)

lemma num_end_simps [simp]: "num_end (CHR '','' # r)" "num_end (CHR '']'' # r)" "num_end (CHR ''}'' # r)" "num_end (CHR 0x0A # r)" "num_end []"
  by (simp_all add: num_end_def num_char_def isdigit_def)

lemma reads_scalar:
  "reads_as (\<lambda>f. parse_value f d (''null'' @ r)) JNull r"
  "reads_as (\<lambda>f. parse_value f d (''true'' @ r)) (JBool True) r"
  "reads_as (\<lambda>f. parse_value f d (''false'' @ r)) (JBool False) r"
  "CHR 0x00 \<notin> set s \<Longrightarrow> reads_as (\<lambda>f. parse_value f d (render_string s @ r)) (JString s) r"
  "double_ok v \<Longrightarrow> length (number_text v) \<le> 25 \<Longrightarrow> num_end r \<Longrightarrow> reads_as (\<lambda>f. parse_value f d (number_text v @ r)) (JNumber v) r"
proof -
  show "reads_as (\<lambda>f. parse_value f d (''null'' @ r)) JNull r" "reads_as (\<lambda>f. parse_value f d (''true'' @ r)) (JBool True) r"
    "reads_as (\<lambda>f. parse_value f d (''false'' @ r)) (JBool False) r"
    by (rule parse_value_const, simp add: parse_keyword_def starts_with_def)+
  show "CHR 0x00 \<notin> set s \<Longrightarrow> reads_as (\<lambda>f. parse_value f d (render_string s @ r)) (JString s) r"
    using parse_render_string [of s r] by (intro parse_value_const) (simp add: render_string_def)
  assume v: "double_ok v" "length (number_text v) \<le> 25" "num_end r"
  obtain c t where t: "number_text v = c # t" "c = CHR ''-'' \<or> isdigit c" using number_text_first v(1) by blast
  then have "parse_keyword (c # t @ r) = None" "c \<noteq> CHR 0x22" by (auto intro!: parse_keyword_none simp: isdigit_def)
  then show "reads_as (\<lambda>f. parse_value f d (number_text v @ r)) (JNumber v) r"
    using parse_number_text [OF v] t by (intro parse_value_const) auto
qed

lemma reads_element:
  assumes "reads_as (\<lambda>f. parse_value f d (s @ t)) j t" "token_start s" "blanks w"
    "t = CHR '']'' # r \<and> js = [] \<or> (\<exists>u. t = CHR '','' # u \<and> reads_as (\<lambda>f. parse_elements f d u) js r)"
  shows "reads_as (\<lambda>f. parse_elements f d (w @ s @ t)) (j # js) r"
proof (rule reads_asI)
  from assms(4) have "\<forall>\<^sub>F f in sequentially. t = CHR '']'' # r \<and> js = [] \<or> (\<exists>u. t = CHR '','' # u \<and> parse_elements f d u = Some (js, r))"
    by (elim disjE exE conjE) (auto simp: reads_as_def elim: eventually_mono)
  with assms(1) [unfolded reads_as_def] show "\<forall>\<^sub>F f in sequentially. parse_elements (Suc f) d (w @ s @ t) = Some (j # js, r)"
  proof eventually_elim
    case (elim f)
    then show ?case using skip_token [OF assms(2)] assms(3) by (auto simp: skip_char)
  qed
qed

lemma reads_member:
  assumes "CHR 0x00 \<notin> set k" "reads_as (\<lambda>f. parse_value f d (s @ t)) j t" "token_start s" "blanks w" "blanks w'" "blanks w2"
    "t = w2 @ CHR ''}'' # r \<and> ms = [] \<or> (\<exists>u. t = CHR '','' # u \<and> reads_as (\<lambda>f. parse_members f d u) ms r)"
  shows "reads_as (\<lambda>f. parse_members f d (w @ render_string k @ CHR '':'' # w' @ s @ t)) ((k, j) # ms) r"
proof (rule reads_asI)
  have k: "parse_string (skip_whitespace (w @ render_string k @ u)) = Some (k, u)" for u
    using parse_render_string [OF assms(1)] assms(4) skip_char [of "CHR 0x22"] by (simp add: render_string_def)
  from assms(7) have "\<forall>\<^sub>F f in sequentially. t = w2 @ CHR ''}'' # r \<and> ms = [] \<or> (\<exists>u. t = CHR '','' # u \<and> parse_members f d u = Some (ms, r))"
    by (elim disjE exE conjE) (auto simp: reads_as_def elim: eventually_mono)
  with assms(2) [unfolded reads_as_def]
  show "\<forall>\<^sub>F f in sequentially. parse_members (Suc f) d (w @ render_string k @ CHR '':'' # w' @ s @ t) = Some ((k, j) # ms, r)"
  proof eventually_elim
    case (elim f)
    then show ?case using k skip_token [OF assms(3)] assms(5,6) by (auto simp: skip_char)
  qed
qed


lemma nesting_elements: "nesting (JArray js) \<le> k \<longleftrightarrow> 0 < k \<and> (\<forall>j \<in> set js. nesting j \<le> k - 1)"
  using foldr_max_le [of "map nesting js" "k - 1"] by (cases k) auto

lemma nesting_members: "nesting (JObject ms) \<le> k \<longleftrightarrow> 0 < k \<and> (\<forall>m \<in> set ms. nesting (snd m) \<le> k - 1)"
  using foldr_max_le [of "map (\<lambda>m. nesting (snd m)) ms" "k - 1"] by (cases k) auto

lemma skip_idem [simp]: "skip_whitespace (skip_whitespace s) = skip_whitespace s"
  by (induction s) (simp_all add: skip_whitespace_def)

lemma parse_members_skip: "parse_members f d (skip_whitespace s) = parse_members f d s"
  by (cases f) simp_all

lemma num_end_blanks: "blanks w \<Longrightarrow> num_end (w @ CHR ''}'' # r)"
  by (cases w) (auto simp: num_end_def num_char_def isdigit_def)

lemma nl_blank: "blanks (if fmt then [CHR 0x0A] else [])"
  by simp

lemma skip_members:
  assumes "ms \<noteq> []" "blanks w"
  shows "\<exists>u. skip_whitespace (w @ render_members fmt e ms @ t) = CHR 0x22 # u"
  using assms by (cases ms) (auto simp: render_string_def skip_char)

lemma reads_render:
  "printable_json j \<Longrightarrow> numbers_fit j \<Longrightarrow> nesting j + d \<le> nesting_limit \<Longrightarrow> num_end r
     \<Longrightarrow> reads_as (\<lambda>f. parse_value f d (render fmt e j @ r)) j r"
  "list_all printable_json js \<Longrightarrow> list_all numbers_fit js \<Longrightarrow> \<forall>j \<in> set js. nesting j + d \<le> nesting_limit \<Longrightarrow> js \<noteq> [] \<Longrightarrow> blanks w
     \<Longrightarrow> reads_as (\<lambda>f. parse_elements f d (w @ render_elements fmt e js @ CHR '']'' # r)) js r"
  "list_all (\<lambda>m. CHR 0x00 \<notin> set (fst m) \<and> printable_json (snd m)) ms \<Longrightarrow> list_all (\<lambda>m. numbers_fit (snd m)) ms
     \<Longrightarrow> \<forall>m \<in> set ms. nesting (snd m) + d \<le> nesting_limit \<Longrightarrow> ms \<noteq> [] \<Longrightarrow> blanks w \<Longrightarrow> blanks w2
     \<Longrightarrow> reads_as (\<lambda>f. parse_members f d (w @ render_members fmt e ms @ w2 @ CHR ''}'' # r)) ms r"
proof (induction fmt e j and fmt e js and fmt e ms arbitrary: d r and d r w and d r w w2
    rule: render_render_elements_render_members.induct)
  case (2 fmt e b)
  then show ?case using reads_scalar(2,3) by (cases b) auto
next
  case (5 fmt e js)
  have d: "d < nesting_limit" and n: "\<forall>j \<in> set js. nesting j + Suc d \<le> nesting_limit"
    using "5.prems"(3) nesting_elements [of js "nesting_limit - d"] by auto
  show ?case
  proof (cases js)
    case Nil
    have "reads_as (\<lambda>f. parse_value f d (''['' @ '']'' @ r)) (JArray []) r"
      by (rule parse_value_const) (use d in \<open>simp add: skip_char\<close>)
    then show ?thesis using Nil by simp
  next
    case (Cons j1 js1)
    have t: "token_start (render fmt (e + 1) j1)" using "5.prems"(1) Cons by (intro render_first_char) simp
    have IH: "reads_as (\<lambda>f. parse_elements f (Suc d) ([] @ render_elements fmt (e + 1) js @ CHR '']'' # r)) js r"
      by (rule "5.IH") (use "5.prems" n Cons in auto)
    obtain c u where c: "render_elements fmt (e + 1) js @ CHR '']'' # r = c # u" "32 < (of_char c :: nat)" "c \<noteq> CHR '']''"
      using t Cons by (auto simp: token_start_def)
    show ?thesis
    proof (rule reads_asI, use IH [unfolded reads_as_def] in \<open>rule eventually_mono\<close>)
      fix f assume "parse_elements f (Suc d) ([] @ render_elements fmt (e + 1) js @ CHR '']'' # r) = Some (js, r)"
      then show "parse_value (Suc f) d (render fmt e (JArray js) @ r) = Some (JArray js, r)"
        using c d by (simp add: skip_char)
    qed
  qed
next
  case (6 fmt e ms)
  have d: "d < nesting_limit" and n: "\<forall>m \<in> set ms. nesting (snd m) + Suc d \<le> nesting_limit"
    using "6.prems"(3) nesting_members [of ms "nesting_limit - d"] by auto
  let ?nl = "if fmt then [CHR 0x0A] else []" and ?tabs = "if fmt then replicate e (CHR 0x09) else []"
  let ?t = "?nl @ render_members fmt (e + 1) ms @ ?tabs @ CHR ''}'' # r"
  have s: "render fmt e (JObject ms) @ r = CHR ''{'' # ?t" by simp
  show ?case
  proof (cases "ms = []")
    case True
    have "skip_whitespace ?t = CHR ''}'' # r" using True by (simp add: skip_char)
    then show ?thesis unfolding s by (intro parse_value_const) (use True d in simp)
  next
    case False
    have IH: "reads_as (\<lambda>f. parse_members f (Suc d) ?t) ms r"
      by (rule "6.IH") (use "6.prems" n False in auto)
    obtain u where u: "skip_whitespace ?t = CHR 0x22 # u" using skip_members [OF False, of ?nl fmt "e + 1"] nl_blank [of fmt] by blast
    show ?thesis unfolding s
    proof (rule reads_asI, use IH [unfolded reads_as_def] in \<open>rule eventually_mono\<close>)
      fix f assume "parse_members f (Suc d) ?t = Some (ms, r)"
      then have "parse_members f (Suc d) (CHR 0x22 # u) = Some (ms, r)" by (simp only: parse_members_skip flip: u)
      then show "parse_value (Suc f) d (CHR ''{'' # ?t) = Some (JObject ms, r)"
        using u d by (simp del: append.simps append_assoc)
    qed
  qed
next
  case (8 fmt e j js)
  have t: "token_start (render fmt e j)" using "8.prems"(1) by (intro render_first_char) simp
  show ?case
  proof (cases "js = []")
    case True
    have "reads_as (\<lambda>f. parse_value f d (render fmt e j @ CHR '']'' # r)) j (CHR '']'' # r)"
      by (rule "8.IH"(1)) (use "8.prems" in simp_all)
    then show ?thesis using True reads_element [OF _ t "8.prems"(5), of d "CHR '']'' # r" j r "[]"] by simp
  next
    case False
    let ?sep = "if fmt then '' '' else []"
    let ?t = "CHR '','' # ?sep @ render_elements fmt e js @ CHR '']'' # r"
    have "reads_as (\<lambda>f. parse_value f d (render fmt e j @ ?t)) j ?t" by (rule "8.IH"(1)) (use "8.prems" in simp_all)
    moreover have "reads_as (\<lambda>f. parse_elements f d (?sep @ render_elements fmt e js @ CHR '']'' # r)) js r"
      by (rule "8.IH"(2)) (use "8.prems" False in simp_all)
    ultimately have "reads_as (\<lambda>f. parse_elements f d (w @ render fmt e j @ ?t)) (j # js) r"
      using reads_element [OF _ t "8.prems"(5), of d ?t j r js] by simp
    then show ?thesis using False by (cases fmt) simp_all
  qed
next
  case (10 fmt e k j ms)
  have t: "token_start (render fmt e j)" using "10.prems"(1) by (intro render_first_char) simp
  let ?nl = "if fmt then [CHR 0x0A] else []" and ?tabs = "if fmt then replicate e (CHR 0x09) else []"
    and ?tab = "if fmt then [CHR 0x09] else []"
  let ?t = "if ms = [] then (?nl @ w2) @ CHR ''}'' # r else CHR '','' # ?nl @ render_members fmt e ms @ w2 @ CHR ''}'' # r"
  have b: "blanks (w @ ?tabs)" "blanks ?tab" "blanks (?nl @ w2)" using "10.prems"(5,6) by (auto simp: blanks_def)
  have e: "num_end ?t" using num_end_blanks [OF b(3)] by simp
  have v: "reads_as (\<lambda>f. parse_value f d (render fmt e j @ ?t)) j ?t" by (rule "10.IH"(1)) (use "10.prems" e in simp_all)
  have m: "ms \<noteq> [] \<Longrightarrow> reads_as (\<lambda>f. parse_members f d (?nl @ render_members fmt e ms @ w2 @ CHR ''}'' # r)) ms r"
    by (rule "10.IH"(2)) (use "10.prems" in simp_all)
  have "reads_as (\<lambda>f. parse_members f d ((w @ ?tabs) @ render_string k @ CHR '':'' # ?tab @ render fmt e j @ ?t)) ((k, j) # ms) r"
    by (rule reads_member [OF _ v t b]) (use "10.prems"(1) m in auto)
  moreover have "(w @ ?tabs) @ render_string k @ CHR '':'' # ?tab @ render fmt e j @ ?t
      = w @ render_members fmt e ((k, j) # ms) @ w2 @ CHR ''}'' # r" by simp
  ultimately show ?case by (simp only:)
qed (use reads_scalar(1) in \<open>simp_all add: reads_scalar(4,5)\<close>)


text \<open>Printing and parsing back, in the state of the daemon's calls: what is printed is what was meant.\<close>

lemma print_json_render:
  assumes "print_json alloc fmt j = Some t"
  shows "t = render fmt 0 j \<and> numbers_fit j"
  using assms print_renders(1) [of alloc j]
  by (auto simp: print_json_def printed_as_def split: printed.splits if_splits)

interpretation string_text: codec render_string parse_string "\<lambda>s. CHR 0x00 \<notin> set s" "\<lambda>_. True"
  by unfold_locales (rule parse_render_string)

interpretation number_text: codec number_text parse_number double_ok num_end
  by unfold_locales (simp add: parse_number_text length_number_ok)

interpretation document: codec "render fmt 0" "cJSON_ParseWithOpts False"
    "\<lambda>j. printable_json j \<and> numbers_fit j \<and> nesting j \<le> nesting_limit" num_end for fmt
proof (unfold_locales, elim conjE)
  fix j r assume a: "printable_json j" "numbers_fit j" "nesting j \<le> nesting_limit" "num_end r"
  let ?t = "render fmt 0 j @ r" and ?f = "2 * length (render fmt 0 j @ r) + 2"
  have "reads_as (\<lambda>f. parse_value f 0 ?t) j r" by (rule reads_render(1)) (use a in simp_all)
  then obtain n where n: "\<forall>f \<ge> n. parse_value f 0 ?t = Some (j, r)"
    by (auto simp: reads_as_def eventually_sequentially)
  have "parse_value (max n ?f) 0 ?t = parse_value ?f 0 ?t" by (rule parse_fuel) simp_all
  then have "parse_value ?f 0 ?t = Some (j, r)" using n by (metis max.cobounded1)
  moreover have "skip_whitespace ?t = ?t" using skip_token [OF render_first_char [OF a(1)]] by simp
  ultimately show "cJSON_ParseWithOpts False ?t = Some (j, r)" by (simp add: cJSON_ParseWithOpts_def)
qed

lemma numbers_fit: "printable_json j \<Longrightarrow> numbers_fit j"
  by (induction j) (auto simp: length_number_ok list_all_iff)

end
