(* ===== verification/JsonProps.thy ===== *)
theory JsonProps
  imports JsonRoundtrip
begin

text \<open>
  What the JSON library promises its callers: the printer succeeds whenever memory does and prints the
  reference text, the parser's fuel is enough for every input, what it returns is well-formed, and a
  printed tree reads back.
\<close>

subsection \<open>Printing completes\<close>

definition growable :: "printbuffer \<Rightarrow> bool" where
  "growable p \<longleftrightarrow> \<not> pb_noalloc p \<and> (pb_length p = 0 \<or> pb_offset p < pb_length p)"

definition grants :: "(nat \<Rightarrow> bool) \<Rightarrow> bool" where
  "grants alloc \<longleftrightarrow> (\<forall>n. alloc n)"

text \<open>Half of the largest \<open>int\<close>: up to there, \<open>ensure\<close> doubles.\<close>

definition print_limit :: nat where "print_limit = 2 ^ 30 - 1"

definition completes :: "printed \<Rightarrow> string \<Rightarrow> printbuffer \<Rightarrow> bool" where
  "completes r w p \<longleftrightarrow> (\<exists>q. r = Printed q \<and> printed_as w p q \<and> growable q)"

lemma completesE:
  assumes "completes r w p"
  obtains q where "r = Printed q" "printed_as w p q" "growable q"
  using assms by (auto simp: completes_def)

lemma completes_empty: "growable p \<Longrightarrow> completes (Printed p) [] p"
  by (simp add: completes_def printed_as_def)

lemma append_completes:
  assumes "grants alloc" "growable p" "length w \<le> needed" "needed \<le> length w + 1" "pb_offset p + length w + 2 \<le> print_limit"
  shows "completes (append_text alloc needed w nul p) w p"
  using assms by (auto simp: append_text_def ensure_def store_def completes_def growable_def printed_as_def print_limit_def int_max_def grants_def Let_def)

lemma string_completes:
  assumes "grants alloc" "growable p" "pb_offset p + length (render_string s) + 2 \<le> print_limit"
  shows "completes (print_string_ptr alloc s p) (render_string s) p"
proof -
  let ?extra = "sum_list (map escape_extra s)"
  have "render_string s = CHR 0x22 # (if ?extra = 0 then s else concat (map escape s)) @ [CHR 0x22]"
    using escapes_id [of s] by (simp add: render_string_def)
  then have "print_string_ptr alloc s p = append_text alloc (length s + ?extra + 3) (render_string s) True p"
    by (simp add: print_string_ptr_def Let_def)
  then show ?thesis
    using append_completes [OF assms(1,2) _ _ assms(3), of "length s + ?extra + 3"] by (simp add: render_string_def length_escapes)
qed

lemma print_completes:
  "grants alloc \<Longrightarrow> growable p \<Longrightarrow> numbers_fit j \<Longrightarrow> pb_offset p + length (render (pb_format p) (pb_depth p) j) + 2 \<le> print_limit
     \<Longrightarrow> completes (print_value alloc j p) (render (pb_format p) (pb_depth p) j) p"
  "grants alloc \<Longrightarrow> growable p \<Longrightarrow> list_all numbers_fit js \<Longrightarrow> pb_offset p + length (render_elements (pb_format p) (pb_depth p) js) + 2 \<le> print_limit
     \<Longrightarrow> completes (print_elements alloc js p) (render_elements (pb_format p) (pb_depth p) js) p"
  "grants alloc \<Longrightarrow> growable p \<Longrightarrow> list_all (\<lambda>m. numbers_fit (snd m)) ms
     \<Longrightarrow> pb_offset p + length (render_members (pb_format p) (pb_depth p) ms) + 2 \<le> print_limit
     \<Longrightarrow> completes (print_members alloc ms p) (render_members (pb_format p) (pb_depth p) ms) p"
proof (induction alloc j p and alloc js p and alloc ms p rule: print_value_print_elements_print_members.induct)
  case (3 alloc v p)
  then show ?case by (simp add: print_number_def Let_def append_completes)
next
  case (4 alloc s p)
  then show ?case by (simp add: string_completes)
next
  case (5 alloc js p)
  obtain p1 where p1: "append_text alloc 1 ''['' False p = Printed p1" "printed_as ''['' p p1" "growable p1"
    by (rule completesE [OF append_completes [of alloc p "''[''" 1 False]]) (use "5.prems" in simp_all)
  let ?p2 = "p1\<lparr>pb_depth := pb_depth p1 + 1\<rparr>"
  have "completes (print_elements alloc js ?p2) (render_elements (pb_format p) (pb_depth p + 1) js) ?p2"
    using "5.IH" [of ?p2] "5.prems" p1 by (auto simp: printed_as_def growable_def)
  then obtain p3 where p3: "print_elements alloc js ?p2 = Printed p3" "printed_as (render_elements (pb_format p) (pb_depth p + 1) js) ?p2 p3" "growable p3"
    by (rule completesE)
  obtain p4 where p4: "append_text alloc 2 '']'' True p3 = Printed p4" "printed_as '']'' p3 p4" "growable p4"
    by (rule completesE [OF append_completes [of alloc p3 "'']''" 2 True]])
      (use "5.prems" p1(2) p3 in \<open>simp_all add: printed_as_def\<close>)
  show ?case using p1 p3 p4 by (simp add: completes_def set_depth_def printed_as_def growable_def)
next
  case (6 alloc ms p)
  let ?open = "if pb_format p then [CHR ''{'', CHR 0x0A] else ''{''"
  let ?close = "(if pb_format p then replicate (pb_depth p) (CHR 0x09) else []) @ ''}''"
  obtain p1 where p1: "append_text alloc ((if pb_format p then 2 else 1) + 1) ?open False p = Printed p1" "printed_as ?open p p1" "growable p1"
    by (rule completesE [OF append_completes [of alloc p ?open "(if pb_format p then 2 else 1) + 1" False]]) (use "6.prems" in auto)
  let ?p2 = "p1\<lparr>pb_depth := pb_depth p1 + 1\<rparr>"
  have "completes (print_members alloc ms ?p2) (render_members (pb_format p) (pb_depth p + 1) ms) ?p2"
    using "6.IH" [of ?p2] "6.prems" p1 by (auto simp: printed_as_def growable_def)
  then obtain p3 where p3: "print_members alloc ms ?p2 = Printed p3" "printed_as (render_members (pb_format p) (pb_depth p + 1) ms) ?p2 p3" "growable p3"
    by (rule completesE)
  have b: "pb_format p3 = pb_format p" "pb_depth p3 = pb_depth p + 1" using p1(2) p3(2) by (simp_all add: printed_as_def)
  obtain p4 where p4: "append_text alloc (if pb_format p then pb_depth p + 2 else 2) ?close True p3 = Printed p4"
      "printed_as ?close p3 p4" "growable p4"
    by (rule completesE [OF append_completes [of alloc p3 ?close "if pb_format p then pb_depth p + 2 else 2" True]])
      (use "6.prems" p1(2) p3 in \<open>auto simp: printed_as_def\<close>)
  show ?case using p1 p3 p4 b by (cases "pb_format p") (simp_all add: completes_def set_depth_def printed_as_def growable_def)
next
  case (8 alloc j js p)
  obtain p1 where p1: "print_value alloc j p = Printed p1" "printed_as (render (pb_format p) (pb_depth p) j) p p1" "growable p1"
    using "8.IH"(1) "8.prems" by (auto elim!: completesE)
  show ?case
  proof (cases "js = []")
    case True
    then show ?thesis using p1 by (simp add: completes_def)
  next
    case False
    let ?sep = "if pb_format p then '', '' else '',''"
    have b: "pb_format p1 = pb_format p" "pb_depth p1 = pb_depth p" using p1(2) by (simp_all add: printed_as_def)
    obtain p2 where p2: "append_text alloc ((if pb_format p then 2 else 1) + 1) ?sep True p1 = Printed p2" "printed_as ?sep p1 p2" "growable p2"
      by (rule completesE [OF append_completes [of alloc p1 ?sep "(if pb_format p then 2 else 1) + 1" True]])
        (use "8.prems" p1 False in \<open>auto simp: printed_as_def\<close>)
    have "completes (print_elements alloc js p2) (render_elements (pb_format p) (pb_depth p) js) p2"
      using "8.IH"(2) [of p2] "8.prems" p1 p2 False by (auto simp: printed_as_def)
  then obtain q where "print_elements alloc js p2 = Printed q" "printed_as (render_elements (pb_format p) (pb_depth p) js) p2 q" "growable q"
      by (rule completesE)
    then show ?thesis using p1 p2 b False by (simp add: completes_def printed_as_def)
  qed
next
  case (10 alloc k j ms p)
  let ?tabs = "if pb_format p then replicate (pb_depth p) (CHR 0x09) else []"
    and ?col = "if pb_format p then [CHR '':'', CHR 0x09] else '':''"
    and ?last = "(if ms = [] then [] else '','') @ (if pb_format p then [CHR 0x0A] else [])"
  obtain p1 where p1: "(if pb_format p then append_text alloc (pb_depth p) (replicate (pb_depth p) (CHR 0x09)) False p else Printed p) = Printed p1"
      "printed_as ?tabs p p1" "growable p1"
    using append_completes [of alloc p "replicate (pb_depth p) (CHR 0x09)" "pb_depth p" False] "10.prems"
    by (cases "pb_format p") (auto simp: printed_as_def elim!: completesE)
  obtain p2 where p2: "print_string_ptr alloc k p1 = Printed p2" "printed_as (render_string k) p1 p2" "growable p2"
    by (rule completesE [OF string_completes [of alloc p1 k]]) (use "10.prems" p1 in \<open>auto simp: printed_as_def\<close>)
  obtain p3 where p3: "append_text alloc (if pb_format p then 2 else 1) ?col False p2 = Printed p3" "printed_as ?col p2 p3" "growable p3"
    by (rule completesE [OF append_completes [of alloc p2 ?col "if pb_format p then 2 else 1" False]])
      (use "10.prems" p1(2) p2 in \<open>auto simp: printed_as_def\<close>)
  have "completes (print_value alloc j p3) (render (pb_format p) (pb_depth p) j) p3"
    using "10.IH"(1) [of p3] "10.prems" p1(2) p2(2) p3 by (auto simp: printed_as_def)
  then obtain p4 where p4: "print_value alloc j p3 = Printed p4" "printed_as (render (pb_format p) (pb_depth p) j) p3 p4" "growable p4"
    by (rule completesE)
  obtain p5 where p5: "append_text alloc ((if pb_format p then 1 else 0) + (if ms = [] then 0 else 1) + 1) ?last True p4 = Printed p5"
      "printed_as ?last p4 p5" "growable p5"
    by (rule completesE [OF append_completes [of alloc p4 ?last "(if pb_format p then 1 else 0) + (if ms = [] then 0 else 1) + 1" True]])
      (use "10.prems" p1(2) p2(2) p3(2) p4 in \<open>auto simp: printed_as_def\<close>)
  have "completes (print_members alloc ms p5) (render_members (pb_format p) (pb_depth p) ms) p5"
    using "10.IH"(2) [of p5] "10.prems" p1(2) p2(2) p3(2) p4(2) p5 by (auto simp: printed_as_def)
  then obtain q where q: "print_members alloc ms p5 = Printed q" "printed_as (render_members (pb_format p) (pb_depth p) ms) p5 q" "growable q"
    by (rule completesE)
  have b: "pb_format p2 = pb_format p" "pb_format p4 = pb_format p" using p1(2) p2(2) p3(2) p4(2) by (simp_all add: printed_as_def)
  show ?case using p1 p2 p3 p4 p5 q b by (simp add: completes_def printed_as_def)
qed (auto simp: completes_empty intro!: append_completes)

lemma print_succeeds:
  assumes "grants alloc" "printable_json j" "length (render fmt 0 j) + 2 \<le> print_limit"
  shows "print_json alloc fmt j = Some (render fmt 0 j)"
proof -
  let ?p = "\<lparr>pb_text = [], pb_length = 0, pb_depth = 0, pb_noalloc = False, pb_format = fmt\<rparr>"
  have "completes (print_value alloc j ?p) (render fmt 0 j) ?p"
    using print_completes(1) [of alloc ?p j] assms numbers_fit [OF assms(2)] by (simp add: growable_def)
  then obtain q where "print_value alloc j ?p = Printed q" "pb_text q = render fmt 0 j"
    by (auto simp: completes_def printed_as_def)
  then show ?thesis using assms(1) by (simp add: print_json_def grants_def)
qed

definition sample_tree :: json where
  "sample_tree = JArray [JNull, JObject [([CHR 0x22, CHR 0x0A], JString [CHR 0x01, CHR ''a'']), (''b'', JBool True)]]"

lemma sample_tree_ok: "printable_json sample_tree" "nesting sample_tree = 2"
    "json_ok sample_tree" "length (render False 0 sample_tree) = 34"
  by (simp_all add: sample_tree_def render_string_def escape_def)

lemma sample_tree_printed: "print_json (\<lambda>n. True) False sample_tree = Some (render False 0 sample_tree)"
  by (rule print_succeeds) (simp_all add: grants_def sample_tree_ok print_limit_def)

lemma sample_tree_read: "cJSON_Parse (render False 0 sample_tree) = Some sample_tree"
  using document.reads_all [of sample_tree False] sample_tree_ok numbers_fit [OF sample_tree_ok(1)]
  by (simp add: cJSON_Parse_def nesting_limit_def)

subsection \<open>Properties\<close>

text \<open>
  A tree of C strings and doubles is printed in full, as the reference text, whenever memory is granted
  and the text stays below half of \<open>INT_MAX\<close>: no number is too wide for its buffer and no growth step fails.
\<close>

theorem print_complete:
  assumes "grants alloc" "printable_json j" "length (render fmt 0 j) + 2 \<le> print_limit"
  shows "print_json alloc fmt j = Some (render fmt 0 j)"
  by (rule print_succeeds [OF assms])

theorem print_complete_witness: "print_json (\<lambda>n. True) False sample_tree = Some (render False 0 sample_tree)"
  by (rule print_complete) (simp_all add: grants_def sample_tree_ok print_limit_def)

text \<open>
  C14. Printing is the inverse of parsing: whatever text \<open>cJSON_Print\<close> or \<open>cJSON_PrintUnformatted\<close> returns
  for a tree of C strings and finite doubles, within the nesting limit, \<open>cJSON_Parse\<close> reads it back as
  the same tree, every double to the last bit.
\<close>

theorem json_roundtrip:
  assumes "print_json alloc fmt j = Some t" "printable_json j" "nesting j \<le> nesting_limit"
  shows "cJSON_Parse t = Some j"
  using print_json_render [OF assms(1)] document.reads_all [of j fmt] assms(2,3) by (simp add: cJSON_Parse_def)

theorem json_roundtrip_witness: "cJSON_Parse (render False 0 sample_tree) = Some sample_tree"
  by (rule json_roundtrip [OF sample_tree_printed sample_tree_ok(1)]) (simp add: sample_tree_ok nesting_limit_def)

text \<open>
  Whatever the text, a tree that \<open>cJSON_Parse\<close> returns holds C strings and doubles only and is nested
  at most 1000 deep.
\<close>

theorem cJSON_Parse_ok:
  assumes "cJSON_Parse s = Some j"
  shows "json_ok j \<and> nesting j \<le> nesting_limit"
  by (rule cJSON_Parse_json_ok [OF assms])

theorem cJSON_Parse_ok_witness: "json_ok sample_tree \<and> nesting sample_tree \<le> nesting_limit"
  by (rule cJSON_Parse_ok [OF sample_tree_read])

text \<open>
  The parser with its exhausted clauses replaced: a call that is made with no fuel left answers \<open>zv\<close>, \<open>ze\<close> or
  \<open>zm\<close>, which may be any value or a failure.  Everything else is \<open>parse_value\<close>, which is the instance that fails.
\<close>

function (sequential) parse_value_or :: "(json \<times> string) option \<Rightarrow> (json list \<times> string) option \<Rightarrow> ((string \<times> json) list \<times> string) option
      \<Rightarrow> nat \<Rightarrow> nat \<Rightarrow> string \<Rightarrow> (json \<times> string) option"
and parse_elements_or :: "(json \<times> string) option \<Rightarrow> (json list \<times> string) option \<Rightarrow> ((string \<times> json) list \<times> string) option
      \<Rightarrow> nat \<Rightarrow> nat \<Rightarrow> string \<Rightarrow> (json list \<times> string) option"
and parse_members_or :: "(json \<times> string) option \<Rightarrow> (json list \<times> string) option \<Rightarrow> ((string \<times> json) list \<times> string) option
      \<Rightarrow> nat \<Rightarrow> nat \<Rightarrow> string \<Rightarrow> ((string \<times> json) list \<times> string) option" where
  "parse_value_or zv ze zm 0 depth s = zv"
| "parse_value_or zv ze zm (Suc fuel) depth s =
     (case parse_keyword s of Some jr \<Rightarrow> Some jr
      | None \<Rightarrow> case s of [] \<Rightarrow> None
      | c # t \<Rightarrow>
          if c = CHR 0x22 then map_option (\<lambda>(w, r). (JString w, r)) (parse_string s)
          else if c = CHR ''-'' \<or> isdigit c then map_option (\<lambda>(v, r). (JNumber v, r)) (parse_number s)
          else if c = CHR ''['' then
            (if nesting_limit \<le> depth then None
             else case skip_whitespace t of [] \<Rightarrow> None
             | d # u \<Rightarrow> if d = CHR '']'' then Some (JArray [], u)
                         else map_option (\<lambda>(js, r). (JArray js, r)) (parse_elements_or zv ze zm fuel (Suc depth) (d # u)))
          else if c = CHR ''{'' then
            (if nesting_limit \<le> depth then None
             else case skip_whitespace t of [] \<Rightarrow> None
             | d # u \<Rightarrow> if d = CHR ''}'' then Some (JObject [], u)
                         else map_option (\<lambda>(ms, r). (JObject ms, r)) (parse_members_or zv ze zm fuel (Suc depth) (d # u)))
          else None)"
| "parse_elements_or zv ze zm 0 depth s = ze"
| "parse_elements_or zv ze zm (Suc fuel) depth s =
     (case parse_value_or zv ze zm fuel depth (skip_whitespace s) of None \<Rightarrow> None
      | Some (j, r) \<Rightarrow>
          (case skip_whitespace r of [] \<Rightarrow> None
           | c # t \<Rightarrow> if c = CHR '','' then map_option (\<lambda>(js, u). (j # js, u)) (parse_elements_or zv ze zm fuel depth t)
                       else if c = CHR '']'' then Some ([j], t) else None))"
| "parse_members_or zv ze zm 0 depth s = zm"
| "parse_members_or zv ze zm (Suc fuel) depth s =
     (case parse_string (skip_whitespace s) of None \<Rightarrow> None
      | Some (name, r) \<Rightarrow>
          (case skip_whitespace r of [] \<Rightarrow> None
           | c # t \<Rightarrow>
               if c \<noteq> CHR '':'' then None
               else case parse_value_or zv ze zm fuel depth (skip_whitespace t) of None \<Rightarrow> None
                 | Some (j, r') \<Rightarrow>
                     (case skip_whitespace r' of [] \<Rightarrow> None
                      | d # u \<Rightarrow>
                          if d = CHR '','' then map_option (\<lambda>(ms, v). ((name, j) # ms, v)) (parse_members_or zv ze zm fuel depth u)
                          else if d = CHR ''}'' then Some ([(name, j)], u) else None)))"
  by pat_completeness auto

termination parse_value_or
  by (relation "measure (case_sum (\<lambda>(_, _, _, f, _, _). f) (case_sum (\<lambda>(_, _, _, f, _, _). f) (\<lambda>(_, _, _, f, _, _). f)))") simp_all

lemma parse_or_fail:
  "parse_value_or None None None f d s = parse_value f d s \<and> parse_elements_or None None None f d s = parse_elements f d s
    \<and> parse_members_or None None None f d s = parse_members f d s"
proof (induction f arbitrary: d s)
  case (Suc f)
  have eq: "parse_value_or None None None f = parse_value f" "parse_elements_or None None None f = parse_elements f"
    "parse_members_or None None None f = parse_members f"
    using Suc by (simp_all add: fun_eq_iff)
  show ?case
    unfolding parse_value_or.simps parse_elements_or.simps parse_members_or.simps parse_value.simps parse_elements.simps
      parse_members.simps eq by (intro conjI refl)
qed simp

lemma parse_or_enough:
  "2 * length s + 1 \<le> f \<Longrightarrow> parse_value_or zv ze zm f d s = parse_value f d s"
  "2 * length s + 2 \<le> f \<Longrightarrow> parse_elements_or zv ze zm f d s = parse_elements f d s"
  "2 * length s + 2 \<le> f \<Longrightarrow> parse_members_or zv ze zm f d s = parse_members f d s"
proof (induction f d s and f d s and f d s rule: parse_value_parse_elements_parse_members.induct)
  case (2 fuel depth s)
  show ?case
  proof (cases "parse_keyword s")
    case None
    show ?thesis
    proof (cases s)
      case s: (Cons c t)
      show ?thesis
      proof (cases "skip_whitespace t")
        case (Cons x u)
        then have l: "2 * length (x # u) + 2 \<le> fuel" using "2.prems" s skip_length [of t] by simp
        show ?thesis
        proof (cases "c = CHR ''[''")
          case True
          then show ?thesis using "2.IH"(1) [OF None s _ _ True _ Cons _ l] None s Cons by simp
        next
          case False
          then show ?thesis
          proof (cases "c = CHR ''{''")
            case True
            then show ?thesis using "2.IH"(2) [OF None s _ _ False True _ Cons _ l] None s Cons by simp
          qed (use None s in simp)
        qed
      qed (use None s in simp)
    qed (use None in simp)
  qed simp
next
  case (4 fuel depth s)
  have "2 * length (skip_whitespace s) + 1 \<le> fuel" using "4.prems" skip_length [of s] by simp
  note IH = "4.IH"(1) [OF this]
  show ?case
  proof (cases "parse_value fuel depth (skip_whitespace s)")
    case (Some jr)
    obtain j r where jr: "jr = (j, r)" by force
    show ?thesis
    proof (cases "skip_whitespace r")
      case (Cons c t)
      have "2 * length t + 2 \<le> fuel" using item.next_char [OF Some [unfolded jr] Cons] "4.prems" by simp
      then show ?thesis using "4.IH"(2) [OF Some jr [symmetric] Cons] IH Some jr Cons by simp
    qed (use IH Some jr in simp)
  qed (use IH in simp)
next
  case (6 fuel depth s)
  show ?case
  proof (cases "parse_string (skip_whitespace s)")
    case (Some nr)
    obtain name r where nr: "nr = (name, r)" by force
    show ?thesis
    proof (cases "skip_whitespace r")
      case (Cons c t)
      note lt = literal.next_char [OF Some [unfolded nr] Cons]
      have "2 * length (skip_whitespace t) + 1 \<le> fuel" using "6.prems" skip_length [of t] lt by simp
      note IH = "6.IH"(1) [OF Some nr [symmetric] Cons _ this]
      show ?thesis
      proof (cases "c = CHR '':'' \<and> parse_value fuel depth (skip_whitespace t) \<noteq> None")
        case True
        then obtain j r' where v: "parse_value fuel depth (skip_whitespace t) = Some (j, r')" by auto
        show ?thesis
        proof (cases "skip_whitespace r'")
          case (Cons e u)
          have "2 * length u + 2 \<le> fuel" using "6.prems" item.next_char [OF v Cons] lt by simp
          then show ?thesis
            using "6.IH"(2) [OF Some nr [symmetric] \<open>skip_whitespace r = c # t\<close> _ v refl Cons] IH Some nr \<open>skip_whitespace r = c # t\<close> True v Cons
            by simp
        qed (use IH Some nr \<open>skip_whitespace r = c # t\<close> True v in simp)
      qed (use IH Some nr Cons in \<open>auto split: option.split\<close>)
    qed (use Some nr in simp)
  qed simp
qed simp_all

text \<open>
  C31. The parser always returns: started with the fuel of \<open>cJSON_ParseWithOpts\<close> it never makes a call with no
  fuel left.  Whatever such a call answered - a failure, a value, a list - and with that fuel or any more,
  the result is the same: a failure of the parser is a failure of the text.
\<close>

theorem parse_terminates:
  assumes "2 * length s + 2 \<le> f"
  shows "parse_value_or zv ze zm f 0 (skip_whitespace s) = parse_value (2 * length s + 2) 0 (skip_whitespace s)
    \<and> parse_value f 0 (skip_whitespace s) = parse_value (2 * length s + 2) 0 (skip_whitespace s)
    \<and> parse_value_or None None None g d t = parse_value g d t"
proof -
  have "length (skip_whitespace s) \<le> length s" by (simp add: skip_whitespace_def length_dropWhile_le)
  then have l: "2 * length (skip_whitespace s) + 1 \<le> 2 * length s + 2" by simp
  then have "2 * length (skip_whitespace s) + 1 \<le> f" using assms by simp
  then show ?thesis using parse_or_enough(1) parse_fuel [OF assms l] by (simp add: parse_or_fail)
qed

theorem parse_terminates_witness:
  "parse_value_or (Some (JNull, '']'')) None None 6 0 (skip_whitespace ''[1'') = parse_value 6 0 (skip_whitespace ''[1'')"
  using parse_terminates [of "''[1''" 6 "Some (JNull, '']'')" None None 0 0 "[]"] by simp

lemma hex4_loop_bad: "\<exists>c \<in> set h. hex_digit c = None \<Longrightarrow> hex4_loop h a = 0"
  by (induction h arbitrary: a) (auto split: option.split)

definition literal_plain :: "string \<Rightarrow> bool" where
  "literal_plain w \<longleftrightarrow> (\<forall>c \<in> set w. c \<noteq> CHR 0x22 \<and> c \<noteq> CHR 0x5C \<and> c \<noteq> CHR 0x00)"

lemma scan_literal_plain: "literal_plain w \<Longrightarrow> scan_literal (w @ r) = map_option (\<lambda>(n, k). (length w + n, k)) (scan_literal r)"
proof (induction w)
  case Nil
  then show ?case by (cases "scan_literal r") auto
next
  case (Cons c w)
  then show ?case by (cases "scan_literal r") (auto simp: literal_plain_def scan_plain)
qed

lemma unescape_plains: "literal_plain w \<Longrightarrow> unescape (length w + n) (w @ r) = apfst ((@) w) (unescape n r)"
  by (induction w) (auto simp: literal_plain_def unescape_plain apfst_def map_prod_def split: prod.split)

text \<open>
  An escape \<open>\u\<close> whose four characters are not all hexadecimal digits is not an error: it stands for a
  NUL, and the string ends there for every reader of \<open>valuestring\<close>, whatever follows it.
\<close>

theorem bad_unicode_escape_cuts_string:
  assumes "literal_plain a" "literal_plain h" "literal_plain b" "length h = 4" "\<exists>c \<in> set h. hex_digit c = None"
  shows "parse_string (CHR 0x22 # a @ CHR 0x5C # CHR ''u'' # h @ b @ CHR 0x22 # r) = Some (a, r)"
proof -
  let ?u = "CHR 0x5C # CHR ''u'' # h @ b @ CHR 0x22 # r" and ?n = "6 + length b"
  have e: "scan_literal (CHR 0x22 # r) = Some (0, 0)" by (cases r) simp_all
  have s: "scan_literal (h @ b @ CHR 0x22 # r) = Some (4 + length b, 0)"
    using scan_literal_plain [OF assms(2)] scan_literal_plain [OF assms(3)] e assms(4) by simp
  then have "scan_literal ?u = Some (?n, 1)" by simp
  then have scan: "scan_literal (a @ ?u) = Some (length a + ?n, 1)" using scan_literal_plain [OF assms(1)] by simp
  have t: "take ?n ?u = CHR 0x5C # CHR ''u'' # h @ b"
    using assms(4) take_append [of ?n "CHR 0x5C # CHR ''u'' # h @ b" "CHR 0x22 # r"] by simp
  have "parse_hex4 (drop 2 (take ?n ?u)) = 0"
    unfolding t using hex4_loop_bad [OF assms(5), of 0] assms(4) by (simp add: parse_hex4_def)
  moreover have "utf8_encode 0 = Some [CHR 0x00]" using utf8_ascii [of 0] by (simp add: char_of_def)
  ultimately have "utf16_literal_to_utf8 (take ?n ?u) = Some ([CHR 0x00], 6)" using assms(4)
    unfolding t by (simp add: utf16_literal_to_utf8_def)
  then have "unescape ?n ?u = apfst ((@) [CHR 0x00]) (unescape (?n - 6) (drop 6 ?u))" by (rule unescape_u) simp_all
  moreover have "drop 6 ?u = b @ CHR 0x22 # r" using assms(4) by simp
  moreover have "unescape (length b + 0) (b @ CHR 0x22 # r) = (b, True)" using unescape_plains [OF assms(3), of 0] by simp
  ultimately have "unescape ?n ?u = (CHR 0x00 # b, True)" by simp
  then have "unescape (length a + ?n) (a @ ?u) = (a @ CHR 0x00 # b, True)" using unescape_plains [OF assms(1), of ?n] by simp
  moreover have "cstr (a @ CHR 0x00 # b) = a" using assms(1) by (auto simp: cstr_def literal_plain_def takeWhile_append2)
  moreover have "drop (7 + length b) ?u = r"
    using assms(4) drop_append [of "7 + length b" "CHR 0x5C # CHR ''u'' # h @ b @ [CHR 0x22]" r] by simp
  ultimately show ?thesis using scan assms(4) by (simp add: parse_string_def)
qed

theorem bad_unicode_escape_cuts_string_witness:
  "parse_string (CHR 0x22 # ''ab'' @ CHR 0x5C # CHR ''u'' # ''00g1'' @ ''cd'' @ CHR 0x22 # []) = Some (''ab'', [])"
  by (rule bad_unicode_escape_cuts_string) (simp_all add: literal_plain_def hex_digit_def)

end
