(* ===== verification/Legacy.thy ===== *)
theory Legacy
  imports JsonPrint Creds
begin

text \<open>
  The common part of the legacy handlers (\<open>legacy_cases.c\<close>): their file-scope state and the helpers
  every case is made of - publishing an answer, calling the camera's web server, cleaning a response,
  saving a file, the WebSocket of the two-way audio, and the telemetry.  What the handlers do to the
  outside is the list \<open>lg_out\<close>, oldest first; what the outside answers (libcurl, the file system, the
  shell, sockets) is passed in.  \<open>lg_response\<close> is the C string in \<open>response[8192]\<close>, a buffer that all
  handlers share and that outlives a call.
\<close>

subsection \<open>State and effects\<close>

datatype lg_ev =
    HttpCall http_call
  | Publish int string string
  | System string
  | WriteFile string string
  | Pause nat
  | RawRequest string
  | AudioOpen int
  | AudioSent int string
  | AudioClose int
  | ReportConnected int
  | Subscribed string

record legacy =
  lg_client :: "int option"
  lg_topic_receive :: string
  lg_topic_send :: string
  lg_host :: string
  lg_user :: string
  lg_pass :: string
  lg_response :: string
  lg_creds :: creds
  lg_ini_count :: nat
  lg_last_status :: string
  lg_offline_handled :: bool
  lg_audio :: int
  lg_prev_idle :: "32 word"
  lg_prev_total :: "32 word"
  lg_out :: "lg_ev list"

definition legacy_init :: legacy where
  "legacy_init = \<lparr>lg_client = None, lg_topic_receive = [], lg_topic_send = [], lg_host = [], lg_user = [],
     lg_pass = [], lg_response = [], lg_creds = creds_init, lg_ini_count = 0, lg_last_status = [],
     lg_offline_handled = False, lg_audio = -1, lg_prev_idle = 0, lg_prev_total = 0, lg_out = []\<rparr>"

definition emit :: "lg_ev \<Rightarrow> legacy \<Rightarrow> legacy" where
  "emit e st = st\<lparr>lg_out := lg_out st @ [e]\<rparr>"

text \<open>\<open>ap2p_legacy_init\<close>: the connection is wired into the handlers.\<close>

definition ap2p_legacy_init :: "int option \<Rightarrow> string \<Rightarrow> string \<Rightarrow> string \<Rightarrow> string \<Rightarrow> legacy \<Rightarrow> legacy" where
  "ap2p_legacy_init client node url user pass st =
     st\<lparr>lg_client := client,
        lg_topic_receive := bcopy 50 (''torque/rx/'' @ node @ ''/''),
        lg_topic_send := bcopy 50 (''torque/tx/'' @ node @ ''/''),
        lg_host := bcopy 128 url, lg_user := bcopy 64 user, lg_pass := bcopy 64 pass\<rparr>"

subsection \<open>Helpers\<close>

definition printable :: "char \<Rightarrow> bool" where
  "printable c \<longleftrightarrow> 32 \<le> (of_char c :: nat) \<and> (of_char c :: nat) \<le> 126"

definition sanitize_response :: "string \<Rightarrow> string" where
  "sanitize_response s = map (\<lambda>c. if printable c then c else CHR '' '') s"

definition save_file_from_message :: "bool \<Rightarrow> string \<Rightarrow> string option \<Rightarrow> legacy \<Rightarrow> legacy" where
  "save_file_from_message opened path payload st =
     (case payload of None \<Rightarrow> st
      | Some bytes \<Rightarrow> if opened then emit (WriteFile path bytes) st else st)"

definition publish_mqtt_message :: "int option \<Rightarrow> string \<Rightarrow> int \<Rightarrow> legacy \<Rightarrow> legacy" where
  "publish_mqtt_message client msg n st =
     (case client of None \<Rightarrow> st
      | Some h \<Rightarrow> emit (Publish h (bcopy 256 (lg_topic_send st @ show_int n)) msg) st)"

text \<open>A call of the camera's web server whose answer goes to the shared buffer.\<close>

definition https :: "curl_ans \<Rightarrow> string \<Rightarrow> http_method \<Rightarrow> string \<Rightarrow> legacy \<Rightarrow> int \<times> legacy" where
  "https ans endpoint m body st =
     (case send_https_request (lg_creds st) ans endpoint m body (lg_response st) 8192 of
        (rc, resp, call) \<Rightarrow>
          (rc, st\<lparr>lg_response := cstr resp,
                  lg_out := lg_out st @ (case call of None \<Rightarrow> [] | Some c \<Rightarrow> [HttpCall c])\<rparr>))"

text \<open>The tail nearly every case ends with: clean the shared buffer in place and publish it.\<close>

definition answer :: "int option \<Rightarrow> int \<Rightarrow> legacy \<Rightarrow> legacy" where
  "answer client n st =
     (let r = sanitize_response (lg_response st)
      in publish_mqtt_message client r n (st\<lparr>lg_response := r\<rparr>))"

definition ask :: "curl_ans \<Rightarrow> int option \<Rightarrow> string \<Rightarrow> http_method \<Rightarrow> string \<Rightarrow> int \<Rightarrow> legacy \<Rightarrow> legacy" where
  "ask ans client endpoint m body n st = answer client n (snd (https ans endpoint m body st))"

subsection \<open>The camera's own sockets\<close>

text \<open>\<open>so_recv\<close>: the bytes one \<open>recv\<close> of at most the buffer size returned, none for an error.\<close>

record sock_obs =
  so_socket :: "int option"
  so_connected :: bool
  so_sent :: bool
  so_recv :: "string option"

definition eol :: string where "eol = [CHR 0x0D, CHR 0x0A]"

definition ptz_request_text :: "string \<Rightarrow> string \<Rightarrow> string" where
  "ptz_request_text act auth = bcopy 2048
     (''PUT /cgi-bin/hi3510/ptzctrl.cgi?-step=0&-act='' @ act @ ''&-speed=6&-presetNUM=1 HTTP/1.1'' @ eol
      @ ''Host: 127.0.0.1'' @ eol
      @ ''User-Agent: Mozilla/5.0 (X11; Ubuntu; Linux x86_64; rv:132.0) Gecko/20100101 Firefox/132.0'' @ eol
      @ ''Accept: */*'' @ eol
      @ ''Authorization: '' @ auth @ eol
      @ ''X-Requested-With: XMLHttpRequest'' @ eol
      @ ''Origin: http://127.0.0.1'' @ eol
      @ ''Connection: keep-alive'' @ eol
      @ ''Referer: http://127.0.0.1/view.html'' @ eol
      @ ''Content-Length: 0'' @ eol @ eol)"

definition send_PTZ_request :: "sock_obs \<Rightarrow> string \<Rightarrow> legacy \<Rightarrow> legacy" where
  "send_PTZ_request ob act st =
     (if so_socket ob = None \<or> \<not> so_connected ob \<or> \<not> so_sent ob then st
      else emit (RawRequest (ptz_request_text act (get_cam_auth_basic (lg_creds st) 256))) st)"

definition method_name :: "http_method \<Rightarrow> string" where
  "method_name m = (case m of GET \<Rightarrow> ''GET'' | PUT \<Rightarrow> ''PUT'' | POST \<Rightarrow> ''POST'')"

definition case40_text :: "string \<Rightarrow> string \<Rightarrow> http_method \<Rightarrow> string \<Rightarrow> string \<Rightarrow> string" where
  "case40_text ip url m auth data = bcopy 4096
     (method_name m @ '' '' @ url @ '' HTTP/1.1'' @ eol
      @ ''Host: '' @ ip @ eol
      @ ''User-Agent: CustomClient/1.0'' @ eol
      @ ''Content-Type: application/x-www-form-urlencoded'' @ eol
      @ ''Authorization: '' @ auth @ eol
      @ ''Content-Length: '' @ show_nat (length data) @ eol
      @ ''Connection: close'' @ eol @ eol @ data)"

definition send_https_request_case40 :: "sock_obs \<Rightarrow> string \<Rightarrow> string \<Rightarrow> http_method \<Rightarrow> string \<Rightarrow> legacy \<Rightarrow> legacy" where
  "send_https_request_case40 ob ip url m data st =
     (if so_socket ob = None \<or> \<not> so_connected ob \<or> \<not> so_sent ob then st
      else (emit (RawRequest (case40_text ip url m (get_cam_auth_basic (lg_creds st) 256) data)) st)
             \<lparr>lg_response := (case so_recv ob of None \<Rightarrow> [] | Some r \<Rightarrow> cstr (take 8191 r))\<rparr>)"

subsection \<open>Two-way audio over a WebSocket\<close>

definition byte :: "nat \<Rightarrow> char" where
  "byte n = char_of n"

definition ws_frame :: "string \<Rightarrow> string option" where
  "ws_frame data =
     (let n = length data;
          head = (if n \<le> 125 then [byte 0x82, byte n]
                  else [byte 0x82, byte 126, byte (n div 256 mod 256), byte (n mod 256)])
      in if length head + n > 1024 then None else Some (head @ data))"

definition perform_handshake :: "sock_obs \<Rightarrow> bool" where
  "perform_handshake ob =
     (so_sent ob \<and> (case so_recv ob of None \<Rightarrow> False
                     | Some r \<Rightarrow> strstr (cstr (take 1023 r)) ''101 Switching Protocols'' \<noteq> None))"

text \<open>Opening the socket of case 56: a socket that fails later is closed again.\<close>

definition audio_open :: "sock_obs \<Rightarrow> legacy \<Rightarrow> bool \<times> legacy" where
  "audio_open ob st =
     (case so_socket ob of None \<Rightarrow> (False, st\<lparr>lg_audio := -1\<rparr>)
      | Some s \<Rightarrow>
          (let st1 = emit (AudioOpen s) (st\<lparr>lg_audio := s\<rparr>) in
           if \<not> so_connected ob \<or> \<not> perform_handshake ob
           then (False, emit (AudioClose s) (st1\<lparr>lg_audio := -1\<rparr>))
           else (True, st1)))"

definition send_websocket_frame :: "string \<Rightarrow> legacy \<Rightarrow> legacy" where
  "send_websocket_frame data st =
     (case ws_frame data of None \<Rightarrow> st | Some f \<Rightarrow> emit (AudioSent (lg_audio st) f) st)"

definition case_56 :: "sock_obs \<Rightarrow> string \<Rightarrow> legacy \<Rightarrow> legacy" where
  "case_56 ob payload st =
     (case (if lg_audio st = -1 then audio_open ob st else (True, st)) of
        (False, st1) \<Rightarrow> st1
      | (True, st1) \<Rightarrow>
          (let st2 = send_websocket_frame payload st1 in
           if payload = ''Streamend'' then emit (AudioClose (lg_audio st2)) (st2\<lparr>lg_audio := -1\<rparr>) else st2))"

subsection \<open>Telemetry\<close>

text \<open>
  \<open>/proc/stat\<close> as \<open>sscanf\<close> returns its first line: user, nice, system, idle, iowait, irq, softirq,
  steal, each an \<open>unsigned long\<close> of 32 bits on the target.  \<open>Inl ()\<close> is the C result -1.  The usage is
  computed in \<open>float\<close> but for the multiplication by \<open>100.0\<close>.
\<close>

definition cpu_percent :: "32 word \<Rightarrow> 32 word \<Rightarrow> dbl" where
  "cpu_percent idle_diff total_diff =
     (let busy = float_of (1 - rat_of (float_of (rat_of (float_of (of_nat (unat idle_diff))) / rat_of (float_of (of_nat (unat total_diff))))))
      in float_of (rat_of (double_of (rat_of busy * 100))))"

definition get_cpu_usage :: "32 word list option \<Rightarrow> legacy \<Rightarrow> (unit + dbl) \<times> legacy" where
  "get_cpu_usage stat st =
     (case stat of None \<Rightarrow> (Inl (), st)
      | Some v \<Rightarrow>
          (let idle_time = v ! 3 + v ! 4; total_time = sum_list (take 8 v);
               st' = st\<lparr>lg_prev_idle := idle_time, lg_prev_total := total_time\<rparr>
           in if total_time - lg_prev_total st = 0 then (Inr (Finite False 0), st')
              else (Inr (cpu_percent (idle_time - lg_prev_idle st) (total_time - lg_prev_total st)), st')))"

record statvfs =
  f_blocks :: "32 word"
  f_bfree :: "32 word"
  f_frsize :: "32 word"

record sys_obs =
  sy_temp :: "string option"
  sy_sd :: "statvfs option"
  sy_stat :: "32 word list option"
  sy_alloc :: "nat \<Rightarrow> bool"

definition sd_megabytes :: "32 word \<Rightarrow> 32 word \<Rightarrow> 32 word" where
  "sd_megabytes blocks frsize = (blocks * frsize) div (1024 * 1024)"

definition system_info_json :: "int \<Rightarrow> 32 word \<Rightarrow> 32 word \<Rightarrow> dbl \<Rightarrow> json" where
  "system_info_json temp total_size free_size cpu =
     (let used_size = total_size - free_size;
          used_percentage = div_double (100 * of_nat (unat used_size)) (of_nat (unat total_size));
          sd_card = cJSON_AddNumberToObject (cJSON_AddNumberToObject (cJSON_AddNumberToObject (cJSON_AddNumberToObject
            cJSON_CreateObject ''Total'' (Finite False (of_nat (unat total_size)))) ''Used'' (Finite False (of_nat (unat used_size))))
            ''Free'' (Finite False (of_nat (unat free_size)))) ''Used_Percentage'' used_percentage;
          temperature = float_of (rat_of (double_of (of_int temp / 1000)))
      in cJSON_AddNumberToObject (cJSON_AddItemToObject
           (cJSON_AddNumberToObject cJSON_CreateObject ''Temperature_C'' temperature) ''SD_Card'' sd_card) ''CPU'' cpu)"

definition get_system_info :: "sys_obs \<Rightarrow> legacy \<Rightarrow> string option \<times> legacy" where
  "get_system_info ob st =
     (case Option.bind (sy_temp ob) (fgets 20) of None \<Rightarrow> (None, st)
      | Some (t, _) \<Rightarrow>
          (case sy_sd ob of None \<Rightarrow> (None, st)
           | Some sd \<Rightarrow>
               (let total_size = sd_megabytes (f_blocks sd) (f_frsize sd);
                    free_size = sd_megabytes (f_bfree sd) (f_frsize sd)
                in case get_cpu_usage (sy_stat ob) st of
                     (Inl _, st') \<Rightarrow> (None, st')
                   | (Inr cpu, st') \<Rightarrow>
                       if rat_of cpu < 0 then (None, st')
                       else (Some (case cJSON_PrintUnformatted (sy_alloc ob) (system_info_json (atoi t) total_size free_size cpu) of
                                     None \<Rightarrow> ''{}'' | Some s \<Rightarrow> bcopy 256 s), st'))))"

definition quoted_text :: "string \<Rightarrow> string" where
  "quoted_text s = CHR 0x22 # s @ [CHR 0x22]"

definition fallback_heartbeat :: string where
  "fallback_heartbeat = CHR ''{'' # quoted_text ''keepalive'' @ '':true,'' @ quoted_text ''telemetry'' @ '':''
     @ quoted_text ''unavailable'' @ ''}''"

definition handle_case_0 :: "sys_obs \<Rightarrow> legacy \<Rightarrow> legacy" where
  "handle_case_0 ob st =
     (let (info, st1) = get_system_info ob st;
          msg = (case info of None \<Rightarrow> fallback_heartbeat | Some i \<Rightarrow> if i = [] then fallback_heartbeat else bcopy 8192 i)
      in publish_mqtt_message (lg_client st1) msg 0 (st1\<lparr>lg_response := msg\<rparr>))"

end
