(* ===== verification/LegacyCases.thy ===== *)
theory LegacyCases
  imports Legacy
begin

text \<open>
  The dispatcher of the legacy handlers, \<open>legacy_message_arrived\<close> in \<open>legacy_cases.c\<close>.  Most cases do
  one of three things and stand in tables, in the order of the source: \<open>Ask\<close> calls an endpoint of the
  camera's web server and publishes the answer (with the payload as body, or an empty one), \<open>AskCopy\<close>
  first copies the payload into a block it allocates, and \<open>NotSupported\<close> publishes a fixed text.  The
  others have a definition of their own.
\<close>

subsection \<open>The table-driven cases\<close>

datatype simple_case = Ask string http_method bool | AskCopy string | NotSupported

definition cases_2_18 :: "(int \<times> simple_case) list" where
  "cases_2_18 = [
    (2, Ask ''/netsdk/video/encode/channel/101'' GET False),
    (3, NotSupported),
    (4, Ask ''/netsdk/Network/Interface/1'' GET False),
    (5, Ask ''/netsdk/Network/Dns'' GET False),
    (6, Ask ''/netsdk/video/input/channel/1'' GET False),
    (7, Ask ''/netsdk/System/deviceInfo/macAddress'' GET False),
    (8, Ask ''/netsdk/system/deviceinfo'' GET False),
    (9, Ask ''/NetSDK/System/time/localTime'' GET False),
    (10, Ask ''/NetSDK/Video/motionDetection/channel/1'' GET False),
    (11, Ask ''/NetSdk/V2/Alarm'' GET False),
    (12, NotSupported), (13, NotSupported), (14, NotSupported), (15, NotSupported),
    (16, NotSupported), (17, NotSupported), (18, NotSupported)]"

definition cases_19_33 :: "(int \<times> simple_case) list" where
  "cases_19_33 = [
    (19, Ask ''/netsdk/video/encode/channel/101'' PUT True),
    (20, Ask ''/netsdk/video/input/channel/1'' PUT True),
    (21, Ask ''/netsdk/image'' PUT True),
    (22, NotSupported),
    (23, Ask ''/netsdk/system/time/ntp'' PUT True),
    (24, Ask ''/NetSDK/Video/motionDetection/channel/1'' PUT True),
    (25, Ask ''/NetSdk/V2/Alarm'' PUT True),
    (26, Ask ''/NetSdk/V2/Image/DWDR'' PUT True),
    (27, Ask ''/NetSDK/Video/humanDetect/'' PUT True),
    (28, Ask ''/NetSdk/V2/AI/FaceDetect'' PUT True),
    (29, Ask ''/NetSdk/V2/AI/LineCrossDetect'' PUT True),
    (30, Ask ''/NetSdk/V2/AI/HumanCounter'' PUT True),
    (31, Ask ''/NetSDK/V2/AI/RegionDetect'' PUT True),
    (32, Ask ''/NetSDK/V2/AI/UnattendedObjDetect'' PUT True),
    (33, Ask ''/NetSDK/V2/AI/ObjRemoveDetect'' PUT True)]"

definition cases_34_35 :: "(int \<times> simple_case) list" where
  "cases_34_35 = [
    (34, NotSupported),
    (35, Ask ''/netsdk/system/deviceinfo'' GET False)]"

definition cases_38_39 :: "(int \<times> simple_case) list" where
  "cases_38_39 = [
    (38, Ask ''/netsdk/image'' GET False),
    (39, Ask ''/netsdk/video/encode/channel/102'' GET False)]"

definition cases_41_48 :: "(int \<times> simple_case) list" where
  "cases_41_48 = [
    (41, Ask ''/netsdk/system/operation/reboot'' PUT True),
    (42, Ask ''/netsdk/audio/encode/channel/101'' GET True),
    (43, Ask ''/netsdk/audio/encode/channel/101'' PUT True),
    (44, NotSupported),
    (45, Ask ''/NetSdk/V2/Protocol/CustomEventServer'' PUT True),
    (46, Ask ''/NetSdk/V2/Protocol/CustomEventServer'' GET True),
    (47, Ask ''/NetSdk/V2/Protocol/CustomEventServer'' PUT True),
    (48, AskCopy ''/netsdk/R.SearchRecord'')]"

definition cases_52 :: "(int \<times> simple_case) list" where
  "cases_52 = [(52, Ask ''/NetSDK/PTZ/channel/1/setup'' GET False)]"

definition cases_54_55 :: "(int \<times> simple_case) list" where
  "cases_54_55 = [
    (54, Ask ''/NetSdk/V2/Alarm'' GET False),
    (55, AskCopy ''/NetSdk/V2/Alarm'')]"

definition cases_58_66 :: "(int \<times> simple_case) list" where
  "cases_58_66 = [
    (58, Ask ''/netsdk/system/time/ntp'' GET False),
    (59, Ask ''/NetSDK/System/time/timeZone'' PUT True),
    (60, Ask ''/NetSDK/System/time/localTime'' PUT True),
    (61, Ask ''/NetSDK/System/time/timeZone'' GET True),
    (62, Ask ''/NetAPI/SmartDetect/Human'' GET False),
    (63, Ask ''/NetAPI/SmartDetect/Human'' PUT True),
    (64, Ask ''/NetAPI/SmartDetect/Motion'' GET False),
    (65, Ask ''/NetAPI/SmartDetect/Motion'' PUT True),
    (66, Ask ''/NetAPI/SmartDetect/Tamper'' GET False)]"

definition cases_68_69 :: "(int \<times> simple_case) list" where
  "cases_68_69 = [
    (68, Ask ''/NetAPI/User/List'' GET False),
    (69, Ask ''/NetSDK/SDCard/status2'' GET False)]"

definition cases_72_78 :: "(int \<times> simple_case) list" where
  "cases_72_78 = [
    (72, Ask ''/NetAPI/SmartDetect/Tamper'' PUT True),
    (73, Ask ''/NetAPI/System'' GET False),
    (74, Ask ''/NetAPI/System'' PUT True),
    (75, Ask ''/NetSdk/Rtmp'' GET False),
    (76, Ask ''/NetSdk/Rtmp'' PUT True),
    (77, Ask ''/NetAPI/Protocol/RTSPServer'' GET False),
    (78, Ask ''/NetAPI/Protocol/RTSPServer'' PUT True)]"

definition cases_81_83 :: "(int \<times> simple_case) list" where
  "cases_81_83 = [
    (81, Ask ''/NetAPI/SmartDetect/Tamper'' GET False),
    (83, Ask ''/NetAPI/R.Sync.Stat.NetWork'' GET False)]"

definition simple_cases :: "int \<Rightarrow> simple_case option" where
  "simple_cases n = map_of (cases_2_18 @ cases_19_33 @ cases_34_35 @ cases_38_39 @ cases_41_48 @ cases_52 @ cases_54_55
     @ cases_58_66 @ cases_68_69 @ cases_72_78 @ cases_81_83) n"

definition unsupported_text :: string where
  "unsupported_text = CHR ''{'' # quoted_text ''Data'' @ '': '' @ quoted_text ''not supported in your product'' @ ''}''"

text \<open>\<open>safe\<close> is the payload as a C string; \<open>alloc\<close> tells whether the handler's own allocation succeeds.\<close>

definition run_simple :: "simple_case \<Rightarrow> bool \<Rightarrow> curl_ans \<Rightarrow> int option \<Rightarrow> string \<Rightarrow> int \<Rightarrow> legacy \<Rightarrow> legacy" where
  "run_simple c alloc ans client safe n st =
     (case c of
        Ask endpoint m body \<Rightarrow> ask ans client endpoint m (if body then safe else []) n st
      | AskCopy endpoint \<Rightarrow> if alloc then ask ans client endpoint PUT safe n st else st
      | NotSupported \<Rightarrow> publish_mqtt_message client unsupported_text n st)"

subsection \<open>The cases with a body of their own\<close>

text \<open>
  What the outside answers to one message: libcurl, twice; the handler's allocation; \<open>access\<close>;
  \<open>system\<close>, as zero or not; \<open>fopen\<close> for writing; the lines \<open>ps\<close> prints, the first word of each;
  a socket; the telemetry; \<open>curl_easy_escape\<close>.
\<close>

record case_obs =
  ob_curl :: curl_ans
  ob_curl2 :: curl_ans
  ob_alloc :: bool
  ob_exists :: "string \<Rightarrow> bool"
  ob_system_ok :: "string \<Rightarrow> bool"
  ob_fopen :: bool
  ob_ps :: "string list option"
  ob_sock :: sock_obs
  ob_sys :: sys_obs
  ob_escape :: "string \<Rightarrow> string option"

text \<open>\<open>P2P_Kill\<close>: one command per process found, cut to \<open>char[20]\<close>, the process id to 9 characters.\<close>

definition P2P_Kill :: "string list option \<Rightarrow> legacy \<Rightarrow> legacy" where
  "P2P_Kill ps st =
     (case ps of None \<Rightarrow> st
      | Some pids \<Rightarrow> fold (\<lambda>p. emit (System (bcopy 20 (''kill -9 '' @ take 9 p)))) pids st)"

definition get_ini_files :: "legacy \<Rightarrow> legacy" where
  "get_ini_files st =
     emit (System ''cat /mny/mtd/ipc/ambicam/P2Pambicam_min.ini'') (publish_mqtt_message (lg_client st) (lg_response st) 1 st)"

definition restart_command :: string where
  "restart_command = ''/mny/mtd/ipc/ambicam/P2Pambicam -c /mny/mtd/ipc/ambicam/P2Pambicam_min.ini -f -d 7 &''"

definition case_0 :: "case_obs \<Rightarrow> string \<Rightarrow> legacy \<Rightarrow> legacy" where
  "case_0 ob safe st =
     (let status = (if strstr safe ''status: online'' \<noteq> None then ''online'' else ''offline'') in
      if lg_last_status st = status then st
      else let st1 = st\<lparr>lg_last_status := status\<rparr> in
        if status = ''offline'' \<and> \<not> lg_offline_handled st1
        then emit (System restart_command) (emit (Pause 2000) (emit (Pause 2000) (get_ini_files
               (emit (Pause 2000) (P2P_Kill (ob_ps ob) (st1\<lparr>lg_offline_handled := True\<rparr>))))))
        else if status = ''online'' then st1\<lparr>lg_offline_handled := False\<rparr> else st1)"

definition SAVE_PATH :: string where "SAVE_PATH = ''/etc/jffs2/ambicam/P2Pambicam_min.ini''"

definition case_1 :: "case_obs \<Rightarrow> string \<Rightarrow> legacy \<Rightarrow> legacy" where
  "case_1 ob payload st =
     (let st1 = save_file_from_message (ob_fopen ob) SAVE_PATH (Some payload) st
      in st1\<lparr>lg_ini_count := lg_ini_count st1 + 1\<rparr>)"

definition case_37 :: "case_obs \<Rightarrow> int option \<Rightarrow> legacy \<Rightarrow> legacy" where
  "case_37 ob client st =
     (case get_system_info (ob_sys ob) st of
        (None, st1) \<Rightarrow> st1
      | (Some info, st1) \<Rightarrow> publish_mqtt_message client info 37 st1)"

definition case_40 :: "case_obs \<Rightarrow> int option \<Rightarrow> string \<Rightarrow> legacy \<Rightarrow> legacy" where
  "case_40 ob client safe st =
     answer client 40 (send_https_request_case40 (ob_sock ob) ''127.0.0.1'' ''/netsdk/video/encode/channel/102'' PUT safe st)"

text \<open>A shell command, and whether it returned 0.\<close>

definition shell :: "case_obs \<Rightarrow> string \<Rightarrow> legacy \<Rightarrow> bool \<times> legacy" where
  "shell ob cmd st = (ob_system_ok ob cmd, emit (System cmd) st)"

subsubsection \<open>Firmware update\<close>

definition ota_url_ok :: "string \<Rightarrow> bool" where
  "ota_url_ok url \<longleftrightarrow> (starts_with ''http://'' url \<or> starts_with ''https://'' url)
     \<and> (\<forall>c \<in> set url. c \<notin> set '';|`$&(){}[]!'')"

definition lib_download :: string where
  "lib_download = ''wget -O /tmp/tar http://prong.arcisai.io/protected/augentix/lib/tar''"

definition ota_download :: "string \<Rightarrow> string" where
  "ota_download url = bcopy 512 (''wget -P /tmp/ '' @ url)"

definition text_lines :: "string list \<Rightarrow> string" where
  "text_lines ls = concat (map (\<lambda>l. l @ [CHR 0x0A]) ls)"

definition ota_script :: string where
  "ota_script = text_lines [
     ''#!/bin/sh'', [],
     ''# Stop running services before OTA'',
     ''pidof MQTT_vcamclient_Augentix >/dev/null && pidof MQTT_vcamclient_Augentix | xargs kill -9 || true'', [],
     ''pidof P2Pambicam >/dev/null && pidof P2Pambicam | xargs kill -9 || true'', [],
     ''sleep 1'', [],
     ''set -e'', [],
     ''echo '' @ quoted_text ''[OTA] Start OTA update'', [],
     ''cd /tmp || exit 1'', [],
     ''echo '' @ quoted_text ''[OTA] Extracting firmware'',
     ''chmod +x tar'',
     ''./tar -xvf Augentix.tar.gz > /tmp/tar_output.log 2>&1'', [],
     ''sleep 2'', [],
     ''echo '' @ quoted_text ''[OTA] Listing /tmp'',
     ''ls -l /tmp'', [],
     ''if [ ! -d /tmp/AugenTix ]; then'',
     ''    echo '' @ quoted_text ''[OTA][ERROR] /tmp/AugenTix not found'',
     ''    exit 1'',
     ''fi'', [],
     ''echo '' @ quoted_text ''[OTA] Preparing ambicam directory'',
     ''rm -rf /tmp/ambicam'',
     ''mv /tmp/AugenTix /tmp/ambicam'', [],
     ''echo '' @ quoted_text ''[OTA] Copy certificates'',
     ''mkdir -p /etc/jffs2/ambicam'',
     ''mv /tmp/ambicam/*.crt /etc/jffs2/ambicam 2>/dev/null || true'',
     ''mv /tmp/ambicam/client.key /etc/jffs2/ambicam 2>/dev/null || true'', [],
     ''echo '' @ quoted_text ''[OTA] Copy certificates successfully'', [],
     ''rm -rf /mny/mtd/ipc/ambicam'',
     ''rm -f  /mny/mtd/ipc/ambicam.sh'', [],
     ''mkdir -p /mny/mtd/ipc/ambicam'', [],
     ''mv /tmp/ambicam/* /mny/mtd/ipc/ambicam/'',
     ''mv /mny/mtd/ipc/ambicam/ambicam.sh /mny/mtd/ipc/'', [],
     ''chmod +x /mny/mtd/ipc/ambicam/* || true'',
     ''chmod +x /mny/mtd/ipc/ambicam.sh || true'', [],
     ''echo '' @ quoted_text ''[OTA] OTA update completed successfully'',
     ''reboot'']"

definition ota_remove :: "case_obs \<Rightarrow> string \<Rightarrow> string \<Rightarrow> legacy \<Rightarrow> legacy" where
  "ota_remove ob path cmd st = (if ob_exists ob path then emit (System cmd) st else st)"

text \<open>After the download: write the script, make it executable, run it, reboot.\<close>

definition ota_install :: "case_obs \<Rightarrow> int option \<Rightarrow> legacy \<Rightarrow> legacy" where
  "ota_install ob client st =
     (if \<not> ob_fopen ob then publish_mqtt_message client ''Shell script creation failed'' 36 st
      else let st1 = emit (WriteFile ''/tmp/OTA.sh'' ota_script) st; (ok1, st2) = shell ob ''chmod +x /tmp/OTA.sh'' st1 in
        if \<not> ok1 then publish_mqtt_message client ''Shell script chmod failed'' 36 st2
        else let (ok2, st3) = shell ob ''/tmp/OTA.sh'' st2 in
          if \<not> ok2 then publish_mqtt_message client ''Shell script execution failed'' 36 st3
          else let (ok3, st4) = shell ob ''reboot'' st3 in
            if \<not> ok3 then publish_mqtt_message client ''Reboot failed'' 36 st4 else st4)"

definition ota_fetch :: "case_obs \<Rightarrow> int option \<Rightarrow> string \<Rightarrow> legacy \<Rightarrow> legacy" where
  "ota_fetch ob client url st =
     (let (ok1, st1) = shell ob lib_download (ota_remove ob ''/tmp/tar'' ''rm -f /tmp/tar'' st) in
      if \<not> ok1 then publish_mqtt_message client ''Lib tar download failed'' 36 st1
      else let st2 = publish_mqtt_message client ''Lib tar download successful'' 36 st1;
               (ok2, st3) = shell ob (ota_download url)
                  (ota_remove ob ''/tmp/Augentix.tar.gz'' ''rm -f /tmp/Augentix.tar.gz'' st2)
        in if \<not> ok2 then publish_mqtt_message client ''Download failed'' 36 st3
           else ota_install ob client (publish_mqtt_message client ''Download successful'' 36 st3))"

definition case_36 :: "case_obs \<Rightarrow> int option \<Rightarrow> string \<Rightarrow> legacy \<Rightarrow> legacy" where
  "case_36 ob client safe st =
     (if \<not> ob_exists ob ''/mnt/tf'' then publish_mqtt_message client ''Please insert SD card! SD card needed'' 36 st
      else let st1 = publish_mqtt_message client ''SD card is available, proceeding with download...'' 36 st in
        if \<not> ota_url_ok safe then publish_mqtt_message client ''Invalid OTA URL'' 36 st1
        else ota_fetch ob client safe st1)"

subsubsection \<open>Users, movement, cruise, passwords\<close>

text \<open>\<open>sscanf\<close> with literals and \<open>%49[^"]\<close>.\<close>

definition scan_lit :: "string \<Rightarrow> string \<Rightarrow> string option" where
  "scan_lit lit s = (if starts_with lit s then Some (drop (length lit) s) else None)"

definition scan_word :: "string \<Rightarrow> (string \<times> string) option" where
  "scan_word s = (let w = take 49 (takeWhile (\<lambda>c. c \<noteq> CHR 0x22) s)
                  in if w = [] then None else Some (w, drop (length w) s))"

definition scan_user :: "string \<Rightarrow> (string \<times> string) option" where
  "scan_user s = Option.bind (scan_lit (CHR ''{'' # quoted_text ''username'' @ CHR '':'' # [CHR 0x22]) s) scan_word"

definition scan_user_pass :: "string \<Rightarrow> string \<times> string" where
  "scan_user_pass s =
     (case scan_user s of None \<Rightarrow> ([], [])
      | Some (u, s1) \<Rightarrow>
          (case Option.bind (scan_lit (CHR 0x22 # CHR '','' # quoted_text ''password'' @ CHR '':'' # [CHR 0x22]) s1) scan_word of
             None \<Rightarrow> (u, []) | Some (p, s2) \<Rightarrow> (u, p)))"

definition xml_attr :: "string \<Rightarrow> string \<Rightarrow> string" where
  "xml_attr name v = name @ CHR ''='' # quoted_text v"

definition add_user_url :: "string \<Rightarrow> string \<Rightarrow> string \<Rightarrow> string \<Rightarrow> string" where
  "add_user_url cu cp user pass = bcopy 512
     (''/user/add_user.xml?username='' @ cu @ ''&password='' @ cp @ ''&content=<user><add_user ''
      @ xml_attr ''name'' user @ '' '' @ xml_attr ''password'' pass @ '' '' @ xml_attr ''admin'' []
      @ '' '' @ xml_attr ''premit_live'' ''yes'' @ '' '' @ xml_attr ''premit_setting'' [] @ '' ''
      @ xml_attr ''premit_playback'' [] @ ''/></user>&_=1730018160286'')"

definition del_user_url :: "string \<Rightarrow> string \<Rightarrow> string \<Rightarrow> string" where
  "del_user_url cu cp user = bcopy 512
     (''/user/del_user.xml?username='' @ cu @ ''&password='' @ cp @ ''&content=<user><del_user ''
      @ xml_attr ''name'' user @ ''/></user>&_=1730018160286'')"

text \<open>A request whose answer goes to a local buffer of 1024 bytes that holds \<open>old\<close>.\<close>

definition https_local :: "curl_ans \<Rightarrow> string \<Rightarrow> http_method \<Rightarrow> string \<Rightarrow> string \<Rightarrow> legacy \<Rightarrow> int \<times> string \<times> legacy" where
  "https_local ans endpoint m body old st =
     (case send_https_request (lg_creds st) ans endpoint m body old 1024 of
        (rc, resp, call) \<Rightarrow>
          (rc, cstr resp, st\<lparr>lg_out := lg_out st @ (case call of None \<Rightarrow> [] | Some c \<Rightarrow> [HttpCall c])\<rparr>))"

definition data_text :: "string \<Rightarrow> string" where
  "data_text s = CHR ''{'' # quoted_text ''Data'' @ '': '' @ quoted_text s @ ''}''"

definition case_49 :: "case_obs \<Rightarrow> int option \<Rightarrow> string \<Rightarrow> legacy \<Rightarrow> legacy" where
  "case_49 ob client safe st =
     (if \<not> ob_alloc ob then st
      else let (user, pass) = scan_user_pass safe; (cu, cp) = get_cam_credentials (lg_creds st) 64 64;
               (rc, st1) = https (ob_curl ob) (add_user_url cu cp user pass) GET safe st
        in if rc \<noteq> 0 then st1
           else publish_mqtt_message client (data_text ''User creat successfully!'') 49
                  (st1\<lparr>lg_response := sanitize_response (lg_response st1)\<rparr>))"

definition case_50 :: "case_obs \<Rightarrow> int option \<Rightarrow> string \<Rightarrow> legacy \<Rightarrow> legacy" where
  "case_50 ob client safe st =
     (if \<not> ob_alloc ob then st
      else let user = (case scan_user safe of None \<Rightarrow> [] | Some (u, s) \<Rightarrow> u);
               (cu, cp) = get_cam_credentials (lg_creds st) 64 64;
               (rc, resp, st1) = https_local (ob_curl ob) (del_user_url cu cp user) GET safe [] st
        in if rc \<noteq> 0 then st1 else publish_mqtt_message client (data_text ''User Deleted Successfully!'') 50 st1)"

definition case_51 :: "case_obs \<Rightarrow> int option \<Rightarrow> string \<Rightarrow> legacy \<Rightarrow> legacy" where
  "case_51 ob client safe st =
     (if \<not> ob_alloc ob then st
      else answer client 51 (send_PTZ_request (ob_sock ob) ''stop''
             (emit (Pause 500) (snd (https (ob_curl ob) (ptz_endpoint safe) PUT [] st)))))"

definition cruise_url :: "string \<Rightarrow> string" where
  "cruise_url mode = bcopy 200 (''/NetSDK/PTZ/channel/1/Control?command='' @ bcopy 50 mode)"

text \<open>
  Case 53 reads two local buffers it never initialises: \<open>old\<close> is what they hold, published when
  libcurl cannot make a handle.
\<close>

definition case_53 :: "string \<Rightarrow> case_obs \<Rightarrow> int option \<Rightarrow> string \<Rightarrow> legacy \<Rightarrow> legacy" where
  "case_53 old ob client safe st =
     (if \<not> ob_alloc ob then st
      else case cJSON_Parse safe of None \<Rightarrow> st
      | Some doc \<Rightarrow>
          (case json_string (cJSON_GetObjectItem doc ''cruiseMode'') of None \<Rightarrow> st
           | Some mode \<Rightarrow>
               (let (rc, resp, st1) = https_local (ob_curl ob) ''/NetSDK/PTZ/channel/1/setup'' PUT safe old st;
                    (rc2, resp2, st2) = https_local (ob_curl2 ob) (cruise_url mode) PUT [] old (publish_mqtt_message client resp 53 st1)
                in st2)))"

definition case_57 :: "case_obs \<Rightarrow> legacy \<Rightarrow> legacy" where
  "case_57 ob st =
     emit (Pause 1000) (emit (System ''/mny/mtd/ipc/ambicam/AU_TWOWAY'')
       (emit (System ''cp /etc/jffs2/ambicam/alarm.wav /etc/jffs2/ambicam/received_audio.wav'') st))"

definition case_67 :: "case_obs \<Rightarrow> int option \<Rightarrow> string \<Rightarrow> legacy \<Rightarrow> legacy" where
  "case_67 ob client safe st =
     (let (rc, st1) = https (ob_curl ob) ''/NetSDK/SDCard/format'' PUT safe st;
          st2 = st1\<lparr>lg_response := sanitize_response (lg_response st1)\<rparr>
      in if rc = 0 then publish_mqtt_message client (data_text ''Format Successfully!'') 67 st2 else st2)"

definition preset_url :: "int \<Rightarrow> string \<Rightarrow> int \<Rightarrow> string" where
  "preset_url status act number = bcopy 256
     (''/cgi-bin/hi3510/preset.cgi?-status='' @ show_int status @ ''&-act='' @ act @ ''&-number='' @ show_int number)"

definition case_70 :: "case_obs \<Rightarrow> int option \<Rightarrow> string \<Rightarrow> legacy \<Rightarrow> legacy" where
  "case_70 ob client safe st =
     (case cJSON_Parse safe of None \<Rightarrow> st
      | Some doc \<Rightarrow>
          (case (json_number (cJSON_GetObjectItem doc ''status''), json_string (cJSON_GetObjectItem doc ''act''),
                 json_number (cJSON_GetObjectItem doc ''number'')) of
             (Some status, Some act, Some number) \<Rightarrow>
               ask (ob_curl ob) client (preset_url status act number) PUT [] 70 st
           | _ \<Rightarrow> st))"

definition set_pass_xml :: "string \<Rightarrow> string \<Rightarrow> string" where
  "set_pass_xml old new = bcopy 512
     (''<user><set_pass '' @ xml_attr ''old_pass'' old @ '' '' @ xml_attr ''new_pass'' new @ ''/></user>'')"

definition set_pass_url :: "string \<Rightarrow> string \<Rightarrow> string \<Rightarrow> string" where
  "set_pass_url cu cp content = bcopy 1024
     (''/user/set_pass.xml?username='' @ cu @ ''&password='' @ cp @ ''&content='' @ content)"

definition case_71 :: "case_obs \<Rightarrow> int option \<Rightarrow> string \<Rightarrow> legacy \<Rightarrow> legacy" where
  "case_71 ob client safe st =
     (if \<not> ob_alloc ob then st
      else case cJSON_Parse safe of None \<Rightarrow> st
      | Some doc \<Rightarrow>
          (case (json_string (cJSON_GetObjectItem doc ''old_pass''), json_string (cJSON_GetObjectItem doc ''new_pass'')) of
             (Some old, Some new) \<Rightarrow>
               (let new_password = bcopy 64 new in
                case ob_escape ob (set_pass_xml (bcopy 64 old) new_password) of None \<Rightarrow> st
                | Some content \<Rightarrow>
                    (let (cu, cp) = get_cam_credentials (lg_creds st) 64 64;
                         (rc, resp, st1) = https_local (ob_curl ob) (set_pass_url cu cp content) PUT [] [] st;
                         st2 = (if rc = 0 \<and> is_password_change_success (Some resp)
                                then st1\<lparr>lg_creds := snd (update_password (Some new_password) (lg_creds st1))\<rparr> else st1)
                     in emit (Pause 3000) (publish_mqtt_message client resp 71 st2)))
           | _ \<Rightarrow> st))"

definition case_80 :: "string \<Rightarrow> legacy \<Rightarrow> legacy" where
  "case_80 safe st =
     (case cJSON_Parse safe of None \<Rightarrow> st
      | Some doc \<Rightarrow>
          st\<lparr>lg_creds := sync_credentials (json_string (cJSON_GetObjectItem doc ''username''))
                           (json_string (cJSON_GetObjectItem doc ''password'')) (lg_creds st)\<rparr>)"

subsection \<open>The dispatcher\<close>

text \<open>
  The switch.  Cases 90 and the numbers without a handler do nothing.
\<close>

definition legacy_case ::
    "string \<Rightarrow> case_obs \<Rightarrow> int option \<Rightarrow> string \<Rightarrow> int \<Rightarrow> legacy \<Rightarrow> legacy" where
  "legacy_case old ob client payload n st =
     (let safe = cstr payload in
      case simple_cases n of Some c \<Rightarrow> run_simple c (ob_alloc ob) (ob_curl ob) client safe n st
      | None \<Rightarrow>
         (if n = 0 then case_0 ob safe st
          else if n = 1 then case_1 ob payload st
          else if n = 36 then case_36 ob client safe st
          else if n = 37 then case_37 ob client st
          else if n = 40 then case_40 ob client safe st
          else if n = 49 then case_49 ob client safe st
          else if n = 50 then case_50 ob client safe st
          else if n = 51 then case_51 ob client safe st
          else if n = 53 then case_53 old ob client safe st
          else if n = 56 then case_56 (ob_sock ob) payload st
          else if n = 57 then case_57 ob st
          else if n = 67 then case_67 ob client safe st
          else if n = 70 then case_70 ob client safe st
          else if n = 71 then case_71 ob client safe st
          else if n = 80 then case_80 safe st
          else st))"

text \<open>
  \<open>legacy_message_arrived\<close>.  The case number is read at a fixed distance from the start of the topic;
  \<open>None\<close> is a topic shorter than that, where the C code reads past the end of the string.
\<close>

definition legacy_message_arrived ::
    "string \<Rightarrow> bool \<Rightarrow> case_obs \<Rightarrow> int option \<Rightarrow> string \<Rightarrow> string \<Rightarrow> legacy \<Rightarrow> legacy option" where
  "legacy_message_arrived old alloc ob client topic payload st =
     (if \<not> alloc then Some st
      else if length topic < length (lg_topic_receive st) then None
      else Some (legacy_case old ob client payload (atoi (drop (length (lg_topic_receive st)) topic)) st))"

end
