(* ===== verification/LegacyProps.thy ===== *)
theory LegacyProps
  imports LegacyCases JsonRoundtrip
begin

text \<open>
  What holds of the legacy dispatcher: the well-formedness of its state under any sequence of messages,
  the accounting of the audio socket, and the behaviour of the cases.
\<close>

named_theorems legacy_defs \<open>the handlers, unfolded case by case\<close>

subsection \<open>Well-formed states\<close>

definition legacy_ok :: "legacy \<Rightarrow> bool" where
  "legacy_ok st \<longleftrightarrow> creds_ok (lg_creds st) \<and> fits 50 (lg_topic_receive st) \<and> fits 50 (lg_topic_send st)
     \<and> fits 128 (lg_host st) \<and> fits 64 (lg_user st) \<and> fits 64 (lg_pass st)
     \<and> fits 8192 (lg_response st) \<and> fits 16 (lg_last_status st)"

text \<open>The audio socket as the effects show it: opened and not yet closed.\<close>

primrec audio_opened :: "lg_ev list \<Rightarrow> int list" where
  "audio_opened [] = []"
| "audio_opened (e # ev) = (case e of AudioOpen s \<Rightarrow> [s] | _ \<Rightarrow> []) @ audio_opened ev"

primrec audio_closed :: "lg_ev list \<Rightarrow> int list" where
  "audio_closed [] = []"
| "audio_closed (e # ev) = (case e of AudioClose s \<Rightarrow> [s] | _ \<Rightarrow> []) @ audio_closed ev"

lemma audio_append [simp]:
  "audio_opened (a @ b) = audio_opened a @ audio_opened b" "audio_closed (a @ b) = audio_closed a @ audio_closed b"
  by (induction a) simp_all

definition audio_held :: "legacy \<Rightarrow> int list" where
  "audio_held st = (if lg_audio st = -1 then [] else [lg_audio st])"

definition audio_ok :: "legacy \<Rightarrow> bool" where
  "audio_ok st \<longleftrightarrow> audio_opened (lg_out st) = audio_closed (lg_out st) @ audio_held st"

text \<open>What every handler but the audio one does: keep the state well-formed and the audio alone.\<close>

definition keeps :: "legacy \<Rightarrow> legacy \<Rightarrow> bool" where
  "keeps st st' \<longleftrightarrow> (legacy_ok st \<longrightarrow> legacy_ok st') \<and> lg_audio st' = lg_audio st
     \<and> audio_opened (lg_out st') = audio_opened (lg_out st) \<and> audio_closed (lg_out st') = audio_closed (lg_out st)
     \<and> lg_topic_receive st' = lg_topic_receive st"

lemma keeps_refl [intro]: "keeps st st"
  by (simp add: keeps_def)

lemma keeps_trans: "keeps st st' \<Longrightarrow> keeps st' st'' \<Longrightarrow> keeps st st''"
  by (simp add: keeps_def)

lemma keeps_audio_ok: "keeps st st' \<Longrightarrow> audio_ok st \<Longrightarrow> audio_ok st'"
  by (simp add: keeps_def audio_ok_def audio_held_def)

lemma keeps_ok: "keeps st st' \<Longrightarrow> legacy_ok st \<Longrightarrow> legacy_ok st'"
  by (simp add: keeps_def)

fun silent :: "lg_ev \<Rightarrow> bool" where
  "silent (AudioOpen s) = False"
| "silent (AudioClose s) = False"
| "silent e = True"

lemma keeps_emit: "silent e \<Longrightarrow> keeps st (emit e st)"
  by (cases e) (simp_all add: keeps_def emit_def legacy_ok_def)

lemma then_emit: "keeps st st' \<Longrightarrow> silent e \<Longrightarrow> keeps st (emit e st')"
  by (blast intro: keeps_trans keeps_emit)

lemma keeps_publish: "keeps st st' \<Longrightarrow> keeps st (publish_mqtt_message c msg n st')"
  by (auto simp: publish_mqtt_message_def intro: then_emit split: option.split)

lemma sanitize_fits: "fits n s \<Longrightarrow> fits n (sanitize_response s)"
  by (auto simp: fits_def sanitize_response_def printable_def)

lemma keeps_sanitize: "keeps st st' \<Longrightarrow> keeps st (st'\<lparr>lg_response := sanitize_response (lg_response st')\<rparr>)"
  by (auto simp: keeps_def legacy_ok_def sanitize_fits)

lemma keeps_answer: "keeps st st' \<Longrightarrow> keeps st (answer c n st')"
  using keeps_trans [OF keeps_sanitize keeps_publish [OF keeps_refl]] by (simp add: answer_def Let_def)

lemma length_cstr: "length (cstr s) \<le> length s"
  by (simp add: cstr_def length_takeWhile_le)

lemma https_spec:
  "https ans ep m body st = (rc, st') \<Longrightarrow> keeps st st' \<and> lg_creds st' = lg_creds st \<and> lg_topic_send st' = lg_topic_send st"
proof (cases ans)
  case InitFailed
  then show "https ans ep m body st = (rc, st') \<Longrightarrow> ?thesis"
    by (auto simp: https_def send_https_request_def keeps_def legacy_ok_def fits_def cstr_id)
next
  case (Performed ok pieces)
  have "length (cstr (take 8191 (concat pieces))) \<le> 8191"
    using length_cstr [of "take 8191 (concat pieces)"] by simp
  then show "https ans ep m body st = (rc, st') \<Longrightarrow> ?thesis" using Performed write_callbacks [of 8192 "[]" pieces]
    by (auto simp: https_def send_https_request_def keeps_def legacy_ok_def fits_def Let_def split: prod.splits)
qed

lemma keeps_https: "keeps st st' \<Longrightarrow> keeps st (snd (https ans ep m body st'))"
  using https_spec [of ans ep m body st'] keeps_trans by (metis prod.collapse)

lemma keeps_ask: "keeps st (ask ans c ep m body n st)"
  by (simp add: ask_def keeps_answer keeps_https keeps_refl)

lemma keeps_local: "https_local ans ep m body old st = (rc, resp, st') \<Longrightarrow> keeps st st' \<and> lg_creds st' = lg_creds st"
  by (cases ans) (auto simp: https_local_def send_https_request_def keeps_def legacy_ok_def Let_def split: prod.splits)

lemma keeps_simple: "keeps st (run_simple c alloc ans client safe n st)"
  by (auto simp: run_simple_def intro: keeps_ask keeps_publish split: simple_case.split)

lemmas keeps_intros = keeps_refl keeps_emit then_emit keeps_publish keeps_sanitize keeps_answer keeps_https keeps_ask

lemma keeps_fold: "(\<And>p. silent (e p)) \<Longrightarrow> keeps st (fold (\<lambda>p. emit (e p)) ps st)"
  by (induction ps arbitrary: st) (auto intro: keeps_trans [OF keeps_emit])

lemma keeps_if: "keeps st a \<Longrightarrow> keeps st b \<Longrightarrow> keeps st (if c then a else b)"
  by simp

lemma keeps_P2P_Kill: "keeps st (P2P_Kill ps st)"
  unfolding P2P_Kill_def by (auto intro!: keeps_fold keeps_refl split: option.split)

lemma keeps_ini: "keeps st st' \<Longrightarrow> keeps st (get_ini_files st')"
  by (auto simp: get_ini_files_def intro!: then_emit keeps_publish)

lemma keeps_status:
  "keeps st (st\<lparr>lg_last_status := (if c then ''online'' else ''offline'')\<rparr>)"
  by (simp add: keeps_def legacy_ok_def fits_def)

lemma keeps_offline: "keeps st st' \<Longrightarrow> keeps st (st'\<lparr>lg_offline_handled := b\<rparr>)"
  by (simp add: keeps_def legacy_ok_def)

lemma keeps_kill: "keeps st st' \<Longrightarrow> keeps st (P2P_Kill ps st')"
  by (blast intro: keeps_trans keeps_P2P_Kill)

lemma keeps_case_0: "keeps st (case_0 ob safe st)"
  unfolding case_0_def Let_def
  by (intro keeps_if then_emit keeps_ini keeps_kill keeps_offline keeps_status keeps_refl) (simp_all only: silent.simps)

lemma keeps_case_1: "keeps st (case_1 ob payload st)"
  by (auto simp: case_1_def save_file_from_message_def Let_def keeps_def legacy_ok_def emit_def)

lemma keeps_cpu: "get_cpu_usage stat st = (r, st') \<Longrightarrow> keeps st st'"
  by (auto simp: get_cpu_usage_def keeps_def legacy_ok_def Let_def split: option.splits if_splits)

lemma keeps_sysinfo: "get_system_info ob st = (r, st') \<Longrightarrow> keeps st st'"
  by (auto simp: get_system_info_def Let_def intro: keeps_cpu split: option.splits sum.splits prod.splits if_splits)

lemma keeps_ota_install: "keeps st st' \<Longrightarrow> keeps st (ota_install ob c st')"
  unfolding ota_install_def shell_def Let_def prod.case
  by (intro keeps_if keeps_publish then_emit) (simp_all only: silent.simps)

lemma keeps_ota_remove: "keeps st st' \<Longrightarrow> keeps st (ota_remove ob path cmd st')"
  unfolding ota_remove_def by (intro keeps_if then_emit) (simp_all only: silent.simps)

lemma keeps_case_36: "keeps st (case_36 ob c url st)"
  unfolding case_36_def ota_fetch_def shell_def Let_def prod.case
  by (intro keeps_if keeps_publish keeps_ota_install then_emit keeps_ota_remove keeps_refl) (simp_all only: silent.simps)

lemma keeps_case_37: "keeps st (case_37 ob c st)"
  by (auto simp: case_37_def intro!: keeps_publish intro: keeps_sysinfo split: prod.split option.split)

lemma keeps_response: "keeps st st' \<Longrightarrow> fits 8192 r \<Longrightarrow> keeps st (st'\<lparr>lg_response := r\<rparr>)"
  by (simp add: keeps_def legacy_ok_def)

lemma fits_cstr_take: "0 < n \<Longrightarrow> fits n (cstr (take (n - 1) r))"
  using length_cstr [of "take (n - 1) r"] by (simp add: fits_def) linarith

lemma keeps_case_40: "keeps st (case_40 ob c safe st)"
proof -
  have "fits 8192 (case so_recv o' of None \<Rightarrow> [] | Some r \<Rightarrow> cstr (take 8191 r))" for o'
    using fits_cstr_take [of 8192] by (simp split: option.split)
  then show ?thesis unfolding case_40_def send_https_request_case40_def
    by (intro keeps_answer keeps_if keeps_response then_emit keeps_refl) simp_all
qed

lemma keeps_case_49: "keeps st (case_49 ob c safe st)"
  by (auto simp: case_49_def Let_def intro!: keeps_publish keeps_sanitize dest!: https_spec split: prod.split)

lemma keeps_case_50: "keeps st (case_50 ob c safe st)"
  by (auto simp: case_50_def Let_def intro!: keeps_publish dest!: keeps_local split: prod.split)

lemma keeps_ptz: "keeps st st' \<Longrightarrow> keeps st (send_PTZ_request ob act st')"
  unfolding send_PTZ_request_def by (intro keeps_if then_emit) simp_all

lemma keeps_case_51: "keeps st (case_51 ob c safe st)"
  unfolding case_51_def by (intro keeps_if keeps_refl keeps_answer keeps_ptz then_emit keeps_https) simp_all

lemma keeps_case_53: "keeps st (case_53 old ob c safe st)"
  by (auto simp: case_53_def Let_def dest!: keeps_local intro: keeps_trans [OF keeps_publish]
      split: prod.split option.split)

lemma keeps_case_57: "keeps st (case_57 ob st)"
  unfolding case_57_def by (intro then_emit keeps_refl) simp_all

lemma keeps_case_67: "keeps st (case_67 ob c safe st)"
  by (auto simp: case_67_def Let_def intro!: keeps_publish keeps_sanitize dest!: https_spec split: prod.split)

lemma keeps_case_70: "keeps st (case_70 ob c safe st)"
  by (auto simp: case_70_def intro: keeps_ask split: option.split)

lemma get_object_item_ok:
  "list_all (\<lambda>m. CHR 0x00 \<notin> set (fst m) \<and> json_ok (snd m)) ms \<Longrightarrow> get_object_item ms name = Some j \<Longrightarrow> json_ok j"
  by (induction ms) (auto split: if_splits)

lemma parsed_string:
  assumes "cJSON_Parse s = Some doc" "json_string (cJSON_GetObjectItem doc name) = Some t"
  shows "CHR 0x00 \<notin> set t"
proof -
  obtain ms where "doc = JObject ms" "get_object_item ms name = Some (JString t)"
    using assms(2) by (auto simp: json_string_def cJSON_GetObjectItem_def split: option.splits json.splits)
  then show ?thesis using cJSON_Parse_json_ok [OF assms(1)] get_object_item_ok [of ms name "JString t"] by simp
qed

lemma parsed_c_string:
  "cJSON_Parse s = Some doc \<Longrightarrow> c_string (json_string (cJSON_GetObjectItem doc name))"
  by (auto simp: c_string_def dest: parsed_string split: option.split)

lemma keeps_creds: "keeps st st' \<Longrightarrow> (creds_ok (lg_creds st') \<Longrightarrow> creds_ok c) \<Longrightarrow> keeps st (st'\<lparr>lg_creds := c\<rparr>)"
  by (auto simp: keeps_def legacy_ok_def)

lemma keeps_case_71: "keeps st (case_71 ob c safe st)"
proof -
  have "keeps st (st'\<lparr>lg_creds := snd (update_password (Some (bcopy 64 new)) (lg_creds st'))\<rparr>)"
    if "keeps st st'" "cJSON_Parse safe = Some doc" "json_string (cJSON_GetObjectItem doc ''new_pass'') = Some new" for st' doc new
  proof (rule keeps_creds [OF that(1)])
    have "CHR 0x00 \<notin> set new" using parsed_string [OF that(2,3)] .
    then show "creds_ok (lg_creds st') \<Longrightarrow> creds_ok (snd (update_password (Some (bcopy 64 new)) (lg_creds st')))"
      using cred_exec_ok [of _ "SetPassword (Some (bcopy 64 new))"] set_bcopy [of 64 new] by (auto simp: c_string_def)
  qed
  then show ?thesis
    by (auto simp: case_71_def Let_def intro!: then_emit keeps_publish dest!: keeps_local split: prod.split option.split)
qed

lemma sync_ok: "c_string u \<Longrightarrow> c_string p \<Longrightarrow> creds_ok c \<Longrightarrow> creds_ok (sync_credentials u p c)"
  using cred_exec_ok [of c "SyncCreds u p"] by simp

lemma keeps_case_80: "keeps st (case_80 safe st)"
  by (auto simp: case_80_def intro!: keeps_creds sync_ok intro: parsed_c_string split: option.split)

lemmas keeps_cases = keeps_simple keeps_case_0 keeps_case_1 keeps_case_36 keeps_case_37 keeps_case_40 keeps_case_49
  keeps_case_50 keeps_case_51 keeps_case_53 keeps_case_57 keeps_case_67 keeps_case_70 keeps_case_71 keeps_case_80

lemma simple_cases_56: "simple_cases 56 = None"
  by (simp add: simple_cases_def cases_2_18_def cases_19_33_def cases_34_35_def cases_38_39_def cases_41_48_def
      cases_52_def cases_54_55_def cases_58_66_def cases_68_69_def cases_72_78_def cases_81_83_def)

lemma legacy_case_keeps:
  assumes "n \<noteq> 56"
  shows "keeps st (legacy_case old ob c payload n st)"
proof (cases "simple_cases n")
  case None
  show ?thesis unfolding legacy_case_def Let_def None
    by (simp only: option.case assms if_False) (intro keeps_if keeps_cases keeps_refl)
qed (simp add: legacy_case_def Let_def keeps_simple)

lemma legacy_case_56: "legacy_case old ob c payload 56 st = case_56 (ob_sock ob) payload st"
  by (simp add: legacy_case_def simple_cases_56)

subsection \<open>The audio socket\<close>

lemma case_56_ok: "legacy_ok st \<Longrightarrow> legacy_ok (case_56 ob payload st)"
  by (auto simp: case_56_def audio_open_def send_websocket_frame_def emit_def legacy_ok_def Let_def split: option.split bool.split)

lemma case_56_audio:
  assumes "audio_ok st" "\<forall>s. so_socket ob = Some s \<longrightarrow> 0 \<le> s"
  shows "audio_ok (case_56 ob payload st)"
proof -
  have frame: "audio_ok (send_websocket_frame d st') = audio_ok st'" for d st'
    by (simp add: send_websocket_frame_def audio_ok_def audio_held_def emit_def split: option.split)
  have "audio_ok (snd (audio_open ob st)) \<and> (fst (audio_open ob st) \<longrightarrow> lg_audio (snd (audio_open ob st)) \<noteq> -1)"
    if "lg_audio st = -1"
    using assms that by (auto simp: audio_open_def audio_ok_def audio_held_def emit_def Let_def split: option.split)
  then obtain b st1 where o': "(if lg_audio st = -1 then audio_open ob st else (True, st)) = (b, st1)"
    "audio_ok st1" "b \<longrightarrow> lg_audio st1 \<noteq> -1"
    using assms(1) by (cases "lg_audio st = -1"; cases "audio_open ob st") auto
  have "lg_audio (send_websocket_frame payload st1) = lg_audio st1"
    by (simp add: send_websocket_frame_def emit_def split: option.split)
  then have "audio_ok (emit (AudioClose (lg_audio st1)) ((send_websocket_frame payload st1)\<lparr>lg_audio := -1\<rparr>))" if b
    using frame [of payload st1] o'(2,3) that by (auto simp: audio_ok_def audio_held_def emit_def)
  then show ?thesis using o' frame [of payload st1] \<open>lg_audio _ = lg_audio st1\<close>
    by (auto simp: case_56_def Let_def split: bool.split)
qed

subsection \<open>Runs\<close>

record arrival =
  ar_alloc :: bool
  ar_obs :: case_obs
  ar_client :: "int option"
  ar_topic :: string
  ar_payload :: string
  ar_old :: string

primrec legacy_run :: "arrival list \<Rightarrow> legacy \<Rightarrow> legacy option" where
  "legacy_run [] st = Some st"
| "legacy_run (a # as) st =
     Option.bind (legacy_message_arrived (ar_old a) (ar_alloc a) (ar_obs a) (ar_client a) (ar_topic a) (ar_payload a) st)
       (legacy_run as)"

lemma legacy_case_ok:
  assumes "\<forall>s. so_socket (ob_sock ob) = Some s \<longrightarrow> 0 \<le> s" "legacy_ok st" "audio_ok st"
  shows "legacy_ok (legacy_case old ob c payload n st) \<and> audio_ok (legacy_case old ob c payload n st)"
proof (cases "n = 56")
  case True
  then show ?thesis using case_56_ok [OF assms(2)] case_56_audio [OF assms(3,1)] by (simp add: legacy_case_56)
next
  case False
  note k = legacy_case_keeps [OF False, of st old ob c payload]
  show ?thesis using keeps_ok [OF k assms(2)] keeps_audio_ok [OF k assms(3)] by simp
qed

lemma arrival_ok:
  assumes "\<forall>s. so_socket (ob_sock ob) = Some s \<longrightarrow> 0 \<le> s" "legacy_ok st" "audio_ok st"
    "legacy_message_arrived old alloc ob c topic payload st = Some st'"
  shows "legacy_ok st' \<and> audio_ok st'"
  using assms(2-) legacy_case_ok [OF assms(1-3)] by (auto simp: legacy_message_arrived_def split: if_splits)

lemma legacy_run_ok:
  "\<forall>a \<in> set as. \<forall>s. so_socket (ob_sock (ar_obs a)) = Some s \<longrightarrow> 0 \<le> s \<Longrightarrow> legacy_ok st \<Longrightarrow> audio_ok st
   \<Longrightarrow> legacy_run as st = Some st' \<Longrightarrow> legacy_ok st' \<and> audio_ok st'"
  by (induction as arbitrary: st) (auto simp: bind_eq_Some_conv dest: arrival_ok)

lemma legacy_init_ok:
  assumes "CHR 0x00 \<notin> set (node @ url @ user @ pass)"
  shows "legacy_ok (ap2p_legacy_init client node url user pass legacy_init) \<and> audio_ok (ap2p_legacy_init client node url user pass legacy_init)"
  using assms creds_init_ok
  by (auto simp: legacy_ok_def audio_ok_def audio_held_def ap2p_legacy_init_def legacy_init_def intro!: fits_bcopy)

definition sample_legacy :: legacy where
  "sample_legacy = ap2p_legacy_init (Some 7) ''cam1'' ''tcp://b'' [] [] legacy_init"

definition sample_sys :: sys_obs where
  "sample_sys = \<lparr>sy_temp = None, sy_sd = None, sy_stat = None, sy_alloc = (\<lambda>n. True)\<rparr>"

definition sample_sock :: sock_obs where
  "sample_sock = \<lparr>so_socket = Some 9, so_connected = True, so_sent = True, so_recv = Some ''HTTP/1.1 101 Switching Protocols''\<rparr>"

definition sample_obs :: case_obs where
  "sample_obs = \<lparr>ob_curl = Performed True [''{}''], ob_curl2 = InitFailed, ob_alloc = True, ob_exists = (\<lambda>p. True),
     ob_system_ok = (\<lambda>c. True), ob_fopen = True, ob_ps = None, ob_sock = sample_sock, ob_sys = sample_sys,
     ob_escape = (\<lambda>s. Some s)\<rparr>"

subsection \<open>Properties of the state\<close>

text \<open>
  C10. After any sequence of messages of which none makes the handlers read past the end of its topic, with
  whatever answers of the outside, every character buffer of the legacy handlers - both topics, host, user,
  password, the shared response, the last status, the credentials - holds a terminated string that fits
  it, the Basic-auth header matches the credentials, and the audio sockets opened are exactly those
  closed, in order, and the one still held.  The wired strings hold no NUL and sockets are not negative.
\<close>

theorem legacy_run_wellformed:
  assumes "CHR 0x00 \<notin> set (node @ url @ user @ pass)"
    "\<forall>a \<in> set as. \<forall>s. so_socket (ob_sock (ar_obs a)) = Some s \<longrightarrow> 0 \<le> s"
    "legacy_run as (ap2p_legacy_init client node url user pass legacy_init) = Some st"
  shows "creds_ok (lg_creds st) \<and> fits 8192 (lg_response st) \<and> fits 50 (lg_topic_send st) \<and> fits 50 (lg_topic_receive st)
    \<and> fits 128 (lg_host st) \<and> fits 64 (lg_user st) \<and> fits 64 (lg_pass st) \<and> fits 16 (lg_last_status st)
    \<and> audio_opened (lg_out st) = audio_closed (lg_out st) @ (if lg_audio st = -1 then [] else [lg_audio st])"
proof -
  have "legacy_ok st \<and> audio_ok st"
    using legacy_run_ok [OF assms(2) _ _ assms(3)] legacy_init_ok [OF assms(1)] by blast
  then show ?thesis by (simp add: legacy_ok_def audio_ok_def audio_held_def)
qed

definition audio_arrival :: arrival where
  "audio_arrival = \<lparr>ar_alloc = True, ar_obs = sample_obs, ar_client = Some 7, ar_topic = ''torque/rx/cam1/56'',
     ar_payload = ''Streamend'', ar_old = []\<rparr>"

lemma atoi_small: "n < 1000 \<Longrightarrow> atoi (show_nat n) = int n"
  by (rule atoi_show_nat) (simp add: int_max_def)

lemma show_nat_examples: "show_nat 56 = ''56''" "show_nat 36 = ''36''" "show_nat 71 = ''71''" "show_nat 2 = ''2''"
  by code_simp+

theorem legacy_run_wellformed_witness:
  "\<exists>st. legacy_run [audio_arrival] sample_legacy = Some st
     \<and> audio_opened (lg_out st) = [9] \<and> audio_closed (lg_out st) = [9]"
proof -
  have n: "atoi ''56'' = 56" using atoi_small [of 56] by (simp add: show_nat_examples)
  obtain st where r: "legacy_run [audio_arrival] sample_legacy = Some st"
    by (simp add: audio_arrival_def legacy_message_arrived_def sample_legacy_def ap2p_legacy_init_def bcopy_def)
  then have st: "st = case_56 sample_sock ''Streamend'' sample_legacy"
    by (simp add: audio_arrival_def legacy_message_arrived_def sample_legacy_def ap2p_legacy_init_def bcopy_def n
        legacy_case_56 sample_obs_def)
  have o': "lg_audio st = -1 \<and> audio_closed (lg_out st) = [9]"
    by (simp add: st case_56_def audio_open_def sample_sock_def sample_legacy_def ap2p_legacy_init_def legacy_init_def
        perform_handshake_def cstr_def emit_def send_websocket_frame_def ws_frame_def Let_def starts_with_def)
  show ?thesis
    using legacy_run_wellformed [OF _ _ r [unfolded sample_legacy_def]] r o'
    by (simp add: audio_arrival_def sample_obs_def sample_sock_def)
qed

subsection \<open>Properties of the cases\<close>

lemma answer_out:
  "lg_out (answer (Some h) n st) = lg_out st @ [Publish h (bcopy 256 (lg_topic_send st @ show_int n)) (sanitize_response (lg_response st))]"
  by (simp add: answer_def publish_mqtt_message_def emit_def Let_def)

lemma ask_performed:
  "lg_out (ask (Performed ok pieces) (Some h) ep m body n st)
     = lg_out st @ [HttpCall \<lparr>hc_url = bcopy 256 (base_url @ ep), hc_method = m, hc_body = (if m = GET then None else Some body),
                       hc_user = bcopy 64 (cam_username (lg_creds st)), hc_pass = bcopy 64 (cam_password (lg_creds st))\<rparr>,
                    Publish h (bcopy 256 (lg_topic_send st @ show_int n)) (sanitize_response (cstr (take 8191 (concat pieces))))]"
  using write_callbacks [of 8192 "[]" pieces]
  by (simp add: ask_def answer_out https_def send_https_request_def get_cam_credentials_def)

lemma table_case_out:
  assumes "simple_cases n = Some (Ask ep m body)" "ob_curl ob = Performed ok pieces"
  shows "lg_out (legacy_case old ob (Some h) payload n st)
     = lg_out st @ [HttpCall \<lparr>hc_url = bcopy 256 (base_url @ ep), hc_method = m,
                       hc_body = (if m = GET then None else Some (if body then cstr payload else [])),
                       hc_user = bcopy 64 (cam_username (lg_creds st)), hc_pass = bcopy 64 (cam_password (lg_creds st))\<rparr>,
                    Publish h (bcopy 256 (lg_topic_send st @ show_int n)) (sanitize_response (cstr (take 8191 (concat pieces))))]"
  using assms by (simp add: legacy_case_def run_simple_def ask_performed)

text \<open>
  A table case whose camera call goes through does exactly two things: it calls the case's endpoint
  with the case's method, with the payload as body only if the method is not GET, under the current
  credentials; and it publishes the first 8191 bytes of the answer, as a C string with every
  unprintable byte blanked, to the topic of that case.
\<close>

theorem table_case_answers:
  assumes "simple_cases n = Some (Ask ep m body)" "ob_curl ob = Performed ok pieces"
  shows "lg_out (legacy_case old ob (Some h) payload n st)
     = lg_out st @ [HttpCall \<lparr>hc_url = bcopy 256 (base_url @ ep), hc_method = m,
                       hc_body = (if m = GET then None else Some (if body then cstr payload else [])),
                       hc_user = bcopy 64 (cam_username (lg_creds st)), hc_pass = bcopy 64 (cam_password (lg_creds st))\<rparr>,
                    Publish h (bcopy 256 (lg_topic_send st @ show_int n)) (sanitize_response (cstr (take 8191 (concat pieces))))]"
  by (rule table_case_out [OF assms])

lemma simple_cases_2: "simple_cases 2 = Some (Ask ''/netsdk/video/encode/channel/101'' GET False)"
  by (simp add: simple_cases_def cases_2_18_def)

theorem table_case_answers_witness:
  "length (lg_out (legacy_case [] sample_obs (Some 7) ''x'' 2 sample_legacy)) = 2"
  using table_case_answers [OF simple_cases_2, of sample_obs True "[''{}'']" "[]" 7 "''x''" sample_legacy]
  by (simp add: sample_obs_def sample_legacy_def ap2p_legacy_init_def legacy_init_def)

text \<open>
  When libcurl cannot make a handle, a table case publishes what the shared buffer still holds from
  the case before, under the topic of the case now asked.
\<close>

theorem stale_answer_published:
  assumes "simple_cases n = Some (Ask ep m body)" "ob_curl ob = InitFailed" "fits 8192 (lg_response st)"
  shows "lg_out (legacy_case old ob (Some h) payload n st)
     = lg_out st @ [Publish h (bcopy 256 (lg_topic_send st @ show_int n)) (sanitize_response (lg_response st))]"
  using assms
  by (simp add: legacy_case_def run_simple_def ask_def answer_out https_def send_https_request_def fits_def cstr_id)

theorem stale_answer_published_witness:
  "lg_out (legacy_case [] (sample_obs\<lparr>ob_curl := InitFailed\<rparr>) (Some 7) ''x'' 2 (sample_legacy\<lparr>lg_response := ''old''\<rparr>))
     = [Publish 7 (bcopy 256 (''torque/tx/cam1/'' @ show_int 2)) ''old'']"
  using stale_answer_published [OF simple_cases_2, of "sample_obs\<lparr>ob_curl := InitFailed\<rparr>" "sample_legacy\<lparr>lg_response := ''old''\<rparr>"
      "[]" 7 "''x''"]
  by (simp add: sample_legacy_def ap2p_legacy_init_def legacy_init_def fits_def bcopy_def sanitize_response_def printable_def)

lemma publish_out:
  "set (lg_out (publish_mqtt_message c msg n st)) \<subseteq> set (lg_out st) \<union> range (\<lambda>(h, t, m). Publish h t m)"
  by (auto simp: publish_mqtt_message_def emit_def image_def split: option.split)

lemma publish_mem:
  "(\<And>h t m. e \<noteq> Publish h t m) \<Longrightarrow> e \<in> set (lg_out (publish_mqtt_message c msg n st)) \<longleftrightarrow> e \<in> set (lg_out st)"
  by (auto simp: publish_mqtt_message_def emit_def split: option.split)

lemma emit_mem: "e \<in> set (lg_out (emit e' st)) \<longleftrightarrow> e = e' \<or> e \<in> set (lg_out st)"
  by (auto simp: emit_def)

lemma ota_download_head: "\<exists>r. ota_download url = CHR ''w'' # r"
  by (simp add: ota_download_def bcopy_def)

lemma ota_remove_mem:
  "e \<noteq> System cmd \<Longrightarrow> e \<in> set (lg_out (ota_remove ob path cmd st)) \<longleftrightarrow> e \<in> set (lg_out st)"
  by (simp add: ota_remove_def emit_mem)

text \<open>
  Nothing of a firmware update is installed or run unless the SD card is there, the address passed
  the check, both downloads succeeded and the script could be written: the script runs only then, and
  the reboot command only after it.
\<close>

theorem ota_installs_only_after_checks:
  assumes "System ''/tmp/OTA.sh'' \<notin> set (lg_out st)" "System ''reboot'' \<notin> set (lg_out st)"
    "System ''/tmp/OTA.sh'' \<in> set (lg_out (case_36 ob c url st)) \<or> System ''reboot'' \<in> set (lg_out (case_36 ob c url st))"
  shows "ob_exists ob ''/mnt/tf'' \<and> ota_url_ok url \<and> ob_system_ok ob lib_download \<and> ob_system_ok ob (ota_download url)
    \<and> ob_fopen ob \<and> ob_system_ok ob ''chmod +x /tmp/OTA.sh''
    \<and> (System ''reboot'' \<in> set (lg_out (case_36 ob c url st)) \<longrightarrow> ob_system_ok ob ''/tmp/OTA.sh'')"
proof -
  obtain r where r: "ota_download url = CHR ''w'' # r" using ota_download_head by blast
  show ?thesis using assms
    by (auto simp: case_36_def ota_fetch_def ota_install_def shell_def Let_def publish_mem emit_mem ota_remove_mem
        lib_download_def r split: if_splits)
qed

lemma ota_download_runs:
  assumes "ob_exists ob ''/mnt/tf''" "ota_url_ok url" "ob_system_ok ob lib_download"
  shows "System (ota_download url) \<in> set (lg_out (case_36 ob c url st))"
  using assms by (simp add: case_36_def ota_fetch_def ota_install_def shell_def Let_def publish_mem emit_mem)

theorem ota_installs_only_after_checks_witness:
  "ob_exists sample_obs ''/mnt/tf'' \<and> ota_url_ok ''http://h/Augentix.tar.gz''
    \<and> System ''/tmp/OTA.sh'' \<in> set (lg_out (case_36 sample_obs (Some 7) ''http://h/Augentix.tar.gz'' sample_legacy))"
proof -
  have u: "ota_url_ok ''http://h/Augentix.tar.gz''" by (simp add: ota_url_ok_def starts_with_def)
  have m: "System ''/tmp/OTA.sh'' \<in> set (lg_out (case_36 sample_obs (Some 7) ''http://h/Augentix.tar.gz'' sample_legacy))"
    using u by (simp add: case_36_def ota_fetch_def ota_install_def shell_def Let_def publish_mem emit_mem sample_obs_def)
  then show ?thesis
    using ota_installs_only_after_checks [of sample_legacy sample_obs "Some 7" "''http://h/Augentix.tar.gz''"]
    by (simp add: sample_legacy_def ap2p_legacy_init_def legacy_init_def)
qed

text \<open>
  C37. The check of a firmware address lets a line break through, and the shell ends a command there: with the
  SD card present and the library download succeeding, an address that passes the check, followed by a
  line break and any line without the listed characters, together at most 496 characters, is accepted
  too and handed to the shell whole, so that the second line is run as a command of its own.
\<close>

theorem ota_newline_reaches_shell:
  assumes "ob_exists ob ''/mnt/tf''" "ob_system_ok ob lib_download" "ota_url_ok url" "length url + length cmd \<le> 496"
    "\<forall>x \<in> set cmd. x \<notin> set '';|`$&(){}[]!''"
  shows "System (''wget -P /tmp/ '' @ url @ CHR 0x0A # cmd) \<in> set (lg_out (case_36 ob c (url @ CHR 0x0A # cmd) st))"
proof -
  have "starts_with p u \<Longrightarrow> starts_with p (u @ v)" for p u v
    by (auto simp: starts_with_iff)
  then have ok: "ota_url_ok (url @ CHR 0x0A # cmd)"
    using assms(3,5) by (auto simp: ota_url_ok_def)
  have "ota_download (url @ CHR 0x0A # cmd) = ''wget -P /tmp/ '' @ url @ CHR 0x0A # cmd"
    using assms(4) unfolding ota_download_def by (intro bcopy_short) simp
  then show ?thesis using ota_download_runs [OF assms(1) ok assms(2), of c st] by (simp only:)
qed

theorem ota_newline_reaches_shell_witness:
  "System (''wget -P /tmp/ '' @ ''http://x'' @ CHR 0x0A # ''reboot'')
     \<in> set (lg_out (case_36 sample_obs (Some 7) (''http://x'' @ CHR 0x0A # ''reboot'') sample_legacy))"
  by (rule ota_newline_reaches_shell) (simp_all add: sample_obs_def ota_url_ok_def starts_with_def)

text \<open>A server's reading of an unmasked WebSocket frame: its opcode and its payload (RFC 6455, 5.2).\<close>

definition ws_decode :: "string \<Rightarrow> (nat \<times> string) option" where
  "ws_decode f =
     (case map of_char f of
        b # l # rest \<Rightarrow>
          if l \<le> 125 then (if length f = 2 + l then Some (b mod 16, drop 2 f) else None)
          else (case rest of
                  h # k # _ \<Rightarrow> if length f = 4 + h * 256 + k then Some (b mod 16, drop 4 f) else None
                | _ \<Rightarrow> None)
      | _ \<Rightarrow> None)"

text \<open>
  An audio chunk of at most 1020 bytes goes out as one frame that a server reads as a binary message
  (opcode 2, where the comment says text) with exactly these bytes; a longer chunk is dropped whole.
\<close>

theorem audio_frame_roundtrip:
  "(case ws_frame data of None \<Rightarrow> 1020 < length data
    | Some f \<Rightarrow> length data \<le> 1020 \<and> length f \<le> 1024 \<and> ws_decode f = Some (2, data))"
proof (cases "length data \<le> 125")
  case True
  then show ?thesis by (simp add: ws_frame_def ws_decode_def byte_def Let_def of_char_of)
next
  case False
  moreover have "length data div 256 mod 256 = length data div 256" if "length data \<le> 1020" using that by simp
  ultimately show ?thesis
    by (auto simp: ws_frame_def ws_decode_def byte_def Let_def of_char_of split: option.split)
qed

lemma legacy_case_number:
  assumes "fits 64 node" "int n \<le> int_max"
  shows "legacy_message_arrived old True ob c (''torque/rx/'' @ node @ ''/'' @ show_nat n) payload
      (ap2p_legacy_init (Some h) node url user pass st)
    = Some (legacy_case old ob c payload (if length node \<le> 38 then int n else atoi (drop 39 node @ ''/'' @ show_nat n))
        (ap2p_legacy_init (Some h) node url user pass st))"
proof -
  let ?t = "''torque/rx/'' @ node @ ''/''"
  have r: "lg_topic_receive (ap2p_legacy_init (Some h) node url user pass st) = take 49 ?t"
    by (simp add: ap2p_legacy_init_def bcopy_def)
  show ?thesis
  proof (cases "length node \<le> 38")
    case True
    then have "take 49 ?t = ?t" by simp
    then show ?thesis using True r by (simp add: legacy_message_arrived_def atoi_show_nat [OF assms(2)])
  next
    case False
    then have l: "length (take 49 ?t) = 49" by simp
    have "drop 49 (?t @ show_nat n) = drop 39 node @ ''/'' @ show_nat n" using False by simp
    then show ?thesis using False r l by (simp add: legacy_message_arrived_def)
  qed
qed

text \<open>
  The handlers read the case number behind a prefix of 49 characters at most.  A node id of up to 38
  characters is dispatched by its case; a longer one, which the shared state admits, is not: the rest of
  the id is read as part of the number.
\<close>

theorem case_number_of_own_topic:
  assumes "fits 64 node" "int n \<le> int_max"
  shows "legacy_message_arrived old True ob c (''torque/rx/'' @ node @ ''/'' @ show_nat n) payload
      (ap2p_legacy_init (Some h) node url user pass st)
    = Some (legacy_case old ob c payload (if length node \<le> 38 then int n else atoi (drop 39 node @ ''/'' @ show_nat n))
        (ap2p_legacy_init (Some h) node url user pass st))"
  by (rule legacy_case_number [OF assms])

theorem case_number_of_own_topic_witness:
  "legacy_message_arrived [] True sample_obs (Some 7) (''torque/rx/'' @ replicate 40 CHR ''a'' @ ''/'' @ show_nat 41) ''x''
      (ap2p_legacy_init (Some 7) (replicate 40 CHR ''a'') [] [] [] legacy_init)
   = Some (legacy_case [] sample_obs (Some 7) ''x'' 0 (ap2p_legacy_init (Some 7) (replicate 40 CHR ''a'') [] [] [] legacy_init))"
proof -
  have "fits 64 (replicate 40 CHR ''a'')" by (simp add: fits_def)
  moreover have "atoi (drop 39 (replicate 40 CHR ''a'') @ ''/'' @ show_nat 41) = 0"
    by (simp add: atoi_def clamp_def int_min_def int_max_def isspace_def isdigit_def numeral_eq_Suc)
  ultimately show ?thesis
    using case_number_of_own_topic [of "replicate 40 CHR ''a''" 41 "[]" sample_obs "Some 7" "''x''" 7 "[]" "[]" "[]" legacy_init]
    by (simp add: int_max_def)
qed

text \<open>
  A broadcast message is read behind the device's own prefix: for a device whose id is longer than
  the word \<open>all\<close> and the number together, the handler reads past the end of the topic.
\<close>

theorem broadcast_reads_past_topic:
  assumes "length node \<le> 38"
  shows "legacy_message_arrived old True ob c (''torque/rx/all/'' @ show_nat n) payload
      (ap2p_legacy_init (Some h) node url user pass st) = None
    \<longleftrightarrow> 3 + length (show_nat n) < length node"
  using assms by (auto simp: legacy_message_arrived_def ap2p_legacy_init_def bcopy_def)

theorem broadcast_reads_past_topic_witness:
  "legacy_message_arrived [] True sample_obs (Some 7) (''torque/rx/all/'' @ show_nat 2) ''x''
      (ap2p_legacy_init (Some 7) ''SN0001234'' [] [] [] legacy_init) = None"
  using broadcast_reads_past_topic [of "''SN0001234''" "[]" sample_obs "Some 7" 2 "''x''" 7 "[]" "[]" "[]" legacy_init]
  by (simp add: show_nat_examples)

text \<open>Whether the camera accepted a password: the call went through and its answer says so.\<close>

definition camera_accepts :: "curl_ans \<Rightarrow> bool" where
  "camera_accepts ans =
     (case ans of InitFailed \<Rightarrow> False
      | Performed ok pieces \<Rightarrow> ok \<and> is_password_change_success (Some (cstr (take 1023 (concat pieces)))))"

lemma is_success_Nil [simp]: "\<not> is_password_change_success (Some [])"
  by (simp add: is_password_change_success_def)

text \<open>
  A password change is adopted exactly when the camera answered it with success: then the stored
  password is the new one, cut to 63 characters, with the header rebuilt; otherwise the credentials are
  untouched.  A new password that is empty never changes them, even when the camera took it.
\<close>

theorem password_change_outcome:
  assumes "ob_alloc ob" "cJSON_Parse (cstr payload) = Some doc"
    "json_string (cJSON_GetObjectItem doc ''old_pass'') = Some old" "json_string (cJSON_GetObjectItem doc ''new_pass'') = Some new"
    "ob_escape ob (set_pass_xml (bcopy 64 old) (bcopy 64 new)) = Some content"
  shows "lg_creds (legacy_case o' ob c payload 71 st)
    = (if camera_accepts (ob_curl ob) \<and> new \<noteq> []
       then rebuild_basic_auth ((lg_creds st)\<lparr>cam_password := bcopy 64 new\<rparr>) else lg_creds st)"
proof -
  have e: "bcopy 64 new = [] \<longleftrightarrow> new = []" "bcopy 64 (bcopy 64 new) = bcopy 64 new" by (simp_all add: bcopy_def)
  have f: "lg_creds (emit x s) = lg_creds s" "lg_creds (publish_mqtt_message k m n s) = lg_creds s" for x s k m n
    by (simp_all add: emit_def publish_mqtt_message_def split: option.split)
  have n: "simple_cases 71 = None"
    by (simp add: simple_cases_def cases_2_18_def cases_19_33_def cases_34_35_def cases_38_39_def cases_41_48_def
        cases_52_def cases_54_55_def cases_58_66_def cases_68_69_def cases_72_78_def cases_81_83_def)
  have "lg_creds (case_71 ob c (cstr payload) st)
    = (if camera_accepts (ob_curl ob) \<and> new \<noteq> []
       then rebuild_basic_auth ((lg_creds st)\<lparr>cam_password := bcopy 64 new\<rparr>) else lg_creds st)"
    using assms write_callbacks [of 1024 "[]"]
    by (cases "ob_curl ob")
      (auto simp: case_71_def f https_local_def send_https_request_def get_cam_credentials_def camera_accepts_def
        update_password_def e cstr_def Let_def)
  then show ?thesis by (simp add: legacy_case_def n)
qed

definition password_doc :: json where
  "password_doc = JObject [(''old_pass'', JString ''a''), (''New_Pass'', JString ''b'')]"

lemma password_doc_items:
  "json_string (cJSON_GetObjectItem password_doc ''old_pass'') = Some ''a''"
  "json_string (cJSON_GetObjectItem password_doc ''new_pass'') = Some ''b''"
proof -
  have t: "tolower CHR ''N'' = CHR ''n''" "tolower CHR ''P'' = CHR ''p''" "tolower CHR ''o'' = CHR ''o''" "tolower CHR ''n'' = CHR ''n''"
    by code_simp+
  show "json_string (cJSON_GetObjectItem password_doc ''old_pass'') = Some ''a''"
    by (simp add: password_doc_def cJSON_GetObjectItem_def json_string_def strcaseeq_def)
  show "json_string (cJSON_GetObjectItem password_doc ''new_pass'') = Some ''b''"
    using t by (simp add: password_doc_def cJSON_GetObjectItem_def json_string_def strcaseeq_def) (simp add: tolower_def)
qed

lemma password_doc_printable: "printable_json password_doc" "nesting password_doc \<le> nesting_limit"
  by (simp_all add: password_doc_def nesting_limit_def)

lemma password_doc_read: "cJSON_Parse (cstr (render False 0 password_doc)) = Some password_doc"
proof -
  have "CHR 0x00 \<notin> set (render False 0 password_doc)" by (simp add: password_doc_def render_string_def escape_def)
  moreover have "cJSON_Parse (render False 0 password_doc) = Some password_doc"
    using document.reads_all [of password_doc False] password_doc_printable numbers_fit [OF password_doc_printable(1)]
    by (simp add: cJSON_Parse_def)
  ultimately show ?thesis by (simp add: cstr_id)
qed

theorem password_change_outcome_witness:
  "cam_password (lg_creds (legacy_case [] (sample_obs\<lparr>ob_curl := Performed True [''<success>'']\<rparr>) None
     (render False 0 password_doc) 71 sample_legacy)) = ''b''"
  using password_change_outcome [OF _ password_doc_read password_doc_items, of "sample_obs\<lparr>ob_curl := Performed True [''<success>'']\<rparr>"
      "set_pass_xml (bcopy 64 ''a'') (bcopy 64 ''b'')" "[]" None sample_legacy]
  by (simp add: sample_obs_def camera_accepts_def is_password_change_success_def cstr_def starts_with_def rebuild_basic_auth_def bcopy_def Let_def)

text \<open>
  The card sizes of the telemetry are computed in 32 bits: a card is reported as its size modulo
  4 GiB, so at most 4095 MB, and one of an exact multiple of 4 GiB as 0 MB.
\<close>

theorem sd_size_wraps:
  "unat (sd_megabytes b f) = unat b * unat f mod 2 ^ 32 div 2 ^ 20"
  by (simp add: sd_megabytes_def unat_div unat_word_ariths)

end
