(* ===== verification/LegacyBoot.thy ===== *)
theory LegacyBoot
  imports LegacyProps
begin

text \<open>
  The two threads of the legacy handlers that need no message: the start-up pulse, run once per process
  after the first subscription, and the keepalive loop with the device information (case 34) and the
  heartbeat (case 0).  The loop reads the shutdown flag once a second; \<open>flags\<close> are its readings, and a
  loop whose readings are used up is still running.
\<close>

subsection \<open>Unprompted publications\<close>

definition handle_case_2 :: "curl_ans \<Rightarrow> legacy \<Rightarrow> legacy" where
  "handle_case_2 ans st = ask ans (lg_client st) ''/netsdk/video/encode/channel/101'' GET [] 2 st"

definition handle_case_6 :: "curl_ans \<Rightarrow> legacy \<Rightarrow> legacy" where
  "handle_case_6 ans st = ask ans (lg_client st) ''/netsdk/video/input/channel/1'' GET [] 6 st"

definition handle_case_38 :: "curl_ans \<Rightarrow> legacy \<Rightarrow> legacy" where
  "handle_case_38 ans st = ask ans (lg_client st) ''/netsdk/image'' GET [] 38 st"

definition handle_case_39 :: "curl_ans \<Rightarrow> legacy \<Rightarrow> legacy" where
  "handle_case_39 ans st = ask ans (lg_client st) ''/netsdk/video/encode/channel/102'' GET [] 39 st"

definition ntp_body :: string where
  "ntp_body = CHR ''{'' # quoted_text ''ntpEnabled'' @ '': true, '' @ quoted_text ''ntpServerDomain'' @ '': ''
     @ quoted_text ''pool.ntp.org'' @ ''}''"

definition handle_case_23 :: "curl_ans \<Rightarrow> legacy \<Rightarrow> legacy" where
  "handle_case_23 ans st = ask ans (lg_client st) ''/netsdk/system/time/ntp'' PUT ntp_body 23 st"

definition handle_case_59_set_ist :: "curl_ans \<Rightarrow> legacy \<Rightarrow> legacy" where
  "handle_case_59_set_ist ans st =
     ask ans (lg_client st) ''/NetSDK/system/time/timeZone'' PUT (quoted_text ''GMT+05:30'') 59 st"

definition handle_case_8 :: "curl_ans \<Rightarrow> legacy \<Rightarrow> legacy" where
  "handle_case_8 ans st = ask ans (lg_client st) ''/netsdk/system/deviceinfo'' GET [] 8 st"

definition handle_case_34 :: "curl_ans \<Rightarrow> legacy \<Rightarrow> legacy" where
  "handle_case_34 ans st =
     (case https ans ''/Netsdk/Vmukti/DeviceInfo'' GET '' '' st of
        (rc, st1) \<Rightarrow> if rc \<noteq> 0 then st1 else answer (lg_client st1) 34 st1)"

definition cameraname_Change :: "curl_ans \<Rightarrow> legacy \<Rightarrow> legacy" where
  "cameraname_Change ans st =
     (case https ans ''/netsdk/video/encode/channel/101'' PUT
             (CHR ''{'' # quoted_text ''channelName'' @ '': '' @ quoted_text ''ARCIS AI'' @ ''}'') st of
        (rc, st1) \<Rightarrow> st1\<lparr>lg_response := sanitize_response (lg_response st1)\<rparr>)"

definition nap :: "legacy \<Rightarrow> legacy" where
  "nap st = emit (Pause 1000) st"

definition run_startup_cases :: "(nat \<Rightarrow> curl_ans) \<Rightarrow> legacy \<Rightarrow> legacy" where
  "run_startup_cases a st =
     handle_case_59_set_ist (a 7) (nap (handle_case_23 (a 6) (nap (handle_case_8 (a 5) (nap (handle_case_2 (a 4)
       (nap (handle_case_39 (a 3) (nap (handle_case_38 (a 2) (nap (handle_case_6 (a 1)
         (cameraname_Change (a 0) (get_ini_files st))))))))))))))"

definition ap2p_legacy_startup_thread :: "(nat \<Rightarrow> curl_ans) \<Rightarrow> legacy \<Rightarrow> legacy" where
  "ap2p_legacy_startup_thread a st = run_startup_cases a (emit (Pause 3000) st)"

subsection \<open>The keepalive loop\<close>

fun keepalive_sleep_or_exit :: "nat \<Rightarrow> bool list \<Rightarrow> legacy \<Rightarrow> (bool \<times> bool list) option \<times> legacy" where
  "keepalive_sleep_or_exit 0 flags st = (Some (False, flags), st)"
| "keepalive_sleep_or_exit (Suc n) [] st = (None, st)"
| "keepalive_sleep_or_exit (Suc n) (f # flags) st =
     (if f then (Some (True, flags), st) else keepalive_sleep_or_exit n flags (emit (Pause 1000) st))"

record beat =
  be_info :: curl_ans
  be_sys :: sys_obs

primrec keepalive_loop :: "beat list \<Rightarrow> bool list \<Rightarrow> legacy \<Rightarrow> bool \<times> legacy" where
  "keepalive_loop [] flags st = (False, st)"
| "keepalive_loop (b # bs) flags st =
     (case flags of [] \<Rightarrow> (False, st)
      | f # flags1 \<Rightarrow>
          if f then (True, st)
          else (case keepalive_sleep_or_exit 60 flags1 (handle_case_34 (be_info b) st) of
             (None, st1) \<Rightarrow> (False, st1)
           | (Some (True, flags2), st1) \<Rightarrow> (True, st1)
           | (Some (False, flags2), st1) \<Rightarrow>
               (case keepalive_sleep_or_exit 5 flags2 (handle_case_0 (be_sys b) st1) of
                  (None, st2) \<Rightarrow> (False, st2)
                | (Some (True, flags3), st2) \<Rightarrow> (True, st2)
                | (Some (False, flags3), st2) \<Rightarrow> keepalive_loop bs flags3 st2)))"

definition ap2p_legacy_keepalive_thread :: "beat list \<Rightarrow> bool list \<Rightarrow> legacy \<Rightarrow> bool \<times> legacy" where
  "ap2p_legacy_keepalive_thread bs flags st =
     (case keepalive_sleep_or_exit 10 flags st of
        (None, st1) \<Rightarrow> (False, st1)
      | (Some (True, flags1), st1) \<Rightarrow> (True, st1)
      | (Some (False, flags1), st1) \<Rightarrow> keepalive_loop bs flags1 st1)"

subsection \<open>When the heartbeats go out\<close>

text \<open>The times, in ms after \<open>t\<close>, at which something is published under a topic.\<close>

fun publish_times :: "string \<Rightarrow> nat \<Rightarrow> lg_ev list \<Rightarrow> nat list" where
  "publish_times topic t [] = []"
| "publish_times topic t (Pause ms # ev) = publish_times topic (t + ms) ev"
| "publish_times topic t (Publish h tp m # ev) = (if tp = topic then t # publish_times topic t ev else publish_times topic t ev)"
| "publish_times topic t (e # ev) = publish_times topic t ev"

fun paused :: "lg_ev list \<Rightarrow> nat" where
  "paused [] = 0"
| "paused (Pause ms # ev) = ms + paused ev"
| "paused (e # ev) = paused ev"

lemma paused_append [simp]: "paused (a @ b) = paused a + paused b"
  by (induction a rule: paused.induct) simp_all

lemma publish_times_append:
  "publish_times tp t (a @ b) = publish_times tp t a @ publish_times tp (t + paused a) b"
  by (induction tp t a rule: publish_times.induct) (simp_all add: add.assoc)

lemma sleep_false:
  "n \<le> length flags \<Longrightarrow> \<forall>f \<in> set flags. \<not> f \<Longrightarrow>
   keepalive_sleep_or_exit n flags st = (Some (False, drop n flags), st\<lparr>lg_out := lg_out st @ replicate n (Pause 1000)\<rparr>)"
proof (induction n flags st rule: keepalive_sleep_or_exit.induct)
  case (3 n f flags st)
  then show ?case by (auto simp: emit_def)
qed simp_all

lemma pauses [simp]: "paused (replicate n (Pause k)) = n * k" "publish_times tp t (replicate n (Pause k)) = []"
  by (induction n arbitrary: t) simp_all

definition same_wire :: "legacy \<Rightarrow> legacy \<Rightarrow> bool" where
  "same_wire st st' \<longleftrightarrow> lg_client st' = lg_client st \<and> lg_topic_send st' = lg_topic_send st"

definition beat_topic :: "legacy \<Rightarrow> string" where
  "beat_topic st = bcopy 256 (lg_topic_send st @ show_int 0)"

lemma cpu_frame: "get_cpu_usage stat st = (r, st') \<Longrightarrow> same_wire st st' \<and> lg_out st' = lg_out st"
  by (auto simp: get_cpu_usage_def same_wire_def Let_def split: option.splits if_splits)

lemma sysinfo_frame: "get_system_info ob st = (r, st') \<Longrightarrow> same_wire st st' \<and> lg_out st' = lg_out st"
proof (cases "get_cpu_usage (sy_stat ob) st")
  case (Pair c st1)
  then show "get_system_info ob st = (r, st') \<Longrightarrow> ?thesis"
    using cpu_frame [OF Pair]
    by (auto simp: get_system_info_def same_wire_def Let_def split: option.splits sum.splits if_splits)
qed

lemma heartbeat_out:
  assumes "lg_client st = Some h"
  shows "\<exists>msg. lg_out (handle_case_0 ob st) = lg_out st @ [Publish h (beat_topic st) msg] \<and> same_wire st (handle_case_0 ob st)"
proof -
  obtain r st1 where g: "get_system_info ob st = (r, st1)" by fastforce
  show ?thesis using sysinfo_frame [OF g] g assms
    by (auto simp: handle_case_0_def publish_mqtt_message_def same_wire_def beat_topic_def emit_def Let_def)
qed

lemma other_topic: "fits 50 s \<Longrightarrow> bcopy 256 (s @ show_int 34) \<noteq> bcopy 256 (s @ show_int 0)"
proof -
  assume "fits 50 s"
  then have "length s < 50" by (simp add: fits_def)
  moreover have "show_int 34 = ''34''" "show_int 0 = ''0''" by code_simp+
  ultimately show ?thesis by (simp add: bcopy_short)
qed

lemma info_out:
  assumes "lg_client st = Some h" "fits 50 (lg_topic_send st)"
  shows "\<exists>ev. lg_out (handle_case_34 ans st) = lg_out st @ ev \<and> paused ev = 0 \<and> publish_times (beat_topic st) t ev = []
    \<and> same_wire st (handle_case_34 ans st)"
  using assms other_topic [OF assms(2)]
  by (cases ans)
    (auto simp: handle_case_34_def https_def send_https_request_def get_cam_credentials_def same_wire_def answer_def
      publish_mqtt_message_def emit_def beat_topic_def Let_def)

lemma keepalive_beat:
  assumes "lg_client st = Some h" "fits 50 (lg_topic_send st)" "66 \<le> length flags" "\<forall>f \<in> set flags. \<not> f"
  shows "\<exists>ev st'. keepalive_loop (b # bs) flags st = keepalive_loop bs (drop 66 flags) st' \<and> same_wire st st'
    \<and> lg_out st' = lg_out st @ ev \<and> paused ev = 65000 \<and> publish_times (beat_topic st) t ev = [t + 60000]"
proof -
  obtain f fl where f: "flags = f # fl" "65 \<le> length fl" "\<not> f" "\<forall>x \<in> set fl. \<not> x"
    using assms(3,4) by (cases flags) auto
  define s1 where "s1 = handle_case_34 (be_info b) st"
  obtain e1 where e1: "lg_out s1 = lg_out st @ e1" "paused e1 = 0" "publish_times (beat_topic st) t e1 = []" "same_wire st s1"
    using info_out [OF assms(1,2)] s1_def by blast
  define s2 where "s2 = s1\<lparr>lg_out := lg_out s1 @ replicate 60 (Pause 1000)\<rparr>"
  have k1: "keepalive_sleep_or_exit 60 fl s1 = (Some (False, drop 60 fl), s2)"
    using f by (simp add: s2_def sleep_false)
  have c2: "lg_client s2 = Some h" "beat_topic s2 = beat_topic st" "same_wire st s2"
    using e1(4) assms(1) by (simp_all add: s2_def same_wire_def beat_topic_def)
  define s3 where "s3 = handle_case_0 (be_sys b) s2"
  obtain msg where e3: "lg_out s3 = lg_out s2 @ [Publish h (beat_topic st) msg]" "same_wire s2 s3"
    using heartbeat_out [OF c2(1), of "be_sys b"] c2(2) s3_def by auto
  define s4 where "s4 = s3\<lparr>lg_out := lg_out s3 @ replicate 5 (Pause 1000)\<rparr>"
  have "\<forall>x \<in> set (drop 60 fl). \<not> x" using f(4) by (auto dest: in_set_dropD)
  then have k2: "keepalive_sleep_or_exit 5 (drop 60 fl) s3 = (Some (False, drop 65 fl), s4)"
    using f(2) by (simp add: s4_def sleep_false)
  have "keepalive_loop (b # bs) flags st = keepalive_loop bs (drop 66 flags) s4"
    using k1 k2 f by (simp add: s1_def [symmetric] s3_def [symmetric])
  moreover have "lg_out s4 = lg_out st @ (e1 @ replicate 60 (Pause 1000) @ [Publish h (beat_topic st) msg] @ replicate 5 (Pause 1000))"
    using e1(1) e3(1) by (simp add: s4_def s2_def)
  moreover have "same_wire st s4" using c2(3) e3(2) by (simp add: s4_def same_wire_def)
  ultimately show ?thesis using e1(2,3) by (intro exI conjI) (auto simp: publish_times_append)
qed

lemma keepalive_loop_times:
  "lg_client st = Some h \<Longrightarrow> fits 50 (lg_topic_send st) \<Longrightarrow> 66 * length bs \<le> length flags \<Longrightarrow> \<forall>f \<in> set flags. \<not> f \<Longrightarrow>
   \<exists>ev. lg_out (snd (keepalive_loop bs flags st)) = lg_out st @ ev
     \<and> publish_times (beat_topic st) t ev = map (\<lambda>i. t + 60000 + 65000 * i) [0..<length bs]"
proof (induction bs arbitrary: flags st t)
  case (Cons b bs)
  then have "66 \<le> length flags" by simp
  then obtain ev st' where b: "keepalive_loop (b # bs) flags st = keepalive_loop bs (drop 66 flags) st'" "same_wire st st'"
    "lg_out st' = lg_out st @ ev" "paused ev = 65000" "publish_times (beat_topic st) t ev = [t + 60000]"
    using keepalive_beat [OF Cons.prems(1,2) _ Cons.prems(4)] by blast
  have s: "lg_client st' = Some h" "fits 50 (lg_topic_send st')" "beat_topic st' = beat_topic st"
    using b(2) Cons.prems by (simp_all add: same_wire_def beat_topic_def)
  have "66 * length bs \<le> length (drop 66 flags)" "\<forall>f \<in> set (drop 66 flags). \<not> f"
    using Cons.prems(3,4) by (auto dest: in_set_dropD)
  then obtain ev' where i: "lg_out (snd (keepalive_loop bs (drop 66 flags) st')) = lg_out st' @ ev'"
    "publish_times (beat_topic st) (t + 65000) ev' = map (\<lambda>i. (t + 65000) + 60000 + 65000 * i) [0..<length bs]"
    using Cons.IH [OF s(1,2), of "drop 66 flags" "t + 65000"] s(3) by auto
  have u: "[0..<length (b # bs)] = 0 # map Suc [0..<length bs]" by (simp add: upt_conv_Cons map_Suc_upt del: upt_Suc)
  have "map (\<lambda>i. t + 60000 + 65000 * i) [0..<length (b # bs)]
    = (t + 60000) # map (\<lambda>i. (t + 65000) + 60000 + 65000 * i) [0..<length bs]"
    unfolding u by (simp add: o_def)
  moreover have "publish_times (beat_topic st) t (ev @ ev')
    = (t + 60000) # map (\<lambda>i. (t + 65000) + 60000 + 65000 * i) [0..<length bs]"
    by (simp only: publish_times_append b(4,5) i(2) append.simps)
  ultimately show ?case using b(1,3) i(1) by (intro exI [of _ "ev @ ev'"]) (simp only: append.assoc simp_thms)
qed auto

subsection \<open>Properties\<close>

text \<open>
  While the device is connected and not shutting down, the heartbeat of case 0 goes out 70 seconds
  after the thread starts and then every 65 seconds, whatever the camera's web server and its telemetry
  answer (the header and the log announce 30 seconds).
\<close>

theorem heartbeat_cadence:
  assumes "lg_client st = Some h" "fits 50 (lg_topic_send st)" "10 + 66 * length bs \<le> length flags" "\<forall>f \<in> set flags. \<not> f"
  shows "\<exists>ev. lg_out (snd (ap2p_legacy_keepalive_thread bs flags st)) = lg_out st @ ev
    \<and> publish_times (bcopy 256 (lg_topic_send st @ show_int 0)) 0 ev = map (\<lambda>i. 70000 + 65000 * i) [0..<length bs]"
proof -
  let ?s = "st\<lparr>lg_out := lg_out st @ replicate 10 (Pause 1000)\<rparr>"
  have k: "keepalive_sleep_or_exit 10 flags st = (Some (False, drop 10 flags), ?s)"
    using assms(3,4) by (intro sleep_false) auto
  have d: "\<forall>f \<in> set (drop 10 flags). \<not> f" using assms(4) by (auto dest: in_set_dropD)
  have l: "66 * length bs \<le> length (drop 10 flags)" using assms(3) by simp
  have w: "lg_client ?s = Some h" "fits 50 (lg_topic_send ?s)" "beat_topic ?s = beat_topic st"
    using assms(1,2) by (simp_all add: beat_topic_def)
  obtain ev where e: "lg_out (snd (keepalive_loop bs (drop 10 flags) ?s)) = lg_out ?s @ ev"
    "publish_times (beat_topic st) 10000 ev = map (\<lambda>i. 10000 + 60000 + 65000 * i) [0..<length bs]"
    using keepalive_loop_times [OF w(1,2) l d, of 10000] unfolding w(3) by blast
  have "publish_times (beat_topic st) 0 (replicate 10 (Pause 1000) @ ev) = map (\<lambda>i. 70000 + 65000 * i) [0..<length bs]"
    using e(2) by (simp add: publish_times_append)
  moreover have "lg_out (snd (ap2p_legacy_keepalive_thread bs flags st)) = lg_out st @ replicate 10 (Pause 1000) @ ev"
    using e(1) by (simp add: ap2p_legacy_keepalive_thread_def k)
  ultimately show ?thesis unfolding beat_topic_def by blast
qed

theorem heartbeat_cadence_witness:
  "\<exists>ev. lg_out (snd (ap2p_legacy_keepalive_thread
        (replicate 2 \<lparr>be_info = InitFailed, be_sys = sample_sys\<rparr>) (replicate 142 False) sample_legacy)) = ev
     \<and> publish_times (bcopy 256 (''torque/tx/cam1/'' @ show_int 0)) 0 ev = [70000, 135000]"
  using heartbeat_cadence [of sample_legacy 7 "replicate 2 \<lparr>be_info = InitFailed, be_sys = sample_sys\<rparr>" "replicate 142 False"]
  by (auto simp: sample_legacy_def ap2p_legacy_init_def legacy_init_def fits_def bcopy_def upt_rec)

end
