(* ===== verification/Spec2Isabelle.thy ===== *)
theory Spec2Isabelle
  imports Prelude Timing Config Bootstrap Edge Ctrl Fanout SrtSource Pump CtrlSession PhoneFanout
    SigMsg SigServer SigProps SigRaces SigHttp ConsumerHttp Phone Rendezvous Provider ProviderSession
    ProviderPump Creds MqttThread
    Double Json JsonString JsonParse V1Client JsonPrint JsonRoundtrip JsonProps
    Legacy LegacyCases LegacyProps LegacyBoot LegacyTelemetry
begin

text \<open>
  Verification of the camera streaming system of this repository: the camera daemon \<open>ap2p\<close>
  (\<open>src/ap2p\<close>), the signaling server (\<open>src/signaling-server/signaling_server.cpp\<close>), the consumers in the cloud
  (\<open>src/consumer-srt-cloud/consumer_srt.c\<close>) and on the phone (\<open>src/consumer-srt-android/consumer_srt_p2p.c\<close>), and
  the stand-alone provider (\<open>src/provider-srt/provider_srt.c\<close>) that the daemon grew out of, with the
  connection handling of the v1 client (\<open>src/mqtt-vcamclient/HTTP.c\<close>) before them.

  \<^bold>\<open>The program.\<close>  \<open>ap2p\<close> runs on an IP camera as one process.  \<open>main.c\<close> reads the node
  id and the bootstrap file and starts two threads over one shared state (\<open>state.h\<close>).  The MQTT
  thread (\<open>mqtt_thread.c\<close>) keeps a connection to a broker; messages of case 90 carry the runtime
  configuration and go to \<open>config.c\<close>, all others go to the legacy handlers (\<open>legacy_cases.c\<close>), which
  drive the camera through its own web server (\<open>n_https.c\<close>) and publish the answers, reports built with
  \<open>cJSON.c\<close> among them; two more threads, the start-up pulse and the keepalive, publish without being asked.
  The SRT thread (\<open>srt_thread.c\<close>) waits for the configuration, learns the camera's public address with a STUN
  exchange (\<open>edge_lite.h\<close>), registers it at the signaling server over a framed control connection, and for each
  peer the server announces posts a request to the pump, a third thread that connects an SRT rendezvous
  and copies the camera's own HTTP-FLV stream into it.  \<open>boot_timing.c\<close> and \<open>stream_timing.c\<close>
  measure both phases.  The signaling server runs one thread per connection over two shared registries and
  brings cameras and phones together.  A phone's consumer discovers its own address, asks the server for a
  camera, meets it in an SRT rendezvous and serves the stream to local players; the cloud consumer receives
  streams pushed to it and serves them to up to eight HTTP viewers.

  \<^bold>\<open>The theories\<close>, in the order they build on each other.

  \<^item> \<open>Prelude\<close>: C strings and \<open>strncpy\<close>/\<open>snprintf\<close> truncation (\<open>bcopy\<close>), \<open>strstr\<close>,
    \<open>fgets\<close>, \<open>strcasecmp\<close>, \<open>atoi\<close> and decimal printing, with the facts every component uses; the locale
    \<open>codec\<close> (what is printed parses back).
  \<^item> \<open>Timing\<close>: \<open>boot_timing.c\<close>, \<open>stream_timing.c\<close>.  A milestone keeps its first value; a summary is
    published at most once per boot, and once per session.
  \<^item> \<open>Config\<close>: \<open>ap2p_state\<close> is the struct of \<open>state.h\<close> without its mutex; \<open>config.c\<close>'s table of
    17 keys is \<open>kFields\<close>, its parser \<open>apply_ap2p_conf_payload\<close>; \<open>state.c\<close>'s reload flag and wait
    are \<open>ap2p_consume_srt_reload\<close> and \<open>ap2p_wait_state_ready\<close>.  The parser is related to an abstract
    store (a function from keys to values, the last assignment wins) by the locale \<open>field_store\<close>, which is
    interpreted on the C struct's fields.
  \<^item> \<open>Bootstrap\<close>: the JSON field scanner and bootstrap loader of \<open>config.c\<close>, the node id file and
    \<open>main.c\<close> as a list of \<open>main_event\<close>s.
  \<^item> \<open>Edge\<close>: \<open>edge_lite.h\<close> on bytes of type \<open>8 word\<close>; reads go through \<open>rd\<close>, which is \<open>None\<close>
    outside the datagram, so that memory safety is that the parser never yields \<open>None\<close>.
  \<^item> \<open>Ctrl\<close>: the framing of the control connection and the \<open>key=value\<close> lookup of \<open>srt_thread.c\<close>.
  \<^item> \<open>SrtSource\<close>: the configuration snapshot, the HTTP source with its response-head parser, the SRT
    rendezvous and the copying loop of \<open>srt_thread.c\<close>.
  \<^item> \<open>Pump\<close>: the mailbox between control thread and pump thread, one record \<open>pump\<close> with the pump
    thread's program counter; \<open>pump_run\<close> is any interleaving of the two.
  \<^item> \<open>CtrlSession\<close>: one control session (\<open>ctrl_setup\<close>, \<open>ctrl_turn\<close>, \<open>tear_down\<close>) and the thread
    around it with its reconnect backoff.
  \<^item> \<open>Fanout\<close>: ring buffer, viewers and SRT sessions of \<open>consumer_srt.c\<close>; \<open>fan_step\<close> is one critical
    section.  The locale \<open>ring_log\<close> states what a ring of the last \<open>n\<close> bytes of a log promises and is
    interpreted on \<open>ring_write\<close>.  The fields \<open>got\<close> and \<open>joined\<close> are ghosts no operation reads.
  \<^item> \<open>ConsumerHttp\<close>: the cloud consumer's configuration file, the HTTP handshake, listeners and \<open>main\<close>.
  \<^item> \<open>PhoneFanout\<close>, \<open>Phone\<close>: \<open>consumer_srt_p2p.c\<close>.  The first is its ring buffer with the cached stream
    head and its local players, where \<open>ring_log\<close> is interpreted a second time; the second its command line, its
    side of the signaling exchange, and \<open>main\<close> with every way out of it.
  \<^item> \<open>SigMsg\<close>: the server's message format (\<open>parse_message\<close>, \<open>create_message\<close>) and configuration file.
    \<open>SigServer\<close>: the registries, every message handler and the ping monitor; a thread's position is a \<open>sig_pc\<close>,
    \<open>sv_step\<close> one critical section or one \<open>send\<close> of one thread, \<open>sv_run\<close> any interleaving.  \<open>SigProps\<close>: the
    server's invariants; its locale \<open>owned_store\<close> says what a registry whose entries belong to descriptors
    promises, and is interpreted on both registries.  \<open>SigRaces\<close>: runs in which the interleaving shows.
    \<open>SigHttp\<close>: the dashboard's requests, sessions and routing.
  \<^item> \<open>Rendezvous\<close>: camera, server and phone composed.
  \<^item> \<open>Provider\<close>, \<open>ProviderSession\<close>, \<open>ProviderPump\<close>: \<open>provider_srt.c\<close>.  Its configuration is a second
    interpretation of \<open>field_store\<close>; its transport is TCP or TLS; its session, mailbox and copying loop are
    compared with the daemon's.
  \<^item> \<open>Creds\<close>: the Basic-auth header of \<open>legacy_cases.c\<close> with its Base64 encoder, and \<open>n_https.c\<close>.
  \<^item> \<open>MqttThread\<close>: \<open>mqtt_thread.c\<close>.  \<open>message_arrived\<close> dispatches, \<open>connect_once\<close> makes one
    connection, \<open>mqtt_turn\<close> is one turn of the outer loop with its failover.  \<open>mq_live\<close> are the client
    handles created and not destroyed, \<open>mq_exposed\<close> is the handle the other threads publish through.
  \<^item> \<open>Double\<close>, \<open>Json\<close>, \<open>JsonString\<close>, \<open>JsonParse\<close>, \<open>JsonPrint\<close>, \<open>JsonRoundtrip\<close>, \<open>JsonProps\<close>:
    \<open>cJSON.c\<close>.  IEEE doubles with exact rounding, the tree and the reads the handlers make of it, string
    literals with both passes of the parser, values, the printer with its growing buffer, and the round
    trip.  The locale \<open>consuming\<close> (a parser that never gives back more than it got) is interpreted on each
    part of the parser, \<open>codec\<close> on strings, numbers and documents.
  \<^item> \<open>V1Client\<close>: the connection side of \<open>mqtt-vcamclient/HTTP.c\<close>, the program before \<open>ap2p\<close>: its configuration,
    the first connection with failover, and the interleavings of main loop, monitor and lost-connection
    callback over one client handle; \<open>v1_exec\<close> is one call of one thread.
  \<^item> \<open>Legacy\<close>, \<open>LegacyCases\<close>, \<open>LegacyProps\<close>, \<open>LegacyBoot\<close>, \<open>LegacyTelemetry\<close>: \<open>legacy_cases.c\<close>.  Its
    static variables are the record \<open>legacy\<close>; what it does to the outside is appended to \<open>lg_out\<close> as a list
    of \<open>lg_ev\<close> (HTTP calls, shell commands, files, sockets, publications, pauses).  The cases that only
    forward a message are one table, \<open>simple_cases\<close>; the others have a definition each.  The last theory
    follows a measurement from \<open>/proc/stat\<close> through the JSON text of the heartbeat and back.

  \<^bold>\<open>What the lemmas show.\<close>  Memory: every buffer keeps a terminated string that fits it, the
  STUN parser reads inside its datagram, the JSON parser and printer inside their buffers.  Resources: sockets,
  SRT sockets, client handles, TLS objects and the audio socket are closed exactly once, in every interleaving
  and after every failure, except where a theorem states the leak.  Function: the configuration parsers, the
  framing, the STUN reply, the registration, the response head, JSON documents and the audio frame read back
  what was written; a viewer receives a contiguous part of the stream.  Safety: the server registers only who
  has the token, its dashboard answers only who has logged in, the provider sends nothing before TLS is up; each
  entry of a registry belongs to a connection that is open and served.  Order and progress: requests to the pump
  reach it newest first and reload requests once, connection attempts and heartbeats come at the times stated.
  Where the interleaving of threads breaks one of these, a theorem exhibits the run.  The theorems of this theory
  and of \<open>Rendezvous\<close> join the parts: a configuration published to the device reaches the snapshot of the SRT
  session, a command is answered on the device's topic, camera and phone connect to each other's addresses.

  \<^bold>\<open>How the outside appears.\<close>  libsrt, libcurl, OpenSSL, Paho MQTT, sockets, files and the clock are not
  modelled: what each call returns is an argument (records named \<open>..._obs\<close>, lists of answers), and the
  theorems quantify over all of them.  Where the code loops until something outside happens, the loop is
  structural over the list of answers; an exhausted list is a loop that has not ended yet (\<open>None\<close>, or a
  state with no verdict), and the theorems on progress say which answers end it.  Loops over
  bytes and text (payload lines, STUN attributes, the response head) are total functions.  Fuel is used in one
  place, the mutually recursive JSON parser: it gets twice the length of the text and two, each value or list
  element consumes a character before the next is begun, and \<open>parse_terminates\<close> shows that no text runs out.

  \<^bold>\<open>Abstractions.\<close>  A function that holds a mutex throughout is one atomic step; a thread of the
  signaling server can be interrupted between its critical sections and its sends.  \<open>double\<close>s are exact IEEE
  values in the JSON code; those that are only stored and compared are rationals.  \<open>unsigned long\<close> has 32 bits,
  as on the target.  Byte counters of the ring are natural numbers (the code's have 64 bits).  Strings end before
  their first NUL.  Logging is left out.

  \<^bold>\<open>Not modelled.\<close>  The JSON text of the timing summaries (\<open>printf\<close> of doubles) is an argument of
  the publication.  Of \<open>cJSON.c\<close>, raw items and \<open>NULL\<close> strings, the editing calls, \<open>Duplicate\<close>, \<open>Compare\<close>, \<open>Minify\<close> and the allocation
  hooks, which the daemon does not call.  Of the signaling server, the text of its statistics and pages, the
  resource monitor, and \<open>main\<close>'s set-up of the listeners.  The v1 connection code at the end of
  \<open>legacy_cases.c\<close> (its own \<open>main\<close>, failover and broker monitor), which nothing in this build calls; it is
  modelled in the program it was copied from.  The message handlers of that program, \<open>mqtt-vcamclient/HTTP.c\<close>,
  are modelled in their later copy.  The two \<open>_legacy_libjuice\<close> programs are retired.
  \<open>stun_lite.h\<close> is \<open>edge_lite.h\<close> with other names and is represented by its model.  \<open>third_party\<close> is vendored.
\<close>

subsection \<open>Across the threads\<close>

lemma snapshot_fields:
  assumes "\<And>f. get_field f a = get_field f b"
  shows "snapshot_config a = snapshot_config b"
proof -
  have s: "get_str f a = get_str f b" for f using assms [of "F_STR f"] by simp
  have i: "get_int f a = get_int f b" for f using assms [of "F_INT f"] by simp
  show ?thesis
    using s [of F_node_id] s [of F_ctrl_host] s [of F_ctrl_scheme] s [of F_ctrl_token] s [of F_edge_host] s [of F_relay_host]
      s [of F_relay_user] s [of F_relay_pass] s [of F_src_host] s [of F_src_path] s [of F_src_auth]
      i [of F_ctrl_port] i [of F_edge_port] i [of F_relay_port] i [of F_src_port] i [of F_latency_ms] i [of F_verbose]
    by (simp add: snapshot_config_def)
qed

lemma push_rendered:
  assumes "wf_state cfg" "clean_state cfg" "ctrl_host cfg \<noteq> []"
    "apply_ap2p_conf_payload st (render_conf cfg) = (rc, st', marks)"
  shows "rc = 0 \<and> state_ready st' \<and> (state_ready st \<longrightarrow> srt_reload_pending st') \<and> snapshot_config st' = snapshot_config cfg"
proof -
  let ?s = "conf_loop st (render_conf cfg)"
  have g: "get_field f ?s = get_field f cfg" for f by (rule get_field_render [OF assms(1,2)])
  have "get_field (F_STR F_ctrl_host) ?s = get_field (F_STR F_ctrl_host) cfg" by (rule g)
  then have "ctrl_host ?s \<noteq> []" using assms(3) by simp
  moreover have "render_conf cfg \<noteq> []" by (simp add: render_conf_def kFields_def)
  moreover have "snapshot_config (x\<lparr>state_ready := b\<rparr>) = snapshot_config x"
    "snapshot_config (x\<lparr>srt_reload_pending := b\<rparr>) = snapshot_config x" for x b by (simp_all add: snapshot_config_def)
  moreover have "snapshot_config ?s = snapshot_config cfg" by (rule snapshot_fields) (rule g)
  moreover have "state_ready ?s = state_ready st" by (simp add: conf_loop_flags)
  ultimately show ?thesis using assms(4)
    by (cases "state_ready st") (auto simp: apply_ap2p_conf_payload_def Let_def)
qed

text \<open>
  C2. A configuration published to the case-90 topic of a device with a node id of less than 64 characters is what
  the SRT side runs with.  The payload is the text of a configuration with a control host, whose strings fit
  their buffers and hold no comment sign, line end or outer blank.  The message is accepted from every
  previous state, the state is ready after it, a session already running is asked to rebuild, and the
  snapshot the SRT thread takes next is that of the published configuration.
\<close>

theorem config_push_reaches_srt_session:
  assumes "wf_state cfg" "clean_state cfg" "ctrl_host cfg \<noteq> []" "fits 64 nid"
    "message_arrived True (topic_recv nid) (''torque/rx/'' @ nid @ ''/'' @ show_nat 90) (render_conf cfg) st = (d, st')"
  shows "(\<exists>marks. d = ConfPush 0 marks) \<and> state_ready st' \<and> (state_ready st \<longrightarrow> srt_reload_pending st')
    \<and> snapshot_config st' = snapshot_config cfg"
proof -
  have "case_of_topic (topic_recv nid) (''torque/rx/'' @ nid @ ''/'' @ show_nat 90) = 90"
    using own_topic_case [OF assms(4), of 90] by (simp add: int_max_def)
  then obtain rc marks where a: "apply_ap2p_conf_payload st (render_conf cfg) = (rc, st', marks)" "d = ConfPush rc marks"
    using assms(5) by (auto simp: message_arrived_def split: prod.splits)
  show ?thesis using push_rendered [OF assms(1-3) a(1)] a(2) by blast
qed

theorem config_push_reaches_srt_session_witness:
  "\<exists>d st'. message_arrived True (topic_recv ''cam1'') (''torque/rx/'' @ ''cam1'' @ ''/'' @ show_nat 90) (render_conf sample_conf)
       (ap2p_state_init\<lparr>state_ready := True\<rparr>) = (d, st')
     \<and> srt_reload_pending st' \<and> snapshot_config st' = snapshot_config sample_conf"
proof -
  have w: "wf_state sample_conf"
    by (simp add: wf_state_def all_str_fields_def all_int_fields_def sample_conf_def ap2p_state_init_def fits_def int_min_def int_max_def)
  have c: "clean_state sample_conf"
    by (simp add: clean_state_def all_str_fields_def sample_conf_def ap2p_state_init_def clean_def is_eol_def isspace_def)
  have h: "ctrl_host sample_conf \<noteq> []" by (simp add: sample_conf_def)
  obtain d st' where m: "message_arrived True (topic_recv ''cam1'') (''torque/rx/'' @ ''cam1'' @ ''/'' @ show_nat 90) (render_conf sample_conf)
       (ap2p_state_init\<lparr>state_ready := True\<rparr>) = (d, st')" by fastforce
  show ?thesis using config_push_reaches_srt_session [OF w c h _ m] m by (auto simp: fits_def)
qed

text \<open>
  C9. A command published to the device's topic is answered on the device's topic.  For a node id of at most
  38 characters, a case other than 90 that the table answers by asking the camera, and a call of the
  camera's web server that is performed: the configuration path leaves the message alone, the legacy
  handler of its number is reached through the connection just wired, calls the case's endpoint, and
  publishes the camera's answer, cut at 8191 bytes and blanked where unprintable, under
  \<open>torque/tx/<node>/<case>\<close>.
\<close>

theorem command_answered_end_to_end:
  assumes "fits 39 node" "int n \<le> int_max" "n \<noteq> 90" "simple_cases (int n) = Some (Ask ep m body)" "ob_curl ob = Performed ok pieces"
  shows "message_arrived True (topic_recv node) (''torque/rx/'' @ node @ ''/'' @ show_nat n) payload st = (LegacyMessage, st)
    \<and> (\<exists>call ls'. legacy_message_arrived old True ob (Some h) (''torque/rx/'' @ node @ ''/'' @ show_nat n) payload
            (ap2p_legacy_init (Some h) node url user pass ls) = Some ls'
        \<and> lg_out ls' = lg_out ls @ [HttpCall call, Publish h (''torque/tx/'' @ node @ ''/'' @ show_nat n)
             (sanitize_response (cstr (take 8191 (concat pieces))))]
        \<and> hc_url call = bcopy 256 (base_url @ ep) \<and> hc_method call = m)"
proof -
  have f: "fits 64 node" "length node \<le> 38" using assms(1) by (simp_all add: fits_def)
  have "int n < 10 ^ 10" using assms(2) by (simp add: int_max_def)
  then have "length (show_nat n) \<le> 10" using length_show_nat_le [of n 10] by simp
  then have t: "bcopy 256 (bcopy 50 (''torque/tx/'' @ node @ ''/'') @ show_int (int n)) = ''torque/tx/'' @ node @ ''/'' @ show_nat n"
    using f(2) by (simp add: bcopy_def show_int_def)
  show ?thesis
    using own_topic_case [OF f(1) assms(2)] assms(3) f(2) t
      legacy_case_number [OF f(1) assms(2), of old ob "Some h" payload h url user pass ls]
      table_case_out [OF assms(4,5), of old h payload "ap2p_legacy_init (Some h) node url user pass ls"]
    by (auto simp: message_arrived_def ap2p_legacy_init_def)
qed

theorem command_answered_end_to_end_witness:
  "\<exists>call ls'. legacy_message_arrived [] True sample_obs (Some 7) (''torque/rx/'' @ ''cam1'' @ ''/'' @ show_nat 8) []
       (ap2p_legacy_init (Some 7) ''cam1'' [] [] [] legacy_init) = Some ls'
     \<and> lg_out ls' = [HttpCall call, Publish 7 (''torque/tx/'' @ ''cam1'' @ ''/'' @ show_nat 8) ''{}'']"
proof -
  have "simple_cases (int 8) = Some (Ask ''/netsdk/system/deviceinfo'' GET False)"
    by (simp add: simple_cases_def cases_2_18_def)
  then show ?thesis
    using command_answered_end_to_end [of "''cam1''" 8 "''/netsdk/system/deviceinfo''" GET False sample_obs True "[''{}'']" "[]"
        ap2p_state_init "[]" 7 "[]" "[]" "[]" legacy_init]
    by (auto simp: fits_def int_max_def sample_obs_def legacy_init_def cstr_def sanitize_response_def printable_def)
qed

end
